(* ===== verification/Prelude.thy ===== *)
theory Prelude
  imports Main "HOL-Library.Word"
begin

text \<open>
  Shared vocabulary of the development.

  \<^item> Go's fixed-width signed integers are mathematical integers, with the wrap-around of
    \<^verbatim>\<open>int32\<close> and \<^verbatim>\<open>int64\<close> arithmetic written out by \<open>i32\<close> and \<open>i64\<close>.
  \<^item> A computation that may panic returns a value of type \<open>'a outcome\<close>; a Go pair
    \<^verbatim>\<open>(value, error)\<close> is a value of a sum type with the error on the left.
  \<^item> A Go map is a HOL map. Go leaves the order of a \<^verbatim>\<open>range\<close> loop over a map open, so
    every such loop takes the order in which the keys are visited as an argument, and
    \<open>go_range m ks\<close> says that \<open>ks\<close> is a possible order for \<open>m\<close>.
  \<^item> \<open>sort.Slice\<close> sorts but is not stable. The slices the program sorts are filled by
    range loops over maps, so their order is arbitrary beforehand, and the stable
    \<open>sort_key\<close> on an arbitrary initial order reaches every result \<open>sort.Slice\<close> can
    produce: a sorted permutation is itself a possible visiting order, and
    \<open>sort_key\<close> leaves it alone.
\<close>

named_theorems go_simps \<open>evaluation of the small helpers of the model\<close>

section \<open>Fixed-width integers\<close>

definition i32 :: "int \<Rightarrow> int" where
  "i32 x = (x + 2 ^ 31) mod 2 ^ 32 - 2 ^ 31"

definition i64 :: "int \<Rightarrow> int" where
  "i64 x = (x + 2 ^ 63) mod 2 ^ 64 - 2 ^ 63"

definition is_i32 :: "int \<Rightarrow> bool" where
  "is_i32 x \<longleftrightarrow> - (2 ^ 31) \<le> x \<and> x < 2 ^ 31"

definition is_i64 :: "int \<Rightarrow> bool" where
  "is_i64 x \<longleftrightarrow> - (2 ^ 63) \<le> x \<and> x < 2 ^ 63"

lemma is_i32_i32 [simp, intro]: "is_i32 (i32 x)"
  by (simp add: is_i32_def i32_def)

lemma i32_id [simp]: "is_i32 x \<Longrightarrow> i32 x = x"
  by (simp add: is_i32_def i32_def)

lemma is_i64_i64 [simp, intro]: "is_i64 (i64 x)"
  by (simp add: is_i64_def i64_def)

lemma i64_id [simp]: "is_i64 x \<Longrightarrow> i64 x = x"
  by (simp add: is_i64_def i64_def)

section \<open>Panics\<close>

datatype 'a outcome = Ret 'a | Panic string

fun bind_out :: "'a outcome \<Rightarrow> ('a \<Rightarrow> 'b outcome) \<Rightarrow> 'b outcome" where
  "bind_out (Ret a) f = f a"
| "bind_out (Panic m) f = Panic m"

lemma bind_out_Ret_iff: "bind_out x f = Ret b \<longleftrightarrow> (\<exists>a. x = Ret a \<and> f a = Ret b)"
  by (cases x) auto

text \<open>The slice expression \<^verbatim>\<open>xs[a:b]\<close>.\<close>

definition go_slice :: "'a list \<Rightarrow> nat \<Rightarrow> nat \<Rightarrow> 'a list outcome" where
  "go_slice xs a b =
     (if a \<le> b \<and> b \<le> length xs then Ret (take (b - a) (drop a xs))
      else Panic ''slice bounds out of range'')"

section \<open>Maps and range loops\<close>

definition go_range :: "('k \<rightharpoonup> 'v) \<Rightarrow> 'k list \<Rightarrow> bool" where
  "go_range m ks \<longleftrightarrow> distinct ks \<and> set ks = dom m"

lemma go_range_empty [simp]: "go_range Map.empty ks \<longleftrightarrow> ks = []"
  by (auto simp: go_range_def)

lemma go_range_finite: "go_range m ks \<Longrightarrow> finite (dom m)"
  by (metis go_range_def List.finite_set)

lemma go_range_exists: "finite (dom m) \<Longrightarrow> \<exists>ks. go_range m ks"
  using finite_distinct_list [of "dom m"] by (auto simp: go_range_def)

text \<open>The entries of a map in the order of a range loop.\<close>

fun entries :: "('k \<rightharpoonup> 'v) \<Rightarrow> 'k list \<Rightarrow> ('k \<times> 'v) list" where
  "entries m [] = []"
| "entries m (k # ks) =
     (case m k of None \<Rightarrow> entries m ks | Some v \<Rightarrow> (k, v) # entries m ks)"

lemma set_entries: "set (entries m ks) = {(k, v). k \<in> set ks \<and> m k = Some v}"
  by (induction ks) (auto split: option.splits)

lemma set_entries_range: "go_range m ks \<Longrightarrow> set (entries m ks) = {(k, v). m k = Some v}"
  by (auto simp: set_entries go_range_def)

lemma distinct_entries: "distinct ks \<Longrightarrow> distinct (entries m ks)"
  by (induction ks) (auto simp: set_entries split: option.splits)

lemma distinct_fst_entries: "distinct ks \<Longrightarrow> distinct (map fst (entries m ks))"
  by (induction ks) (auto simp: set_entries split: option.splits)

lemma length_entries_range: "go_range m ks \<Longrightarrow> length (entries m ks) = length ks"
proof -
  assume "go_range m ks"
  then have "\<forall>k \<in> set ks. m k \<noteq> None" by (auto simp: go_range_def)
  then show ?thesis by (induction ks) (auto split: option.splits)
qed

section \<open>Cells of a heap\<close>

lemma nth_upd [go_simps]: "xs[i := x] ! j = (if i = j \<and> j < length xs then x else xs ! j)"
  by (cases "i < length xs") (auto simp: nth_list_update list_update_beyond)

section \<open>Decimal numbers\<close>

text \<open>\<^verbatim>\<open>strconv.Itoa\<close>, which is also the verb \<^verbatim>\<open>%d\<close> of \<^verbatim>\<open>fmt.Sprintf\<close>.\<close>

fun digits :: "nat \<Rightarrow> string" where
  "digits n = (if n < 10 then [char_of (48 + n)] else digits (n div 10) @ [char_of (48 + n mod 10)])"

declare digits.simps [simp del]

definition show_int :: "int \<Rightarrow> string" where
  "show_int i = (if i < 0 then ''-'' @ digits (nat (- i)) else digits (nat i))"

text \<open>The other direction: a string of decimal digits, and one with an optional sign. The functions of
  \<^verbatim>\<open>strconv\<close> reject a number out of the range of the wanted width, which the caller adds.\<close>

definition digit_val :: "char \<Rightarrow> nat option" where
  "digit_val c = (if 48 \<le> (of_char c :: nat) \<and> (of_char c :: nat) \<le> 57 then Some (of_char c - 48) else None)"

fun parse_digits :: "nat \<Rightarrow> string \<Rightarrow> nat option" where
  "parse_digits acc [] = Some acc"
| "parse_digits acc (c # cs) = (case digit_val c of None \<Rightarrow> None | Some v \<Rightarrow> parse_digits (10 * acc + v) cs)"

definition parse_nat :: "string \<Rightarrow> nat option" where
  "parse_nat s = (if s = [] then None else parse_digits 0 s)"

definition parse_int :: "string \<Rightarrow> int option" where
  "parse_int s =
     (case s of
        [] \<Rightarrow> None
      | c # cs \<Rightarrow>
          if c = CHR ''+'' then map_option int (parse_nat cs)
          else if c = CHR ''-'' then map_option (\<lambda>n. - int n) (parse_nat cs)
          else map_option int (parse_nat s))"

lemma parse_digits_append:
  "parse_digits acc (xs @ ys) = (case parse_digits acc xs of None \<Rightarrow> None | Some a \<Rightarrow> parse_digits a ys)"
  by (induction acc xs rule: parse_digits.induct) (auto split: option.splits)

lemma digit_val_char: "d < 10 \<Longrightarrow> digit_val (char_of (48 + d)) = Some d"
  by (simp add: digit_val_def of_char_of)

lemma parse_digits_digits: "parse_digits 0 (digits n) = Some n"
proof (induction n rule: less_induct)
  case (less n)
  show ?case
  proof (cases "n < 10")
    case True
    then show ?thesis by (simp add: digits.simps [of n] digit_val_char)
  next
    case False
    then have "parse_digits 0 (digits (n div 10)) = Some (n div 10)" by (intro less) simp
    with False show ?thesis by (simp add: digits.simps [of n] parse_digits_append digit_val_char)
  qed
qed

lemma parse_digits_chars: "parse_digits acc s = Some n \<Longrightarrow> c \<in> set s \<Longrightarrow> digit_val c \<noteq> None"
  by (induction acc s rule: parse_digits.induct) (auto split: option.splits)

lemma digits_chars: "c \<in> set (digits n) \<Longrightarrow> digit_val c \<noteq> None"
  using parse_digits_chars parse_digits_digits by blast

lemma digits_Cons: "\<exists>(d :: nat) cs. digits n = char_of (48 + d) # cs \<and> d < 10"
proof (induction n rule: less_induct)
  case (less n)
  show ?case
  proof (cases "n < 10")
    case True
    then have "digits n = char_of (48 + n) # []" by (simp add: digits.simps [of n])
    with True show ?thesis by blast
  next
    case False
    then obtain d :: nat and cs where "digits (n div 10) = char_of (48 + d) # cs" "d < 10" using less [of "n div 10"] by auto
    then have "digits n = char_of (48 + d) # cs @ [char_of (48 + n mod 10)] \<and> d < 10"
      using False by (simp add: digits.simps [of n])
    then show ?thesis by blast
  qed
qed

lemma parse_nat_digits [simp]: "parse_nat (digits n) = Some n"
  using digits_Cons [of n] by (auto simp: parse_nat_def parse_digits_digits)

lemma parse_show_int [simp]: "parse_int (show_int i) = Some i"
proof (cases "i < 0")
  case True
  then show ?thesis by (simp add: parse_int_def show_int_def)
next
  case False
  obtain d :: nat and cs where d: "digits (nat i) = char_of (48 + d) # cs" "d < 10" using digits_Cons by blast
  have "(of_char (char_of (48 + d)) :: nat) \<noteq> of_char (CHR ''+'')" "(of_char (char_of (48 + d)) :: nat) \<noteq> of_char (CHR ''-'')"
    using d(2) by (simp_all add: of_char_of)
  then have "char_of (48 + d) \<noteq> CHR ''+''" "char_of (48 + d) \<noteq> CHR ''-''" by metis+
  with False d(1) parse_nat_digits [of "nat i"] show ?thesis by (simp add: parse_int_def show_int_def)
qed

end
