(* ===== verification/Messages.thy ===== *)
theory Messages
  imports Prelude
begin

text \<open>
  The protocol buffer messages of \<^verbatim>\<open>proto/api.pb.go\<close> (generated from
  \<^verbatim>\<open>proto/api.proto\<close>), one record per Go struct, with the Go field names behind a prefix
  of the message. A pointer field is an option (\<open>None\<close> is nil), a repeated field a list
  (nil and empty coincide), a proto map field a HOL map. The bookkeeping fields of the
  protobuf runtime (\<^verbatim>\<open>state\<close>, \<^verbatim>\<open>sizeCache\<close>, \<^verbatim>\<open>unknownFields\<close>) are left out.
\<close>

type_synonym payload = string
type_synonym sid = string
type_synonym hub_id = string

record Event =
  ev_Uid :: int
  ev_Seq :: int
  ev_CreateTime :: int
  ev_Payload :: payload
  ev_ReadState :: bool

record WsConf =
  EventTtlDays :: int
  GetEventsLimit :: int
  EnableClientMsg :: bool
  MaxMsgSize :: int

record GetEventsReq =
  FromSeq :: int
  ToSeq :: int

record GetEventsResp =
  Events :: "Event list"

record StatsReq =
  CountUnread :: bool

record StatsResp =
  st_Conf :: "WsConf option"
  st_HeadSeq :: int
  st_UnreadCount :: int

record GetReadStatesReq =
  gr_HeadSeq :: int

record Block =
  blk_Seq :: int
  blk_Len :: int
  blk_Base64 :: string

record GetReadStatesResp =
  Blocks :: "Block list"

record SetReadReq =
  sr_Seq :: int

record SetReadResp =
  srr_Seq :: int
  srr_Changed :: bool

text \<open>End to end messages between users, and from business servers to users.\<close>

record E2EMsg =
  e2e_Type :: string
  e2e_From :: int
  e2e_To :: "int list"
  e2e_Props :: "(string \<times> string) list"
  e2e_Body :: string

record ClientMsg =
  cm_Stats :: "StatsReq option"
  cm_GetEvents :: "GetEventsReq option"
  cm_SetRead :: "SetReadReq option"
  cm_GetReadStates :: "GetReadStatesReq option"
  cm_Im :: "E2EMsg option"

definition empty_ClientMsg :: ClientMsg where
  "empty_ClientMsg = \<lparr>cm_Stats = None, cm_GetEvents = None, cm_SetRead = None,
     cm_GetReadStates = None, cm_Im = None\<rparr>"

record Error =
  err_Code :: int
  err_Params :: "string list"
  err_Req :: "ClientMsg option"

record ServerMsg =
  sm_Error :: "Error option"
  sm_HeadSeq :: int
  sm_Kickoff :: bool
  sm_Stats :: "StatsResp option"
  sm_GetEvents :: "GetEventsResp option"
  sm_GetReadStates :: "GetReadStatesResp option"
  sm_SetRead :: "SetReadResp option"

definition empty_ServerMsg :: ServerMsg where
  "empty_ServerMsg = \<lparr>sm_Error = None, sm_HeadSeq = 0, sm_Kickoff = False, sm_Stats = None,
     sm_GetEvents = None, sm_GetReadStates = None, sm_SetRead = None\<rparr>"

record Session =
  ses_HubId :: hub_id
  ses_Uid :: int
  ses_Sid :: sid
  ses_Ip :: string
  ses_CreateTime :: int
  ses_KickoffTime :: int

record FollowerMsg =
  fm_SessionOnline :: "Session option"
  fm_SessionOffline :: sid
  fm_SyncSessions :: "Session list"
  fm_ServerShutdown :: bool
  fm_E2EMsg :: "E2EMsg option"

definition empty_FollowerMsg :: FollowerMsg where
  "empty_FollowerMsg = \<lparr>fm_SessionOnline = None, fm_SessionOffline = [], fm_SyncSessions = [],
     fm_ServerShutdown = False, fm_E2EMsg = None\<rparr>"

record LeaderMsg =
  lm_HeadSeq :: "int \<rightharpoonup> int"
  lm_Kickoff :: "sid list"
  lm_ServerShutdown :: bool

definition empty_LeaderMsg :: LeaderMsg where
  "empty_LeaderMsg = \<lparr>lm_HeadSeq = Map.empty, lm_Kickoff = [], lm_ServerShutdown = False\<rparr>"

end
