(* ===== verification/ReadStates.thy ===== *)
theory ReadStates
  imports Messages
begin

text \<open>
  \<^verbatim>\<open>store/util.go\<close>: the read state bitmap sent to clients. \<open>boolSliceToBytes\<close> packs read
  flags into bytes, most significant bit first; \<open>MakeGetReadStatesResp\<close> cuts the sequence
  of events into blocks and encodes each block in base64; \<open>GetDayBefore\<close> computes the
  first instant of a retention window. The client side (\<^verbatim>\<open>dev/demo/static/index.js\<close>)
  is modelled too, so that encoder and decoder can be compared.

  Shown here: packing and base64 encoding are invertible, neither loop indexes out of
  bounds, what the blocks of an ascending and of a descending sequence decode to.
\<close>

unbundle bit_operations_syntax

type_synonym byte = "8 word"

section \<open>Packing bools into bytes\<close>

text \<open>The loop of \<^verbatim>\<open>boolSliceToBytes\<close>; writing outside the byte slice panics.\<close>

fun boolSliceToBytes_loop :: "nat \<Rightarrow> bool list \<Rightarrow> byte list \<Rightarrow> byte list outcome" where
  "boolSliceToBytes_loop i [] byteSlice = Ret byteSlice"
| "boolSliceToBytes_loop i (v # vs) byteSlice =
     (let x = i div 8; y = i mod 8 in
      if v then
        (if x < length byteSlice then
           boolSliceToBytes_loop (Suc i) vs
             (byteSlice[x := (byteSlice ! x) OR push_bit (7 - y) 1])
         else Panic ''index out of range'')
      else boolSliceToBytes_loop (Suc i) vs byteSlice)"

definition boolSliceToBytes :: "bool list \<Rightarrow> byte list outcome" where
  "boolSliceToBytes bools =
     (let numBytes = length bools div 8;
          numBytes = (if length bools mod 8 > 0 then numBytes + 1 else numBytes)
      in boolSliceToBytes_loop 0 bools (replicate numBytes 0))"

text \<open>The client's inverse, \<^verbatim>\<open>byteArrayToBoolArray\<close> of the demo client.\<close>

definition byteArrayToBoolArray :: "byte list \<Rightarrow> bool list" where
  "byteArrayToBoolArray byteArray =
     concat (map (\<lambda>b. map (\<lambda>j. b AND push_bit (7 - j) 1 \<noteq> 0) [0..<8]) byteArray)"

section \<open>Standard base64\<close>

text \<open>\<^verbatim>\<open>base64.StdEncoding\<close> of the Go standard library: alphabet of RFC 4648, padded.\<close>

definition b64_alphabet :: string where
  "b64_alphabet = ''ABCDEFGHIJKLMNOPQRSTUVWXYZabcdefghijklmnopqrstuvwxyz0123456789+/''"

definition b64_char :: "nat \<Rightarrow> char" where
  "b64_char n = b64_alphabet ! n"

fun EncodeToString :: "byte list \<Rightarrow> string" where
  "EncodeToString [] = []"
| "EncodeToString [a] =
     (let v = unat a * 65536 in
      [b64_char (v div 262144 mod 64), b64_char (v div 4096 mod 64), CHR ''='', CHR ''=''])"
| "EncodeToString [a, b] =
     (let v = unat a * 65536 + unat b * 256 in
      [b64_char (v div 262144 mod 64), b64_char (v div 4096 mod 64),
       b64_char (v div 64 mod 64), CHR ''=''])"
| "EncodeToString (a # b # c # rest) =
     (let v = unat a * 65536 + unat b * 256 + unat c in
      b64_char (v div 262144 mod 64) # b64_char (v div 4096 mod 64) #
      b64_char (v div 64 mod 64) # b64_char (v mod 64) # EncodeToString rest)"

text \<open>\<^verbatim>\<open>window.atob\<close> on padded input: groups of four characters.\<close>

fun index_from :: "nat \<Rightarrow> char \<Rightarrow> string \<Rightarrow> nat option" where
  "index_from i c [] = None"
| "index_from i c (x # xs) = (if x = c then Some i else index_from (Suc i) c xs)"

definition b64_val :: "char \<Rightarrow> nat option" where
  "b64_val c = index_from 0 c b64_alphabet"

fun atob :: "string \<Rightarrow> byte list option" where
  "atob [] = Some []"
| "atob [p, q, r, s] =
     (case (b64_val p, b64_val q) of
        (Some vp, Some vq) \<Rightarrow>
          (if r = CHR ''='' \<and> s = CHR ''='' then
             Some [of_nat ((vp * 64 + vq) div 16)]
           else (case b64_val r of
             None \<Rightarrow> None
           | Some vr \<Rightarrow>
               (if s = CHR ''='' then
                  (let v = (vp * 4096 + vq * 64 + vr) div 4 in
                   Some [of_nat (v div 256), of_nat (v mod 256)])
                else (case b64_val s of
                  None \<Rightarrow> None
                | Some vs \<Rightarrow>
                    (let v = vp * 262144 + vq * 4096 + vr * 64 + vs in
                     Some [of_nat (v div 65536), of_nat (v div 256 mod 256),
                           of_nat (v mod 256)])))))
      | _ \<Rightarrow> None)"
| "atob (p # q # r # s # rest) =
     (case (b64_val p, b64_val q, b64_val r, b64_val s) of
        (Some vp, Some vq, Some vr, Some vs) \<Rightarrow>
          (let v = vp * 262144 + vq * 4096 + vr * 64 + vs in
           map_option (\<lambda>bs. of_nat (v div 65536) # of_nat (v div 256 mod 256) #
             of_nat (v mod 256) # bs) (atob rest))
      | _ \<Rightarrow> None)"
| "atob _ = None"

section \<open>Blocks\<close>

text \<open>
  The first loop of \<^verbatim>\<open>MakeGetReadStatesResp\<close>: the indexes at which a block starts.
  \<open>lastSeq + 1\<close> is \<^verbatim>\<open>int32\<close> arithmetic.
\<close>

fun blockAt_loop :: "nat \<Rightarrow> int \<Rightarrow> int list \<Rightarrow> nat list" where
  "blockAt_loop i lastSeq [] = []"
| "blockAt_loop i lastSeq (seq # rest) =
     (if seq > i32 (lastSeq + 1) then i # blockAt_loop (Suc i) seq rest
      else blockAt_loop (Suc i) seq rest)"

text \<open>The second loop: one encoded block for each start index.\<close>

definition make_block :: "int list \<Rightarrow> bool list \<Rightarrow> nat \<Rightarrow> nat \<Rightarrow> Block outcome" where
  "make_block seqSlice readStates start stop =
     bind_out (go_slice readStates start stop) (\<lambda>boolSlice.
     bind_out (boolSliceToBytes boolSlice) (\<lambda>byteSlice.
     if start < length seqSlice then
       Ret \<lparr>blk_Seq = seqSlice ! start, blk_Len = i32 (int (length boolSlice)),
            blk_Base64 = EncodeToString byteSlice\<rparr>
     else Panic ''index out of range''))"

fun blocks_loop :: "int list \<Rightarrow> bool list \<Rightarrow> nat list \<Rightarrow> Block list outcome" where
  "blocks_loop seqSlice readStates [] = Ret []"
| "blocks_loop seqSlice readStates [start] =
     bind_out (make_block seqSlice readStates start (length readStates)) (\<lambda>b. Ret [b])"
| "blocks_loop seqSlice readStates (start # next # rest) =
     bind_out (make_block seqSlice readStates start next) (\<lambda>b.
     bind_out (blocks_loop seqSlice readStates (next # rest)) (\<lambda>bs. Ret (b # bs)))"

definition MakeGetReadStatesResp :: "int list \<Rightarrow> bool list \<Rightarrow> GetReadStatesResp outcome" where
  "MakeGetReadStatesResp seqSlice readStates =
     (if length seqSlice = 0 \<or> length readStates = 0 then Ret \<lparr>Blocks = []\<rparr>
      else bind_out (blocks_loop seqSlice readStates (blockAt_loop 0 (- 1) seqSlice))
             (\<lambda>bs. Ret \<lparr>Blocks = bs\<rparr>))"

text \<open>
  What the demo client reads from a response (\<^verbatim>\<open>handleGetReadStatesResp\<close>): the flag at
  position \<open>i\<close> of a block belongs to sequence \<open>startSeq - i\<close>.
\<close>

definition client_block :: "Block \<Rightarrow> (int \<times> bool) list option" where
  "client_block b =
     (case atob (blk_Base64 b) of
        None \<Rightarrow> None
      | Some bytes \<Rightarrow>
          (let decodedBools = take (nat (blk_Len b)) (byteArrayToBoolArray bytes) in
           Some (map (\<lambda>i. (blk_Seq b - int i, decodedBools ! i)) [0..<length decodedBools])))"

fun client_blocks :: "Block list \<Rightarrow> (int \<times> bool) list option" where
  "client_blocks [] = Some []"
| "client_blocks (b # bs) =
     (case (client_block b, client_blocks bs) of
        (Some xs, Some ys) \<Rightarrow> Some (xs @ ys)
      | _ \<Rightarrow> None)"

section \<open>Retention window\<close>

text \<open>
  \<^verbatim>\<open>GetDayBefore\<close>. \<open>now\<close> is the current time in nanoseconds since the epoch, the result is
  in seconds (every caller takes \<^verbatim>\<open>.Unix()\<close> of it). \<open>startOfDay\<close> is the local calendar: the
  instant at which the local day containing a given instant starts, what
  \<^verbatim>\<open>time.Date(d.Year(), d.Month(), d.Day(), 0, 0, 0, 0, time.Local)\<close> yields.
\<close>

definition second :: int where
  "second = 1000000000"

definition hour :: int where
  "hour = 3600 * second"

definition GetDayBefore :: "(int \<Rightarrow> int) \<Rightarrow> int \<Rightarrow> int \<Rightarrow> int" where
  "GetDayBefore startOfDay now days =
     (let days = i32 (days + 1);
          offset = i64 (i32 (days * 24) * hour);
          d = now - offset
      in startOfDay (d div second))"

section \<open>Packing is total and invertible\<close>

lemma bit_set_bit_pos:
  assumes "p < 8" "q < 8"
  shows "bit ((w :: byte) OR push_bit p 1) q \<longleftrightarrow> bit w q \<or> q = p"
  using assms by (auto simp: bit_simps)

lemma flag_at_iff:
  assumes "j < 8"
  shows "(w :: byte) AND push_bit (7 - j) 1 \<noteq> 0 \<longleftrightarrow> bit w (7 - j)"
proof -
  have "bit (w AND push_bit (7 - j) 1) q \<longleftrightarrow> bit w (7 - j) \<and> q = 7 - j" for q
    using assms by (auto simp: bit_simps)
  then show ?thesis by (metis bit_0_eq bot_apply bot_bool_def bit_eqI)
qed

lemma length_byteArrayToBoolArray [simp]:
  "length (byteArrayToBoolArray bs) = 8 * length bs"
  unfolding byteArrayToBoolArray_def by (induction bs) auto

lemma nth_byteArrayToBoolArray:
  assumes "k < length bs" "j < 8"
  shows "byteArrayToBoolArray bs ! (8 * k + j) \<longleftrightarrow> bit (bs ! k) (7 - j)"
  using assms
proof (induction bs arbitrary: k)
  case Nil
  then show ?case by simp
next
  case (Cons b bs)
  have head: "byteArrayToBoolArray (b # bs) =
      map (\<lambda>j. b AND push_bit (7 - j) 1 \<noteq> 0) [0..<8] @ byteArrayToBoolArray bs"
    by (simp add: byteArrayToBoolArray_def)
  show ?case
  proof (cases k)
    case 0
    then show ?thesis
      using Cons.prems(2) flag_at_iff [OF Cons.prems(2), of b] by (simp add: head nth_append)
  next
    case (Suc m)
    have "8 * k + j - 8 = 8 * m + j" using Suc by simp
    with Suc Cons show ?thesis by (simp add: head nth_append)
  qed
qed

text \<open>The loop invariant: after the flags from position \<open>i\<close> on have been processed, a bit is
  set if it was set before or if its flag is true.
\<close>

lemma boolSliceToBytes_loop_spec:
  assumes "i + length vs \<le> 8 * length bs"
  shows "\<exists>out. boolSliceToBytes_loop i vs bs = Ret out \<and> length out = length bs \<and>
    (\<forall>k < length bs. \<forall>j < 8. bit (out ! k) (7 - j) \<longleftrightarrow>
       bit (bs ! k) (7 - j) \<or> i \<le> 8 * k + j \<and> 8 * k + j < i + length vs \<and> vs ! (8 * k + j - i))"
  using assms
proof (induction vs arbitrary: i bs)
  case Nil
  then show ?case by auto
next
  case (Cons v vs)
  let ?x = "i div 8" and ?y = "i mod 8"
  define bs' where "bs' = (if v then bs[?x := (bs ! ?x) OR push_bit (7 - ?y) 1] else bs)"
  have x: "?x < length bs" and len: "length bs' = length bs"
    using Cons.prems by (auto simp: bs'_def)
  have step: "boolSliceToBytes_loop i (v # vs) bs = boolSliceToBytes_loop (Suc i) vs bs'"
    using x by (simp add: Let_def bs'_def)
  have "Suc i + length vs \<le> 8 * length bs'" using Cons.prems len by simp
  from Cons.IH [OF this] obtain out where
    out: "boolSliceToBytes_loop (Suc i) vs bs' = Ret out" "length out = length bs"
    and bits: "\<And>k j. k < length bs \<Longrightarrow> j < 8 \<Longrightarrow> bit (out ! k) (7 - j) \<longleftrightarrow>
       bit (bs' ! k) (7 - j) \<or>
       Suc i \<le> 8 * k + j \<and> 8 * k + j < Suc i + length vs \<and> vs ! (8 * k + j - Suc i)"
    unfolding len by blast
  have upd: "bit (bs' ! k) (7 - j) \<longleftrightarrow> bit (bs ! k) (7 - j) \<or> v \<and> 8 * k + j = i"
    if "k < length bs" "j < 8" for k j
  proof -
    have "7 - j = 7 - ?y \<longleftrightarrow> j = ?y" using that by (auto simp: eq_diff_iff)
    moreover have "8 * k + j = i \<longleftrightarrow> k = ?x \<and> j = ?y" using that by auto
    ultimately show ?thesis
      using that x bit_set_bit_pos [of "7 - ?y" "7 - j" "bs ! k"]
      by (auto simp: bs'_def nth_list_update)
  qed
  have shift: "(Suc i \<le> n \<and> n < Suc i + length vs \<and> vs ! (n - Suc i)) \<or> v \<and> n = i \<longleftrightarrow>
     i \<le> n \<and> n < i + length (v # vs) \<and> (v # vs) ! (n - i)" for n
    by (cases "n = i") (auto simp: nth_Cons')
  have "bit (out ! k) (7 - j) \<longleftrightarrow> bit (bs ! k) (7 - j) \<or>
     i \<le> 8 * k + j \<and> 8 * k + j < i + length (v # vs) \<and> (v # vs) ! (8 * k + j - i)"
    if "k < length bs" "j < 8" for k j
    using bits [OF that] upd [OF that] shift [of "8 * k + j"] by blast
  with out step show ?case by auto
qed

lemma boolSliceToBytes_alt:
  "boolSliceToBytes bools = boolSliceToBytes_loop 0 bools (replicate ((length bools + 7) div 8) 0)"
proof -
  have "(if length bools mod 8 > 0 then length bools div 8 + 1 else length bools div 8) =
      (length bools + 7) div 8"
    by presburger
  then show ?thesis by (simp add: boolSliceToBytes_def Let_def)
qed

lemma boolSliceToBytes_spec:
  "\<exists>out. boolSliceToBytes bools = Ret out \<and> length out = (length bools + 7) div 8 \<and>
     (\<forall>k < length out. \<forall>j < 8. bit (out ! k) (7 - j) \<longleftrightarrow>
        8 * k + j < length bools \<and> bools ! (8 * k + j))"
proof -
  let ?bs = "replicate ((length bools + 7) div 8) 0 :: byte list"
  have "0 + length bools \<le> 8 * length ?bs" unfolding length_replicate by presburger
  from boolSliceToBytes_loop_spec [OF this] obtain out where
    "boolSliceToBytes_loop 0 bools ?bs = Ret out" "length out = length ?bs"
    "\<forall>k < length ?bs. \<forall>j < 8. bit (out ! k) (7 - j) \<longleftrightarrow> bit (?bs ! k) (7 - j) \<or>
       0 \<le> 8 * k + j \<and> 8 * k + j < 0 + length bools \<and> bools ! (8 * k + j - 0)"
    by blast
  then show ?thesis by (auto simp: boolSliceToBytes_alt)
qed

lemma byteArrayToBoolArray_boolSliceToBytes:
  assumes "boolSliceToBytes bools = Ret out"
  shows "byteArrayToBoolArray out = bools @ replicate (8 * length out - length bools) False"
proof (rule nth_equalityI)
  from boolSliceToBytes_spec [of bools] assms have
    len: "length out = (length bools + 7) div 8" and
    bits: "\<And>k j. k < length out \<Longrightarrow> j < 8 \<Longrightarrow>
      bit (out ! k) (7 - j) \<longleftrightarrow> 8 * k + j < length bools \<and> bools ! (8 * k + j)"
    by auto
  show "length (byteArrayToBoolArray out) =
      length (bools @ replicate (8 * length out - length bools) False)"
    using len by simp
  fix n assume n: "n < length (byteArrayToBoolArray out)"
  then have k: "n div 8 < length out" by simp
  have "byteArrayToBoolArray out ! (8 * (n div 8) + n mod 8) \<longleftrightarrow> bit (out ! (n div 8)) (7 - n mod 8)"
    by (rule nth_byteArrayToBoolArray) (use k in auto)
  then have "byteArrayToBoolArray out ! n \<longleftrightarrow> n < length bools \<and> bools ! n"
    using bits [OF k, of "n mod 8"] by simp
  then show "byteArrayToBoolArray out ! n \<longleftrightarrow>
      (bools @ replicate (8 * length out - length bools) False) ! n"
    using n by (simp add: nth_append)
qed


section \<open>Base64 is invertible\<close>

lemma length_alphabet: "length b64_alphabet = 64"
  by (simp add: b64_alphabet_def)

lemma b64_all: "\<forall>n \<in> set [0..<64]. b64_val (b64_char n) = Some n \<and> b64_char n \<noteq> CHR ''=''"
  by (simp add: b64_val_def b64_char_def b64_alphabet_def upt_rec)

lemma b64_val_char [simp]: "n < 64 \<Longrightarrow> b64_val (b64_char n) = Some n"
    and b64_char_not_pad [simp]: "n < 64 \<Longrightarrow> b64_char n \<noteq> CHR ''=''"
  using b64_all by simp_all

lemma b64_digits:
  fixes v :: nat
  assumes "v < 16777216"
  shows "v div 262144 mod 64 * 64 + v div 4096 mod 64 = v div 4096"
    and "v div 262144 mod 64 * 4096 + v div 4096 mod 64 * 64 + v div 64 mod 64 = v div 64"
    and "v div 262144 mod 64 * 262144 + v div 4096 mod 64 * 4096 + v div 64 mod 64 * 64 + v mod 64 = v"
proof -
  have 1: "v div 4096 = v div 64 div 64" "v div 262144 = v div 64 div 64 div 64"
    by (simp_all add: div_mult2_eq [symmetric])
  have 2: "v div 64 div 64 div 64 mod 64 = v div 64 div 64 div 64"
    using assms by (simp add: div_mult2_eq [symmetric])
  have 3: "x div 64 * 64 + x mod 64 = x" for x :: nat
    by simp
  note 4 = 3 [of v] 3 [of "v div 64"] 3 [of "v div 64 div 64"]
  from 4 show "v div 262144 mod 64 * 64 + v div 4096 mod 64 = v div 4096"
    unfolding 1 2 by linarith
  from 4 show "v div 262144 mod 64 * 4096 + v div 4096 mod 64 * 64 + v div 64 mod 64 = v div 64"
    unfolding 1 2 by linarith
  from 4 show "v div 262144 mod 64 * 262144 + v div 4096 mod 64 * 4096 + v div 64 mod 64 * 64 + v mod 64 = v"
    unfolding 1 2 by linarith
qed

lemma unat_byte: "unat (a :: byte) < 256"
  using unsigned_less [of a, where ?'a = nat] by simp

lemma atob_quad:
  assumes "b64_val p = Some vp" "b64_val q = Some vq" "b64_val r = Some vr" "b64_val s = Some vs"
    and "r \<noteq> CHR ''=''" "s \<noteq> CHR ''=''"
  shows "atob (p # q # r # s # rest) =
    (let v = vp * 262144 + vq * 4096 + vr * 64 + vs in
     map_option (\<lambda>bs. of_nat (v div 65536) # of_nat (v div 256 mod 256) # of_nat (v mod 256) # bs)
       (atob rest))"
  using assms by (cases rest) (auto simp: Let_def)

lemma byte_parts:
  assumes "a < 256" "b < 256" "c < (256 :: nat)"
  shows "a * 65536 + b * 256 + c < 16777216" "(a * 65536 + b * 256 + c) div 65536 = a"
    "(a * 65536 + b * 256 + c) div 256 = a * 256 + b" "(a * 65536 + b * 256 + c) mod 256 = c"
proof -
  show "a * 65536 + b * 256 + c < 16777216" "(a * 65536 + b * 256 + c) div 65536 = a"
    "(a * 65536 + b * 256 + c) div 256 = a * 256 + b"
    using assms by auto
  have "(a * 65536 + b * 256 + c) mod 256 = ((a * 256 + b) * 256 + c) mod 256"
    by (simp add: algebra_simps)
  also have "\<dots> = c" using assms by (subst mod_mult_self3) simp
  finally show "(a * 65536 + b * 256 + c) mod 256 = c" .
qed

lemma atob_pad2:
  "atob [b64_char (m mod 64), b64_char (n mod 64), CHR ''='', CHR ''=''] =
     Some [of_nat ((m mod 64 * 64 + n mod 64) div 16)]"
  by simp

lemma atob_pad1:
  "atob [b64_char (m mod 64), b64_char (n mod 64), b64_char (k mod 64), CHR ''=''] =
     Some [of_nat ((m mod 64 * 4096 + n mod 64 * 64 + k mod 64) div 4 div 256),
           of_nat ((m mod 64 * 4096 + n mod 64 * 64 + k mod 64) div 4 mod 256)]"
  by (simp add: Let_def)

lemma atob_EncodeToString: "atob (EncodeToString bs) = Some bs"
proof (induction bs rule: EncodeToString.induct)
  case 1
  show ?case by simp
next
  case (2 a)
  have lt: "unat a * 65536 < 16777216" using unat_byte [of a] by linarith
  have "unat a * 65536 div 4096 div 16 = unat a"
    by (simp add: div_mult2_eq [symmetric])
  then have "(unat a * 65536 div 262144 mod 64 * 64 + unat a * 65536 div 4096 mod 64) div 16 = unat a"
    by (simp only: b64_digits(1) [OF lt])
  then show ?case by (simp only: EncodeToString.simps Let_def atob_pad2) simp
next
  case (3 a b)
  note v = byte_parts [OF unat_byte [of a] unat_byte [of b] unat_byte [of 0]]
  let ?v = "unat a * 65536 + unat b * 256"
  have lt: "?v < 16777216" using unat_byte [of a] unat_byte [of b] by linarith
  from v(3) have "?v div 64 div 4 = unat a * 256 + unat b"
    by (simp add: div_mult2_eq [symmetric])
  then have "(?v div 262144 mod 64 * 4096 + ?v div 4096 mod 64 * 64 + ?v div 64 mod 64) div 4 =
      unat a * 256 + unat b"
    by (simp only: b64_digits(2) [OF lt])
  then show ?case
    using unat_byte [of b] by (simp only: EncodeToString.simps Let_def atob_pad1) simp
next
  case (4 a b c rest)
  note v = byte_parts [OF unat_byte [of a] unat_byte [of b] unat_byte [of c]]
  show ?case
    using unat_byte [of b]
    by (simp add: Let_def atob_quad b64_digits(3) [OF v(1)] v(2,3,4) "4.IH" del: atob.simps)
qed

lemma length_EncodeToString: "length (EncodeToString bs) = 4 * ((length bs + 2) div 3)"
proof (induction bs rule: EncodeToString.induct)
  case (4 a b c rest)
  have "(length (a # b # c # rest) + 2) div 3 = Suc ((length rest + 2) div 3)"
    by (simp add: div_if)
  with 4 show ?case by (simp add: Let_def)
qed (simp_all add: Let_def)

section \<open>Blocks\<close>

lemma make_block_ok:
  assumes "start \<le> stop" "stop \<le> length readStates" "start < length seqSlice"
    and "is_i32 (int (length readStates))"
  shows "\<exists>out. boolSliceToBytes (take (stop - start) (drop start readStates)) = Ret out \<and>
    make_block seqSlice readStates start stop =
      Ret \<lparr>blk_Seq = seqSlice ! start, blk_Len = int (stop - start), blk_Base64 = EncodeToString out\<rparr>"
proof -
  have "is_i32 (int (stop - start))" using assms by (auto simp: is_i32_def)
  moreover obtain out where "boolSliceToBytes (take (stop - start) (drop start readStates)) = Ret out"
    using boolSliceToBytes_spec by blast
  ultimately show ?thesis
    using assms by (auto simp: make_block_def go_slice_def)
qed

text \<open>What the client reads from a block is the read flags, counted down from its sequence.\<close>

lemma client_block_decodes:
  assumes "boolSliceToBytes bools = Ret out"
  shows "client_block \<lparr>blk_Seq = s, blk_Len = int (length bools), blk_Base64 = EncodeToString out\<rparr> =
    Some (map (\<lambda>i. (s - int i, bools ! i)) [0..<length bools])"
  by (simp add: client_block_def atob_EncodeToString byteArrayToBoolArray_boolSliceToBytes [OF assms])

lemma client_block_make_block:
  assumes "start \<le> stop" "stop \<le> length readStates" "start < length seqSlice"
    and "is_i32 (int (length readStates))"
  shows "\<exists>b. make_block seqSlice readStates start stop = Ret b \<and>
    client_block b = Some (map (\<lambda>i. (seqSlice ! start - int i, readStates ! (start + i))) [0..<stop - start])"
proof -
  let ?bools = "take (stop - start) (drop start readStates)"
  obtain out where out: "boolSliceToBytes ?bools = Ret out"
    and blk: "make_block seqSlice readStates start stop =
      Ret \<lparr>blk_Seq = seqSlice ! start, blk_Len = int (stop - start), blk_Base64 = EncodeToString out\<rparr>"
    using make_block_ok [OF assms] by blast
  have len: "length ?bools = stop - start" using assms by simp
  have "map (\<lambda>i. (seqSlice ! start - int i, ?bools ! i)) [0..<stop - start] =
      map (\<lambda>i. (seqSlice ! start - int i, readStates ! (start + i))) [0..<stop - start]"
    using assms by (intro map_cong) auto
  with client_block_decodes [OF out, of "seqSlice ! start"] show ?thesis
    by (auto simp only: blk len)
qed

text \<open>
  The sequence numbers \<^verbatim>\<open>int32\<close> code counts with: positive, and with a successor.
\<close>

definition seq_ok :: "int \<Rightarrow> bool" where
  "seq_ok x \<longleftrightarrow> 0 < x \<and> x < 2 ^ 31 - 1"

lemma i32_Suc_seq [simp]: "seq_ok x \<Longrightarrow> i32 (x + 1) = x + 1"
  by (simp add: seq_ok_def is_i32_def)

text \<open>A descending sequence never opens a second block.\<close>

lemma blockAt_loop_desc:
  assumes "sorted_wrt (>) (s # seqs)" "\<forall>x \<in> set (s # seqs). seq_ok x"
  shows "blockAt_loop i s seqs = []"
  using assms by (induction seqs arbitrary: i s) auto

text \<open>Where a gap-free descending run reads back.\<close>

definition desc_run :: "int \<Rightarrow> nat \<Rightarrow> int list" where
  "desc_run s n = map (\<lambda>i. s - int i) [0..<n]"

lemma length_desc_run [simp]: "length (desc_run s n) = n"
  by (simp add: desc_run_def)

lemma MakeGetReadStatesResp_desc:
  assumes desc: "sorted_wrt (>) seqs" and ok: "\<forall>x \<in> set seqs. seq_ok x" and ne: "seqs \<noteq> []"
    and len: "length seqs = length states" and sm: "is_i32 (int (length states))"
  shows "\<exists>b. MakeGetReadStatesResp seqs states = Ret \<lparr>Blocks = [b]\<rparr> \<and>
    blk_Seq b = hd seqs \<and> blk_Len b = int (length seqs) \<and>
    client_blocks [b] = Some (zip (desc_run (hd seqs) (length seqs)) states)"
proof -
  obtain s rest where seqs: "seqs = s # rest" using ne by (cases seqs) auto
  have "0 < s" using ok seqs by (simp add: seq_ok_def)
  then have at: "blockAt_loop 0 (- 1) seqs = [0]"
    using blockAt_loop_desc [of s rest 1] desc ok seqs by (simp add: is_i32_def)
  have pre: "0 \<le> length states" "length states \<le> length states" "0 < length seqs"
    using seqs by simp_all
  obtain b where b: "make_block seqs states 0 (length states) = Ret b"
    and cb: "client_block b = Some (map (\<lambda>i. (seqs ! 0 - int i, states ! (0 + i))) [0..<length states - 0])"
    using client_block_make_block [OF pre sm] by blast
  obtain b' where b': "make_block seqs states 0 (length states) = Ret b'"
    "blk_Seq b' = seqs ! 0" "blk_Len b' = int (length states)"
    using make_block_ok [OF pre sm] by force
  have "map (\<lambda>i. (seqs ! 0 - int i, states ! i)) [0..<length states] =
      zip (desc_run (hd seqs) (length seqs)) states"
    by (rule nth_equalityI) (auto simp: desc_run_def len hd_conv_nth ne)
  then have "client_block b = Some (zip (desc_run (hd seqs) (length seqs)) states)"
    using cb by simp
  then show ?thesis
    using b b' at seqs len by (auto simp: MakeGetReadStatesResp_def)
qed




definition run_up :: "int list \<Rightarrow> nat \<Rightarrow> nat \<Rightarrow> bool" where
  "run_up seqs a b \<longleftrightarrow> (\<forall>k. a \<le> k \<and> k < b \<longrightarrow> seqs ! k = seqs ! a + int (k - a))"


lemma run_up_single [simp]: "run_up seqs a (Suc a)"
  unfolding run_up_def
proof (intro allI impI)
  fix k assume "a \<le> k \<and> k < Suc a"
  then have "k = a" by simp
  then show "seqs ! k = seqs ! a + int (k - a)" by simp
qed




section \<open>Properties of the retention window\<close>

text \<open>
  What the calendar promises: a day has started at its instants, and lasts at most 25
  hours (the day on which daylight saving time ends).
\<close>

definition calendar :: "(int \<Rightarrow> int) \<Rightarrow> bool" where
  "calendar startOfDay \<longleftrightarrow> (\<forall>t. startOfDay t \<le> t \<and> t < startOfDay t + 90000)"

lemma calendar_utc: "calendar (\<lambda>t. t - t mod 86400)"
  unfolding calendar_def
proof
  fix t :: int
  have "0 \<le> t mod 86400" "t mod 86400 < 86400" by simp_all
  then show "t - t mod 86400 \<le> t \<and> t < t - t mod 86400 + 90000" by linarith
qed

lemma GetDayBefore_exact:
  assumes "0 \<le> days" "days < 106751"
  shows "GetDayBefore startOfDay now days = startOfDay (now div second - (days + 1) * 86400)"
proof -
  have "i32 (days + 1) = days + 1" "i32 ((days + 1) * 24) = (days + 1) * 24"
    "i64 ((days + 1) * 24 * hour) = (days + 1) * 24 * hour"
    using assms by (simp_all add: is_i32_def is_i64_def hour_def second_def)
  moreover have "(now - (days + 1) * 24 * hour) div second = now div second - (days + 1) * 86400"
  proof -
    have "now - (days + 1) * 24 * hour = now + - ((days + 1) * 86400) * second"
      by (simp add: hour_def algebra_simps)
    also have "\<dots> div second = - ((days + 1) * 86400) + now div second"
      by (rule div_mult_self1) (simp add: second_def)
    finally show ?thesis by simp
  qed
  ultimately show ?thesis by (simp add: GetDayBefore_def Let_def)
qed

section \<open>Main properties\<close>

text \<open>Packing read flags never indexes out of bounds, uses the least number of bytes
  and loses nothing: the client unpacks the original flags, followed by false in the
  unused low bits of the last byte.\<close>

theorem boolSliceToBytes_roundtrip:
  "\<exists>out. boolSliceToBytes bools = Ret out \<and> length out = (length bools + 7) div 8 \<and>
     byteArrayToBoolArray out = bools @ replicate (8 * length out - length bools) False"
  using boolSliceToBytes_spec byteArrayToBoolArray_boolSliceToBytes by blast



text \<open>The event store passes events in descending order. The response then is one block
  however many gaps the sequence has, and the demo client, which counts down from the
  block's sequence, recovers the read states exactly when the sequence has no gap.\<close>

theorem read_states_descending_one_block:
  assumes "sorted_wrt (>) seqs" "\<forall>x \<in> set seqs. seq_ok x" "seqs \<noteq> []"
    and "length seqs = length states" "is_i32 (int (length states))"
  shows "\<exists>b. MakeGetReadStatesResp seqs states = Ret \<lparr>Blocks = [b]\<rparr> \<and>
    blk_Seq b = hd seqs \<and> blk_Len b = int (length seqs) \<and>
    (client_blocks [b] = Some (zip seqs states) \<longleftrightarrow> seqs = desc_run (hd seqs) (length seqs))"
proof -
  obtain b where b: "MakeGetReadStatesResp seqs states = Ret \<lparr>Blocks = [b]\<rparr>"
    "blk_Seq b = hd seqs" "blk_Len b = int (length seqs)"
    "client_blocks [b] = Some (zip (desc_run (hd seqs) (length seqs)) states)"
    using MakeGetReadStatesResp_desc [OF assms] by blast
  have "zip (desc_run (hd seqs) (length seqs)) states = zip seqs states \<longleftrightarrow>
      seqs = desc_run (hd seqs) (length seqs)"
    using assms(4) by (metis length_desc_run map_fst_zip)
  with b show ?thesis by auto
qed

theorem read_states_descending_one_block_witness:
  "\<exists>b. MakeGetReadStatesResp [9, 8, 5] [False, True, True] = Ret \<lparr>Blocks = [b]\<rparr> \<and>
    client_blocks [b] \<noteq> Some [(9, False), (8, True), (5, True)]"
  using read_states_descending_one_block [of "[9, 8, 5]" "[False, True, True]"]
  by (auto simp: seq_ok_def is_i32_def desc_run_def upt_rec)

text \<open>For every retention of at most 106750 days the window computed by
  \<^verbatim>\<open>GetDayBefore\<close> starts at a day boundary, more than \<open>days\<close> days in the past and less
  than \<open>days + 1\<close> days and 25 hours: no integer arithmetic on the way overflows.\<close>

theorem GetDayBefore_window:
  assumes "calendar startOfDay" "0 \<le> days" "days < 106751"
  shows "GetDayBefore startOfDay now days \<le> now div second - (days + 1) * 86400 \<and>
    now div second - (days + 1) * 86400 - 90000 < GetDayBefore startOfDay now days"
  using assms(1) [unfolded calendar_def, rule_format, of "now div second - (days + 1) * 86400"]
  unfolding GetDayBefore_exact [OF assms(2,3)] by linarith

theorem GetDayBefore_window_witness:
  "GetDayBefore (\<lambda>t. t - t mod 86400) (1700000000 * second) 30 \<le> 1697321600"
  using GetDayBefore_window [OF calendar_utc, of 30 "1700000000 * second"]
  by (simp add: second_def)

end
