(* ===== verification/EventStore.thy ===== *)
theory EventStore
  imports ReadStates
begin

text \<open>
  \<^verbatim>\<open>store/event.go\<close> and \<^verbatim>\<open>store/api.go\<close>: the event store on top of MySQL.

  The three tables of \<^verbatim>\<open>docs/mysql.sql\<close> are lists of rows, and each SQL statement of
  the source is the function on tables its text denotes, with the primary and foreign keys
  of the schema. What the database server adds is an argument: the record \<open>mysql\<close> holds
  how it stores a time in a \<^verbatim>\<open>DATETIME(3)\<close> column and how it compares such a column
  with the integers the code passes, and the record \<open>env\<close> of a transaction says which
  statements fail (in the order in which they are issued), where a result set breaks off,
  and how the commit ends. A lost commit (\<open>CommitLost\<close>) has taken effect on the server
  although the caller sees an error.

  Shown here: every operation keeps the integrity invariant of the tables, a failed
  transaction leaves the tables alone, \<open>Save\<close> numbers the events of a user without gap and
  is idempotent, and what each query returns.
\<close>

section \<open>Errors and tables\<close>

datatype dberr = ErrNoRows | MySQLError int | Canceled | OtherErr string

record event_row =
  er_offset :: int
  er_create_time :: int
  er_payload :: payload

record user_event_row =
  ur_uid :: int
  ur_seq :: int
  ur_create_time :: int
  ur_read_state :: int
  ur_offset :: int

record db =
  events :: "event_row list"
  user_events :: "user_event_row list"
  user_seq :: "(int \<times> int) list"

text \<open>\<open>store.Event\<close>, the event as read from kafka; \<open>CreateTime\<close> in nanoseconds.\<close>

record store_Event =
  se_Offset :: int
  se_CreateTime :: int
  se_To :: "int list"
  se_Payload :: payload

text \<open>
  The database server: \<open>dt3\<close> is the value a time gets in a \<^verbatim>\<open>DATETIME(3)\<close> column
  (milliseconds since the epoch), \<open>ct_ge\<close> and \<open>ct_le\<close> are \<^verbatim>\<open>create_time >= ?\<close> and
  \<^verbatim>\<open>create_time <= ?\<close> for an integer argument.
\<close>

record mysql =
  dt3 :: "int \<Rightarrow> int"
  ct_ge :: "int \<Rightarrow> int \<Rightarrow> bool"
  ct_le :: "int \<Rightarrow> int \<Rightarrow> bool"

datatype commit_result = CommitOk | CommitErr dberr | CommitLost dberr

datatype row_fault = RowOk | ScanErr dberr | NextStops

record env =
  begin_fault :: "dberr option"
  stmt_faults :: "dberr option list"
  row_faults :: "row_fault list"
  commit_result :: commit_result

definition calm :: env where
  "calm = \<lparr>begin_fault = None, stmt_faults = [], row_faults = [], commit_result = CommitOk\<rparr>"

section \<open>Transactions\<close>

type_synonym 'a tx = "db \<times> dberr option list \<Rightarrow> (dberr + 'a) \<times> (db \<times> dberr option list)"

definition ret_tx :: "'a \<Rightarrow> 'a tx" where
  "ret_tx a = (\<lambda>s. (Inr a, s))"

definition fail_tx :: "dberr \<Rightarrow> 'a tx" where
  "fail_tx e = (\<lambda>s. (Inl e, s))"

definition bind_tx :: "'a tx \<Rightarrow> ('a \<Rightarrow> 'b tx) \<Rightarrow> 'b tx" where
  "bind_tx m f = (\<lambda>s. case m s of (Inl e, s') \<Rightarrow> (Inl e, s') | (Inr a, s') \<Rightarrow> f a s')"

definition catch_tx :: "'a tx \<Rightarrow> (dberr \<Rightarrow> 'a tx) \<Rightarrow> 'a tx" where
  "catch_tx m h = (\<lambda>s. case m s of (Inl e, s') \<Rightarrow> h e s' | (Inr a, s') \<Rightarrow> (Inr a, s'))"

text \<open>One statement: it fails when the environment says so, and otherwise runs on the tables.\<close>

definition stmt :: "(db \<Rightarrow> dberr + 'a \<times> db) \<Rightarrow> 'a tx" where
  "stmt f = (\<lambda>(d, fs).
     case (case fs of [] \<Rightarrow> None | x # _ \<Rightarrow> x) of
       Some e \<Rightarrow> (Inl e, (d, tl fs))
     | None \<Rightarrow> (case f d of
           Inl e \<Rightarrow> (Inl e, (d, tl fs))
         | Inr (a, d') \<Rightarrow> (Inr a, (d', tl fs))))"

text \<open>\<^verbatim>\<open>withTx\<close>: begin, run the closure, roll back on an error and commit otherwise.\<close>

definition withTx :: "env \<Rightarrow> 'a tx \<Rightarrow> db \<Rightarrow> (dberr + 'a) \<times> db" where
  "withTx en exec d =
     (case begin_fault en of
        Some e \<Rightarrow> (Inl e, d)
      | None \<Rightarrow>
          (case exec (d, stmt_faults en) of
             (Inl e, _) \<Rightarrow> (Inl e, d)
           | (Inr a, (d', _)) \<Rightarrow>
               (case commit_result en of
                  CommitOk \<Rightarrow> (Inr a, d')
                | CommitErr e \<Rightarrow> (Inl e, d)
                | CommitLost e \<Rightarrow> (Inl e, d'))))"

section \<open>SQL statements\<close>

definition getEventSQL :: "int \<Rightarrow> db \<Rightarrow> dberr + (int \<times> payload) \<times> db" where
  "getEventSQL offset d =
     (case filter (\<lambda>r. er_offset r = offset) (events d) of
        [] \<Rightarrow> Inl ErrNoRows
      | r # _ \<Rightarrow> Inr ((er_create_time r, er_payload r), d))"

text \<open>A user event joined with its event.\<close>

definition getEventsSQL :: "int \<Rightarrow> int \<Rightarrow> int \<Rightarrow> db \<Rightarrow> (user_event_row \<times> payload) list" where
  "getEventsSQL uid fromSeq toSeq d =
     sort_key (\<lambda>(u, p). - ur_seq u)
       (concat (map (\<lambda>u. map (\<lambda>e. (u, er_payload e))
            (filter (\<lambda>e. er_offset e = ur_offset u) (events d)))
          (filter (\<lambda>u. ur_uid u = uid \<and> ur_seq u \<ge> fromSeq \<and> ur_seq u \<le> toSeq) (user_events d))))"

text \<open>\<^verbatim>\<open>getSeqSQL\<close> and \<^verbatim>\<open>lockSeqSQL\<close>, scanned into an \<^verbatim>\<open>int32\<close>.\<close>

definition getSeqSQL :: "int \<Rightarrow> db \<Rightarrow> dberr + int \<times> db" where
  "getSeqSQL uid d =
     (case map_of (user_seq d) uid of
        None \<Rightarrow> Inl ErrNoRows
      | Some s \<Rightarrow> if is_i32 s then Inr (s, d) else Inl (OtherErr ''value out of range''))"

definition insertSeqSQL :: "int \<Rightarrow> db \<Rightarrow> dberr + unit \<times> db" where
  "insertSeqSQL uid d =
     (if map_of (user_seq d) uid \<noteq> None then Inl (MySQLError 1062)
      else Inr ((), d\<lparr>user_seq := user_seq d @ [(uid, 1)]\<rparr>))"

definition incSeqSQL :: "int \<Rightarrow> int \<Rightarrow> db \<Rightarrow> dberr + unit \<times> db" where
  "incSeqSQL uid seq d =
     Inr ((), d\<lparr>user_seq := map (\<lambda>(u, s). if u = uid \<and> s = seq then (u, s + 1) else (u, s))
                 (user_seq d)\<rparr>)"

definition countUnreadSQL :: "mysql \<Rightarrow> int \<Rightarrow> int \<Rightarrow> db \<Rightarrow> dberr + int \<times> db" where
  "countUnreadSQL my uid t d =
     Inr (int (length (filter (\<lambda>u. ur_uid u = uid \<and> ct_ge my (ur_create_time u) t \<and>
                ur_read_state u = 0) (user_events d))), d)"

definition getReadStatesSQL :: "mysql \<Rightarrow> int \<Rightarrow> int \<Rightarrow> int \<Rightarrow> db \<Rightarrow> user_event_row list" where
  "getReadStatesSQL my uid headSeq t d =
     sort_key (\<lambda>u. - ur_seq u)
       (filter (\<lambda>u. ur_uid u = uid \<and> ur_seq u \<le> headSeq \<and> ct_ge my (ur_create_time u) t)
          (user_events d))"

text \<open>An update returns the number of rows it changed.\<close>

definition setReadSQL :: "int \<Rightarrow> int \<Rightarrow> db \<Rightarrow> dberr + nat \<times> db" where
  "setReadSQL uid seq d =
     (let hit = (\<lambda>u. ur_uid u = uid \<and> ur_seq u = seq \<and> ur_read_state u = 0) in
      Inr (length (filter hit (user_events d)),
           d\<lparr>user_events := map (\<lambda>u. if hit u then u\<lparr>ur_read_state := 1\<rparr> else u) (user_events d)\<rparr>))"

definition insertEventSQL :: "mysql \<Rightarrow> int \<Rightarrow> int \<Rightarrow> payload \<Rightarrow> db \<Rightarrow> dberr + unit \<times> db" where
  "insertEventSQL my offset createTime p d =
     (if offset \<in> er_offset ` set (events d) then Inl (MySQLError 1062)
      else Inr ((), d\<lparr>events := events d @
        [\<lparr>er_offset = offset, er_create_time = dt3 my createTime, er_payload = p\<rparr>]\<rparr>))"

text \<open>The delete cascades to \<^verbatim>\<open>user_events\<close> through its foreign key.\<close>

definition cleanEventsSQL :: "mysql \<Rightarrow> int \<Rightarrow> db \<Rightarrow> dberr + nat \<times> db" where
  "cleanEventsSQL my t d =
     (let old = filter (\<lambda>e. ct_le my (er_create_time e) t) (events d) in
      Inr (length old,
           d\<lparr>events := filter (\<lambda>e. \<not> ct_le my (er_create_time e) t) (events d),
             user_events := filter (\<lambda>u. ur_offset u \<notin> er_offset ` set old) (user_events d)\<rparr>))"

definition insertUserEventSQL ::
    "mysql \<Rightarrow> int \<Rightarrow> int \<Rightarrow> int \<Rightarrow> int \<Rightarrow> db \<Rightarrow> dberr + unit \<times> db" where
  "insertUserEventSQL my uid seq createTime offset d =
     (if (uid, seq) \<in> (\<lambda>u. (ur_uid u, ur_seq u)) ` set (user_events d) then Inl (MySQLError 1062)
      else if offset \<notin> er_offset ` set (events d) then Inl (MySQLError 1452)
      else Inr ((), d\<lparr>user_events := user_events d @
        [\<lparr>ur_uid = uid, ur_seq = seq, ur_create_time = dt3 my createTime, ur_read_state = 0,
          ur_offset = offset\<rparr>]\<rparr>))"

section \<open>The store's operations\<close>

definition IsDupKeyError :: "dberr \<Rightarrow> bool" where
  "IsDupKeyError e = (case e of MySQLError n \<Rightarrow> n = 1062 | _ \<Rightarrow> False)"

definition getSeq :: "int \<Rightarrow> int tx" where
  "getSeq uid = catch_tx (stmt (getSeqSQL uid)) (\<lambda>e. if e = ErrNoRows then ret_tx 0 else fail_tx e)"

definition countUnread :: "mysql \<Rightarrow> (int \<Rightarrow> int) \<Rightarrow> int \<Rightarrow> int \<Rightarrow> int \<Rightarrow> int tx" where
  "countUnread my startOfDay now uid days =
     (let lteCreateTime = GetDayBefore startOfDay now days in
      bind_tx (stmt (countUnreadSQL my uid lteCreateTime)) (\<lambda>n.
        if is_i32 n then ret_tx n else fail_tx (OtherErr ''value out of range'')))"

definition Stats ::
    "mysql \<Rightarrow> (int \<Rightarrow> int) \<Rightarrow> int \<Rightarrow> env \<Rightarrow> int \<Rightarrow> int \<Rightarrow> StatsReq \<Rightarrow> db \<Rightarrow> (dberr + StatsResp) \<times> db" where
  "Stats my startOfDay now en uid days req d =
     withTx en (bind_tx (getSeq uid) (\<lambda>seq.
       if CountUnread req then
         bind_tx (countUnread my startOfDay now uid days) (\<lambda>count.
           ret_tx \<lparr>st_Conf = None, st_HeadSeq = seq, st_UnreadCount = count\<rparr>)
       else ret_tx \<lparr>st_Conf = None, st_HeadSeq = seq, st_UnreadCount = 0\<rparr>)) d"

text \<open>
  A \<^verbatim>\<open>rows.Next\<close> / \<^verbatim>\<open>rows.Scan\<close> loop. \<^verbatim>\<open>Next\<close> also returns false when
  the connection breaks; the code never asks \<^verbatim>\<open>rows.Err()\<close> which of the two happened.
\<close>

fun scan_rows :: "row_fault list \<Rightarrow> ('r \<Rightarrow> 'a) \<Rightarrow> 'r list \<Rightarrow> dberr + 'a list" where
  "scan_rows fs f [] = Inr []"
| "scan_rows fs f (r # rows) =
     (case (case fs of [] \<Rightarrow> RowOk | x # _ \<Rightarrow> x) of
        NextStops \<Rightarrow> Inr []
      | ScanErr e \<Rightarrow> Inl e
      | RowOk \<Rightarrow> (case scan_rows (tl fs) f rows of Inl e \<Rightarrow> Inl e | Inr xs \<Rightarrow> Inr (f r # xs)))"

definition mk_Event :: "int \<Rightarrow> user_event_row \<times> payload \<Rightarrow> Event" where
  "mk_Event uid = (\<lambda>(u, p). \<lparr>ev_Uid = uid, ev_Seq = ur_seq u, ev_CreateTime = ur_create_time u div 1000,
     ev_Payload = p, ev_ReadState = (ur_read_state u \<noteq> 0)\<rparr>)"

definition GetEvents :: "env \<Rightarrow> int \<Rightarrow> GetEventsReq \<Rightarrow> db \<Rightarrow> (dberr + GetEventsResp) \<times> db" where
  "GetEvents en uid req d =
     withTx en (bind_tx (stmt (\<lambda>d. Inr (getEventsSQL uid (FromSeq req) (ToSeq req) d, d))) (\<lambda>rows.
       case scan_rows (row_faults en) (mk_Event uid) rows of
         Inl e \<Rightarrow> fail_tx e
       | Inr evs \<Rightarrow> ret_tx \<lparr>Events = evs\<rparr>)) d"

definition GetReadStates ::
    "mysql \<Rightarrow> (int \<Rightarrow> int) \<Rightarrow> int \<Rightarrow> env \<Rightarrow> int \<Rightarrow> int \<Rightarrow> GetReadStatesReq \<Rightarrow> db \<Rightarrow>
     (dberr + GetReadStatesResp) outcome \<times> db" where
  "GetReadStates my startOfDay now en uid days req d =
     (let lteCreateTime = GetDayBefore startOfDay now days in
      case withTx en (bind_tx (stmt (\<lambda>d. Inr (getReadStatesSQL my uid (gr_HeadSeq req) lteCreateTime d, d)))
             (\<lambda>rows. case scan_rows (row_faults en) (\<lambda>u. (ur_seq u, ur_read_state u > 0)) rows of
                Inl e \<Rightarrow> fail_tx e
              | Inr xs \<Rightarrow> ret_tx xs)) d of
        (Inl e, d') \<Rightarrow> (Ret (Inl e), d')
      | (Inr xs, d') \<Rightarrow>
          (bind_out (MakeGetReadStatesResp (map fst xs) (map snd xs)) (\<lambda>r. Ret (Inr r)), d'))"

text \<open>\<^verbatim>\<open>res.RowsAffected()\<close>, which may fail; \<^verbatim>\<open>SetRead\<close> ignores that and reads 0.\<close>

definition rowsAffected :: "nat \<Rightarrow> nat tx" where
  "rowsAffected n = stmt (\<lambda>d. Inr (n, d))"

definition SetRead :: "env \<Rightarrow> int \<Rightarrow> int \<Rightarrow> db \<Rightarrow> (dberr + SetReadResp) \<times> db" where
  "SetRead en uid seq d =
     withTx en (bind_tx (stmt (setReadSQL uid seq)) (\<lambda>res.
       bind_tx (catch_tx (rowsAffected res) (\<lambda>_. ret_tx 0)) (\<lambda>n.
       ret_tx \<lparr>srr_Seq = seq, srr_Changed = (n = 1)\<rparr>))) d"

text \<open>\<^verbatim>\<open>incSeq\<close>: take the next sequence number of a user inside a transaction.\<close>

definition incSeq :: "int \<Rightarrow> int tx" where
  "incSeq uid =
     bind_tx (catch_tx (stmt (getSeqSQL uid)) (\<lambda>e. if e \<noteq> ErrNoRows then fail_tx e else ret_tx 0)) (\<lambda>seq.
     bind_tx (if seq = 0 then
                catch_tx (bind_tx (stmt (insertSeqSQL uid)) (\<lambda>_. ret_tx seq))
                  (\<lambda>e. if IsDupKeyError e then stmt (getSeqSQL uid) else fail_tx e)
              else ret_tx seq) (\<lambda>seq.
     bind_tx (stmt (incSeqSQL uid seq)) (\<lambda>_.
     ret_tx (i32 (seq + 1)))))"

text \<open>The loop of \<^verbatim>\<open>Save\<close> over the recipients.\<close>

fun save_loop :: "mysql \<Rightarrow> store_Event \<Rightarrow> int list \<Rightarrow> (int \<rightharpoonup> int) \<Rightarrow> (int \<rightharpoonup> int) tx" where
  "save_loop my e [] seqMap = ret_tx seqMap"
| "save_loop my e (uid # rest) seqMap =
     bind_tx (incSeq uid) (\<lambda>seq.
     bind_tx (stmt (insertUserEventSQL my uid seq (se_CreateTime e) (se_Offset e))) (\<lambda>_.
     save_loop my e rest (seqMap(uid \<mapsto> seq))))"

text \<open>Go's integer division truncates toward zero.\<close>

definition go_div :: "int \<Rightarrow> int \<Rightarrow> int" where
  "go_div a b = sgn a * sgn b * (\<bar>a\<bar> div \<bar>b\<bar>)"

text \<open>
  The transaction of \<^verbatim>\<open>Save\<close>; \<open>save_insert\<close> inserts the event and says whether it is
  a new one. When the event is there already, its stored time and payload
  decide: equal ones end the transaction well with an empty map, different ones (or a
  failure to read them) end it with the original error. A stored time is in milliseconds,
  its \<^verbatim>\<open>UnixNano()\<close> a multiple of a million. The prepared statement costs one round trip.
\<close>

definition save_dup :: "store_Event \<Rightarrow> dberr \<Rightarrow> bool tx" where
  "save_dup e err =
     bind_tx (catch_tx (bind_tx (stmt (getEventSQL (se_Offset e))) (\<lambda>x. ret_tx (Some x)))
                (\<lambda>_. ret_tx None))
       (\<lambda>row. case row of
          Some (createTime, p) \<Rightarrow>
            if go_div (createTime * 1000000) 1000000 = go_div (se_CreateTime e) 1000000 \<and>
               p = se_Payload e
            then ret_tx False else fail_tx err
        | None \<Rightarrow> fail_tx err)"

definition save_insert :: "mysql \<Rightarrow> store_Event \<Rightarrow> bool tx" where
  "save_insert my e =
     catch_tx
       (bind_tx (stmt (insertEventSQL my (se_Offset e) (se_CreateTime e) (se_Payload e)))
         (\<lambda>_. ret_tx True))
       (\<lambda>err. if IsDupKeyError err then save_dup e err else fail_tx err)"

definition save_exec :: "mysql \<Rightarrow> store_Event \<Rightarrow> (int \<rightharpoonup> int) tx" where
  "save_exec my e =
     bind_tx (save_insert my e) (\<lambda>fresh.
       if fresh then
         bind_tx (stmt (\<lambda>d. Inr ((), d))) (\<lambda>_. save_loop my e (se_To e) Map.empty)
       else ret_tx Map.empty)"

definition Save :: "mysql \<Rightarrow> env \<Rightarrow> store_Event \<Rightarrow> db \<Rightarrow> (dberr + (int \<rightharpoonup> int)) \<times> db" where
  "Save my en e d = withTx en (save_exec my e) d"

definition DeleteOutdatedEvents ::
    "mysql \<Rightarrow> (int \<Rightarrow> int) \<Rightarrow> int \<Rightarrow> env \<Rightarrow> int \<Rightarrow> db \<Rightarrow> (dberr + int) \<times> db" where
  "DeleteOutdatedEvents my startOfDay now en ttlDays d =
     (let lteCreateTime = GetDayBefore startOfDay now ttlDays in
      withTx en (bind_tx (stmt (cleanEventsSQL my lteCreateTime)) (\<lambda>res.
        bind_tx (rowsAffected res) (\<lambda>n. ret_tx (i32 (int n))))) d)"

section \<open>Reasoning about transactions\<close>

named_theorems tx_simps \<open>inversion of successful transaction steps\<close>

lemma ret_tx_iff [tx_simps]: "ret_tx a s = (Inr b, s') \<longleftrightarrow> b = a \<and> s' = s"
  by (auto simp: ret_tx_def)

lemma fail_tx_iff [tx_simps]: "fail_tx e s = (Inr b, s') \<longleftrightarrow> False"
  by (simp add: fail_tx_def)

lemma bind_tx_iff [tx_simps]:
  "bind_tx m f s = (Inr b, s') \<longleftrightarrow> (\<exists>a s1. m s = (Inr a, s1) \<and> f a s1 = (Inr b, s'))"
  by (auto simp: bind_tx_def split: prod.splits sum.splits)

lemma catch_tx_iff [tx_simps]:
  "catch_tx m h s = (Inr b, s') \<longleftrightarrow>
     m s = (Inr b, s') \<or> (\<exists>e s1. m s = (Inl e, s1) \<and> h e s1 = (Inr b, s'))"
  by (auto simp: catch_tx_def split: prod.splits sum.splits)

definition no_fault :: "dberr option list \<Rightarrow> bool" where
  "no_fault fs \<longleftrightarrow> (case fs of [] \<Rightarrow> True | x # _ \<Rightarrow> x = None)"

lemma stmt_Inr_iff [tx_simps]:
  "stmt f s = (Inr a, s') \<longleftrightarrow>
     no_fault (snd s) \<and> (\<exists>d'. f (fst s) = Inr (a, d') \<and> s' = (d', tl (snd s)))"
  by (cases s) (auto simp: stmt_def no_fault_def split: list.splits option.splits sum.splits)

lemma stmt_Inl_db: "stmt f s = (Inl e, s') \<Longrightarrow> s' = (fst s, tl (snd s))"
  by (cases s) (auto simp: stmt_def split: list.splits option.splits sum.splits)

lemma withTx_iff:
  "withTx en exec d = (Inr a, d') \<longleftrightarrow>
     begin_fault en = None \<and> commit_result en = CommitOk \<and>
     (\<exists>fs. exec (d, stmt_faults en) = (Inr a, (d', fs)))"
  by (auto simp: withTx_def split: option.splits prod.splits sum.splits commit_result.splits)

text \<open>Whatever goes wrong, the tables are those before the transaction, or those the closure
  reached at its regular end.
\<close>

lemma withTx_cases:
  assumes "withTx en exec d = (r, d')"
  shows "d' = d \<or> (\<exists>a fs. exec (d, stmt_faults en) = (Inr a, (d', fs)))"
  using assms
  by (auto simp: withTx_def split: option.splits prod.splits sum.splits commit_result.splits)


section \<open>Integrity of the tables\<close>

definition headSeq :: "db \<Rightarrow> int \<Rightarrow> int" where
  "headSeq d uid = (case map_of (user_seq d) uid of None \<Rightarrow> 0 | Some s \<Rightarrow> s)"

abbreviation ue_key :: "user_event_row \<Rightarrow> int \<times> int" where
  "ue_key u \<equiv> (ur_uid u, ur_seq u)"

definition db_inv :: "db \<Rightarrow> bool" where
  "db_inv d \<longleftrightarrow>
     distinct (map er_offset (events d)) \<and>
     distinct (map ue_key (user_events d)) \<and>
     distinct (map fst (user_seq d)) \<and>
     (\<forall>s \<in> snd ` set (user_seq d). 1 \<le> s) \<and>
     (\<forall>u \<in> set (user_events d). ur_offset u \<in> er_offset ` set (events d) \<and>
        1 \<le> ur_seq u \<and> ur_seq u \<le> headSeq d (ur_uid u) \<and> ur_read_state u \<in> {0, 1})"

definition empty_db :: db where
  "empty_db = \<lparr>events = [], user_events = [], user_seq = []\<rparr>"

lemma db_inv_empty: "db_inv empty_db"
  by (simp add: db_inv_def empty_db_def)

lemma headSeq_pos: "db_inv d \<Longrightarrow> map_of (user_seq d) uid = Some s \<Longrightarrow> 1 \<le> s"
  by (force simp: db_inv_def dest: map_of_SomeD)

subsection \<open>Sequence numbers\<close>

lemma map_of_snoc: "map_of xs k = None \<Longrightarrow> map_of (xs @ [(k, v)]) = (map_of xs)(k \<mapsto> v)"
  by (induction xs) (auto simp: fun_eq_iff split: if_splits)

lemma distinct_fst_snoc:
  "distinct (map fst xs) \<Longrightarrow> map_of xs k = None \<Longrightarrow> distinct (map fst (xs @ [(k, v)]))"
  by (auto simp: map_of_eq_None_iff)

lemma map_of_bump:
  assumes "distinct (map fst xs)"
  shows "map_of (map (\<lambda>(u, s). if u = uid \<and> s = q then (u, s + 1) else (u, s)) xs) =
    (if map_of xs uid = Some q then (map_of xs)(uid \<mapsto> q + (1 :: int)) else map_of xs)"
  using assms
proof (induction xs)
  case (Cons x xs)
  obtain u s where x: "x = (u, s)" by force
  have "map_of xs u = None" using Cons.prems x by (simp add: map_of_eq_None_iff)
  with Cons show ?case by (auto simp: x fun_eq_iff)
qed simp

lemma fst_bump: "map fst (map (\<lambda>(u, s). if u = uid \<and> s = q then (u, s + 1) else (u, s)) xs) = map fst xs"
  by (induction xs) auto

text \<open>The two halves of \<^verbatim>\<open>incSeq\<close>: make sure the user has a row, then advance it.\<close>

definition seq_row :: "int \<Rightarrow> int tx" where
  "seq_row uid =
     bind_tx (catch_tx (stmt (getSeqSQL uid)) (\<lambda>e. if e \<noteq> ErrNoRows then fail_tx e else ret_tx 0)) (\<lambda>seq.
     if seq = 0 then
       catch_tx (bind_tx (stmt (insertSeqSQL uid)) (\<lambda>_. ret_tx seq))
         (\<lambda>e. if IsDupKeyError e then stmt (getSeqSQL uid) else fail_tx e)
     else ret_tx seq)"

lemma bind_tx_assoc: "bind_tx (bind_tx m f) g = bind_tx m (\<lambda>a. bind_tx (f a) g)"
  by (auto simp: bind_tx_def fun_eq_iff split: prod.splits sum.splits)

lemma incSeq_alt:
  "incSeq uid = bind_tx (seq_row uid) (\<lambda>seq. bind_tx (stmt (incSeqSQL uid seq)) (\<lambda>_. ret_tx (i32 (seq + 1))))"
  by (simp add: incSeq_def seq_row_def bind_tx_assoc if_distrib cong: if_cong)

lemma getSeqSQL_Inr: "getSeqSQL uid d = Inr (q, d') \<longleftrightarrow> d' = d \<and> map_of (user_seq d) uid = Some q \<and> is_i32 q"
  by (auto simp: getSeqSQL_def split: option.splits if_splits)

lemma insert_row_error:
  assumes "bind_tx (stmt (insertSeqSQL uid)) (\<lambda>_. ret_tx seq) s = (Inl e, s')"
  shows "fst s' = fst s"
  using assms stmt_Inl_db [of "insertSeqSQL uid" s]
  by (auto simp: bind_tx_def ret_tx_def split: prod.splits sum.splits)

lemma seq_row_success:
  assumes "seq_row uid (d, fs) = (Inr q, (d', fs'))" "\<forall>s \<in> snd ` set (user_seq d). 1 \<le> s"
  shows "(map_of (user_seq d) uid = Some q \<and> is_i32 q \<and> d' = d) \<or>
    (map_of (user_seq d) uid = None \<and> q = 0 \<and> d' = d\<lparr>user_seq := user_seq d @ [(uid, 1)]\<rparr>)"
proof -
  from assms(1) obtain q0 d1 fs1 where
    1: "catch_tx (stmt (getSeqSQL uid)) (\<lambda>e. if e \<noteq> ErrNoRows then fail_tx e else ret_tx 0) (d, fs) =
        (Inr q0, (d1, fs1))" and
    2: "(if q0 = 0 then
           catch_tx (bind_tx (stmt (insertSeqSQL uid)) (\<lambda>_. ret_tx q0))
             (\<lambda>e. if IsDupKeyError e then stmt (getSeqSQL uid) else fail_tx e)
         else ret_tx q0) (d1, fs1) = (Inr q, (d', fs'))"
    unfolding seq_row_def bind_tx_iff by auto
  have d1: "d1 = d" and q0: "q0 \<noteq> 0 \<Longrightarrow> map_of (user_seq d) uid = Some q0 \<and> is_i32 q0"
    using 1 by (auto simp: tx_simps getSeqSQL_Inr split: if_splits dest: stmt_Inl_db)
  show ?thesis
  proof (cases "q0 = 0")
    case False
    with 2 q0 d1 show ?thesis by (simp add: tx_simps)
  next
    case True
    with 2 consider
      (new) "bind_tx (stmt (insertSeqSQL uid)) (\<lambda>_. ret_tx 0) (d1, fs1) = (Inr q, (d', fs'))"
    | (dup) e s1 where "bind_tx (stmt (insertSeqSQL uid)) (\<lambda>_. ret_tx (0 :: int)) (d1, fs1) = (Inl e, s1)"
        "stmt (getSeqSQL uid) s1 = (Inr q, (d', fs'))"
      by (auto simp: catch_tx_iff fail_tx_iff split: if_splits)
    then show ?thesis
    proof cases
      case new
      then show ?thesis by (auto simp: tx_simps insertSeqSQL_def d1 split: if_splits)
    next
      case dup
      with insert_row_error [OF dup(1)] show ?thesis by (auto simp: tx_simps getSeqSQL_Inr d1)
    qed
  qed
qed

text \<open>A successful \<^verbatim>\<open>incSeq\<close> returns the successor of the user's head sequence and makes it the
  new head, whichever of its statements found or created the row.
\<close>

lemma incSeq_success:
  assumes run: "incSeq uid (d, fs) = (Inr seq, (d', fs'))"
    and inv: "distinct (map fst (user_seq d))" "\<forall>s \<in> snd ` set (user_seq d). 1 \<le> s"
    and small: "headSeq d uid + 1 < 2 ^ 31"
  shows "seq = headSeq d uid + 1 \<and> events d' = events d \<and> user_events d' = user_events d \<and>
    map_of (user_seq d') = (map_of (user_seq d))(uid \<mapsto> seq) \<and> distinct (map fst (user_seq d'))"
proof -
  from run obtain q d1 fs1 where row: "seq_row uid (d, fs) = (Inr q, (d1, fs1))"
    and upd: "incSeqSQL uid q d1 = Inr ((), d')" and seq: "seq = i32 (q + 1)"
    unfolding incSeq_alt by (auto simp: tx_simps)
  from seq_row_success [OF row inv(2)] show ?thesis
  proof
    assume found: "map_of (user_seq d) uid = Some q \<and> is_i32 q \<and> d1 = d"
    then have "headSeq d uid = q" by (simp add: headSeq_def)
    moreover from this have "i32 (q + 1) = q + 1"
      using small found by (simp add: is_i32_def)
    ultimately show ?thesis
      using upd found seq inv(1) by (auto simp: incSeqSQL_def map_of_bump fst_bump simp del: map_map)
  next
    assume new: "map_of (user_seq d) uid = None \<and> q = 0 \<and> d1 = d\<lparr>user_seq := user_seq d @ [(uid, 1)]\<rparr>"
    then have d1: "distinct (map fst (user_seq d1))" "map_of (user_seq d1) = (map_of (user_seq d))(uid \<mapsto> 1)"
      using inv(1) by (simp_all add: map_of_snoc distinct_fst_snoc del: map_append map_of_append)
    moreover have "i32 1 = 1" by (simp add: is_i32_def)
    ultimately show ?thesis
      using upd new seq by (auto simp: incSeqSQL_def map_of_bump fst_bump headSeq_def simp del: map_map)
  qed
qed

subsection \<open>Saving an event\<close>

text \<open>
  The abstract numbering: the recipients of an event, one after the other, get the next
  number of their own counter.
\<close>

fun number :: "(int \<Rightarrow> int) \<Rightarrow> int list \<Rightarrow> (int \<times> int) list" where
  "number h [] = []"
| "number h (u # us) = (u, h u + 1) # number (h(u := h u + 1)) us"

definition new_row :: "mysql \<Rightarrow> store_Event \<Rightarrow> int \<times> int \<Rightarrow> user_event_row" where
  "new_row my e = (\<lambda>(u, q). \<lparr>ur_uid = u, ur_seq = q, ur_create_time = dt3 my (se_CreateTime e),
     ur_read_state = 0, ur_offset = se_Offset e\<rparr>)"

lemma deliver_one:
  assumes inc: "incSeq uid (d, fs) = (Inr seq, (d1, fs1))"
    and ins: "insertUserEventSQL my uid seq (se_CreateTime e) (se_Offset e) d1 = Inr ((), d2)"
    and inv: "db_inv d" and small: "headSeq d uid + 1 < 2 ^ 31"
  shows "db_inv d2 \<and> seq = headSeq d uid + 1 \<and> events d2 = events d \<and>
    user_events d2 = user_events d @ [new_row my e (uid, headSeq d uid + 1)] \<and>
    headSeq d2 = (headSeq d)(uid := headSeq d uid + 1)"
proof -
  have inv': "distinct (map fst (user_seq d))" "\<forall>s \<in> snd ` set (user_seq d). 1 \<le> s"
    using inv by (simp_all add: db_inv_def)
  note inc' = incSeq_success [OF inc inv' small]
  from ins have d2: "d2 = d1\<lparr>user_events := user_events d1 @ [new_row my e (uid, seq)]\<rparr>"
    and fk: "se_Offset e \<in> er_offset ` set (events d1)"
    and pk: "(uid, seq) \<notin> ue_key ` set (user_events d1)"
    by (auto simp: insertUserEventSQL_def new_row_def split: if_splits)
  have head: "headSeq d2 = (headSeq d)(uid := headSeq d uid + 1)"
    using inc' by (auto simp: headSeq_def d2 fun_eq_iff)
  have "0 \<le> headSeq d uid"
    using headSeq_pos [OF inv] by (force simp: headSeq_def split: option.splits)
  moreover have "\<forall>s \<in> snd ` set (user_seq d1). 1 \<le> s"
  proof
    fix s assume "s \<in> snd ` set (user_seq d1)"
    then obtain u where "(u, s) \<in> set (user_seq d1)" by auto
    then have "map_of (user_seq d1) u = Some s"
      using inc' by (blast intro: map_of_is_SomeI)
    then show "1 \<le> s"
      using inc' headSeq_pos [OF inv] \<open>0 \<le> headSeq d uid\<close> by (auto split: if_splits)
  qed
  ultimately have "db_inv d2"
    using inv inc' fk pk head by (auto simp: db_inv_def d2 new_row_def fun_upd_apply)
  then show ?thesis using inc' head d2 by simp
qed

lemma save_loop_success:
  assumes "save_loop my e to m (d, fs) = (Inr m', (d', fs'))" "db_inv d"
    and "\<forall>u. headSeq d u + int (count_list to u) < 2 ^ 31"
  shows "db_inv d' \<and> events d' = events d \<and>
    user_events d' = user_events d @ map (new_row my e) (number (headSeq d) to) \<and>
    headSeq d' = (\<lambda>u. headSeq d u + int (count_list to u)) \<and>
    m' = (\<lambda>u. if u \<in> set to then Some (headSeq d u + int (count_list to u)) else m u)"
  using assms
proof (induction to arbitrary: d fs m)
  case Nil
  then show ?case by (simp add: tx_simps)
next
  case (Cons uid to)
  from Cons.prems(1) obtain seq d1 fs1 d2 fs2 where
    1: "incSeq uid (d, fs) = (Inr seq, (d1, fs1))" and
    2: "insertUserEventSQL my uid seq (se_CreateTime e) (se_Offset e) d1 = Inr ((), d2)" and
    3: "save_loop my e to (m(uid \<mapsto> seq)) (d2, fs2) = (Inr m', (d', fs'))"
    by (auto simp: tx_simps)
  have small: "headSeq d uid + 1 < 2 ^ 31"
    using Cons.prems(3) [rule_format, of uid] by simp
  note one = deliver_one [OF 1 2 Cons.prems(2) small]
  have small': "\<forall>u. headSeq d2 u + int (count_list to u) < 2 ^ 31"
  proof
    fix u
    show "headSeq d2 u + int (count_list to u) < 2 ^ 31"
      using Cons.prems(3) [rule_format, of u] one by (cases "u = uid") auto
  qed
  have "db_inv d2" using one by blast
  note IH = Cons.IH [OF 3 this small']
  have "count_list to u = 0" if "u \<notin> set to" for u
    using that by (simp add: count_list_0_iff)
  then have "m' = (\<lambda>u. if u \<in> set (uid # to) then Some (headSeq d u + int (count_list (uid # to) u)) else m u)"
    and "headSeq d' = (\<lambda>u. headSeq d u + int (count_list (uid # to) u))"
    using IH one by (auto simp: fun_eq_iff)
  moreover have "user_events d' = user_events d @ map (new_row my e) (number (headSeq d) (uid # to))"
  proof -
    have "user_events d' = user_events d2 @ map (new_row my e) (number (headSeq d2) to)"
      and d2: "user_events d2 = user_events d @ [new_row my e (uid, headSeq d uid + 1)]"
        "headSeq d2 = (headSeq d)(uid := headSeq d uid + 1)"
      using IH one by blast+
    then show ?thesis by (simp only: d2 number.simps list.map append_assoc append.simps)
  qed
  moreover have "db_inv d' \<and> events d' = events d" using IH one by simp
  ultimately show ?case by blast
qed

lemma getEventSQL_Inr:
  "getEventSQL offset d = Inr (x, d') \<Longrightarrow> d' = d \<and> offset \<in> er_offset ` set (events d)"
  by (auto simp: getEventSQL_def filter_eq_Cons_iff split: list.splits)

lemma save_dup_success:
  assumes "save_dup e err s = (Inr fresh, s')"
  shows "\<not> fresh \<and> fst s' = fst s \<and> se_Offset e \<in> er_offset ` set (events (fst s))"
proof -
  from assms obtain x where
    "catch_tx (bind_tx (stmt (getEventSQL (se_Offset e))) (\<lambda>x. ret_tx (Some x))) (\<lambda>_. ret_tx None) s =
      (Inr (Some x), s')" "\<not> fresh"
    unfolding save_dup_def bind_tx_iff [of "catch_tx _ _"]
    by (auto simp: fail_tx_iff ret_tx_iff split: option.splits if_splits)
  then show ?thesis by (auto simp: tx_simps dest: getEventSQL_Inr)
qed

text \<open>A successful \<open>save_insert\<close>: a new row, or the same event found again.\<close>

lemma save_insert_success:
  assumes "save_insert my e (d, fs) = (Inr fresh, (d', fs'))"
  shows "(fresh \<and> se_Offset e \<notin> er_offset ` set (events d) \<and>
      d' = d\<lparr>events := events d @ [\<lparr>er_offset = se_Offset e, er_create_time = dt3 my (se_CreateTime e),
        er_payload = se_Payload e\<rparr>]\<rparr>) \<or>
    (\<not> fresh \<and> d' = d \<and> se_Offset e \<in> er_offset ` set (events d))"
proof -
  let ?ins = "bind_tx (stmt (insertEventSQL my (se_Offset e) (se_CreateTime e) (se_Payload e))) (\<lambda>_. ret_tx True)"
  from assms consider
    (new) "?ins (d, fs) = (Inr fresh, (d', fs'))"
  | (err) er s1 where "?ins (d, fs) = (Inl er, s1)" "save_dup e er s1 = (Inr fresh, (d', fs'))"
    unfolding save_insert_def catch_tx_iff [of ?ins]
    by (fastforce simp: fail_tx_iff split: if_splits)
  then show ?thesis
  proof cases
    case new
    then show ?thesis by (auto simp: tx_simps insertEventSQL_def split: if_splits)
  next
    case err
    from err(1) have "fst s1 = d"
      by (auto simp: bind_tx_def ret_tx_def split: prod.splits sum.splits dest: stmt_Inl_db)
    with save_dup_success [OF err(2)] show ?thesis by auto
  qed
qed

lemma db_inv_add_event:
  assumes "db_inv d" "er_offset r \<notin> er_offset ` set (events d)"
  shows "db_inv (d\<lparr>events := events d @ [r]\<rparr>)"
  using assms by (auto simp: db_inv_def headSeq_def)

lemma headSeq_events [simp]: "headSeq (d\<lparr>events := es\<rparr>) = headSeq d"
  by (simp add: headSeq_def fun_eq_iff)

text \<open>What a successful transaction of \<^verbatim>\<open>Save\<close> does to the tables.\<close>

definition save_spec :: "mysql \<Rightarrow> store_Event \<Rightarrow> db \<Rightarrow> (int \<rightharpoonup> int) \<Rightarrow> db \<Rightarrow> bool" where
  "save_spec my e d m d' \<longleftrightarrow>
     events d' = events d @ [\<lparr>er_offset = se_Offset e, er_create_time = dt3 my (se_CreateTime e),
       er_payload = se_Payload e\<rparr>] \<and>
     user_events d' = user_events d @ map (new_row my e) (number (headSeq d) (se_To e)) \<and>
     headSeq d' = (\<lambda>u. headSeq d u + int (count_list (se_To e) u)) \<and>
     m = (\<lambda>u. if u \<in> set (se_To e) then Some (headSeq d' u) else None)"

lemma save_exec_success:
  assumes "save_exec my e (d, fs) = (Inr m, (d', fs'))" "db_inv d"
    and "\<forall>u. headSeq d u + int (count_list (se_To e) u) < 2 ^ 31"
  shows "db_inv d' \<and>
    (if se_Offset e \<in> er_offset ` set (events d) then d' = d \<and> m = Map.empty
     else save_spec my e d m d')"
proof -
  from assms(1) obtain fresh d1 fs1 where
    ins: "save_insert my e (d, fs) = (Inr fresh, (d1, fs1))" and
    rest: "(if fresh then bind_tx (stmt (\<lambda>d. Inr ((), d))) (\<lambda>_. save_loop my e (se_To e) Map.empty)
            else ret_tx Map.empty) (d1, fs1) = (Inr m, (d', fs'))"
    unfolding save_exec_def bind_tx_iff by auto
  show ?thesis
  proof (cases fresh)
    case False
    with save_insert_success [OF ins] rest assms(2) show ?thesis by (auto simp: tx_simps)
  next
    case True
    with save_insert_success [OF ins] have off: "se_Offset e \<notin> er_offset ` set (events d)"
      and d1: "d1 = d\<lparr>events := events d @ [\<lparr>er_offset = se_Offset e,
        er_create_time = dt3 my (se_CreateTime e), er_payload = se_Payload e\<rparr>]\<rparr>"
      by auto
    have inv1: "db_inv d1" using assms(2) off unfolding d1 by (intro db_inv_add_event) auto
    from rest True obtain fs2 where
      loop: "save_loop my e (se_To e) Map.empty (d1, fs2) = (Inr m, (d', fs'))"
      by (auto simp: tx_simps)
    have "\<forall>u. headSeq d1 u + int (count_list (se_To e) u) < 2 ^ 31"
      using assms(3) by (simp add: d1)
    note spec = save_loop_success [OF loop inv1 this]
    have "headSeq d1 = headSeq d" by (simp add: d1)
    with spec have "m = (\<lambda>u. if u \<in> set (se_To e) then Some (headSeq d' u) else None)"
      by (auto simp: fun_eq_iff)
    with spec off \<open>headSeq d1 = headSeq d\<close> show ?thesis
      by (simp add: save_spec_def d1)
  qed
qed

text \<open>An event that is there already is never written a second time, whatever fails.\<close>

lemma save_exec_present:
  assumes "save_exec my e (d, fs) = (Inr m, (d', fs'))" "se_Offset e \<in> er_offset ` set (events d)"
  shows "d' = d \<and> m = Map.empty"
proof -
  from assms(1) obtain fresh d1 fs1 where
    ins: "save_insert my e (d, fs) = (Inr fresh, (d1, fs1))" and
    rest: "(if fresh then bind_tx (stmt (\<lambda>d. Inr ((), d))) (\<lambda>_. save_loop my e (se_To e) Map.empty)
            else ret_tx Map.empty) (d1, fs1) = (Inr m, (d', fs'))"
    unfolding save_exec_def bind_tx_iff by auto
  from save_insert_success [OF ins] assms(2) rest show ?thesis by (auto simp: tx_simps)
qed

lemma Save_present:
  assumes "Save my en e d = (r, d')" "se_Offset e \<in> er_offset ` set (events d)"
  shows "d' = d" and "r = Inr m \<Longrightarrow> m = Map.empty"
proof -
  show "d' = d"
    using withTx_cases [OF assms(1) [unfolded Save_def]] save_exec_present assms(2) by fastforce
  show "m = Map.empty" if "r = Inr m"
    using assms that save_exec_present by (fastforce simp: Save_def withTx_iff)
qed

lemma Save_inv:
  assumes "Save my en e d = (r, d')" "db_inv d"
    and "\<forall>u. headSeq d u + int (count_list (se_To e) u) < 2 ^ 31"
  shows "db_inv d'"
  using withTx_cases [OF assms(1) [unfolded Save_def]] save_exec_success assms(2,3) by fastforce


section \<open>Queries and updates\<close>

definition payload_of :: "db \<Rightarrow> int \<Rightarrow> payload" where
  "payload_of d off = (case filter (\<lambda>e. er_offset e = off) (events d) of [] \<Rightarrow> [] | r # _ \<Rightarrow> er_payload r)"

lemma filter_unique:
  assumes "distinct (map f xs)" "k \<in> f ` set xs"
  shows "\<exists>x. filter (\<lambda>x. f x = k) xs = [x]"
  using assms
proof (induction xs)
  case (Cons y ys)
  show ?case
  proof (cases "f y = k")
    case True
    then have "filter (\<lambda>x. f x = k) ys = []" using Cons.prems by (auto simp: filter_empty_conv image_iff)
    with True show ?thesis by simp
  next
    case False
    with Cons show ?thesis by auto
  qed
qed simp

lemma getEventsSQL_inv:
  assumes "db_inv d"
  shows "getEventsSQL uid a b d = sort_key (\<lambda>(u, p). - ur_seq u)
    (map (\<lambda>u. (u, payload_of d (ur_offset u)))
      (filter (\<lambda>u. ur_uid u = uid \<and> ur_seq u \<ge> a \<and> ur_seq u \<le> b) (user_events d)))"
proof -
  have "map (\<lambda>e. (u, er_payload e)) (filter (\<lambda>e. er_offset e = ur_offset u) (events d)) =
      [(u, payload_of d (ur_offset u))]" if "u \<in> set (user_events d)" for u
    using filter_unique [of er_offset "events d" "ur_offset u"] assms that
    by (auto simp: db_inv_def payload_of_def)
  then have "concat (map (\<lambda>u. map (\<lambda>e. (u, er_payload e)) (filter (\<lambda>e. er_offset e = ur_offset u) (events d))) us) =
      map (\<lambda>u. (u, payload_of d (ur_offset u))) us" if "set us \<subseteq> set (user_events d)" for us
    using that by (induction us) auto
  then show ?thesis by (auto simp: getEventsSQL_def)
qed

text \<open>With no fault in the way, a row loop returns every row; else a prefix or an error.\<close>

lemma scan_rows_Nil [simp]: "scan_rows [] f rows = Inr (map f rows)"
  by (induction rows) simp_all

lemma scan_rows_prefix: "scan_rows fs f rows = Inr xs \<Longrightarrow> \<exists>n. xs = map f (take n rows)"
proof (induction fs f rows arbitrary: xs rule: scan_rows.induct)
  case (2 fs f r rows)
  then show ?case
  proof (cases "case fs of [] \<Rightarrow> RowOk | x # _ \<Rightarrow> x")
    case RowOk
    with 2 obtain ys where "scan_rows (tl fs) f rows = Inr ys" "xs = f r # ys"
      by (auto split: sum.splits)
    with 2(1) [OF RowOk] obtain n where "xs = map f (take (Suc n) (r # rows))" by fastforce
    then show ?thesis by blast
  next
    case NextStops
    with 2 show ?thesis by (auto intro: exI [of _ 0])
  next
    case (ScanErr e)
    with 2 show ?thesis by simp
  qed
qed simp

lemma sorted_desc:
  fixes f :: "'a \<Rightarrow> int"
  assumes "distinct (map f xs)"
  shows "sorted_wrt (>) (map f (sort_key (\<lambda>x. - f x) xs))"
proof -
  let ?ys = "sort_key (\<lambda>x. - f x) xs"
  have d: "distinct (map f ?ys)" using assms by (simp add: distinct_map)
  have s: "sorted (map (\<lambda>x. - f x) ?ys)" by simp
  show ?thesis unfolding sorted_wrt_iff_nth_less
  proof (intro allI impI)
    fix i j assume ij: "i < j" "j < length (map f ?ys)"
    then have "- f (?ys ! i) \<le> - f (?ys ! j)"
      using sorted_nth_mono [OF s, of i j] by simp
    moreover have "f (?ys ! i) \<noteq> f (?ys ! j)"
      using d ij nth_eq_iff_index_eq [OF d, of i j] by auto
    ultimately show "map f ?ys ! i > map f ?ys ! j" using ij by simp
  qed
qed

lemma distinct_user_seqs:
  "db_inv d \<Longrightarrow> distinct (map ur_seq (filter (\<lambda>u. ur_uid u = uid \<and> P u) (user_events d)))"
  unfolding db_inv_def by (auto simp: distinct_map inj_on_def)

lemma map_fst_sort_pairs:
  "map (\<lambda>p. ur_seq (fst p)) (sort_key (\<lambda>(u, p). - ur_seq u) (map (\<lambda>u. (u, g u)) us)) =
   map ur_seq (sort_key (\<lambda>u. - ur_seq u) us)"
proof -
  have "insort_key (\<lambda>(u, p). - ur_seq u) (u, g u) (map (\<lambda>u. (u, g u)) vs) =
      map (\<lambda>u. (u, g u)) (insort_key (\<lambda>u. - ur_seq u) u vs)" for u vs
    by (induction vs) auto
  then have "sort_key (\<lambda>(u, p). - ur_seq u) (map (\<lambda>u. (u, g u)) us) =
      map (\<lambda>u. (u, g u)) (sort_key (\<lambda>u. - ur_seq u) us)"
    by (induction us) simp_all
  then show ?thesis by simp
qed

text \<open>Updates other than \<^verbatim>\<open>Save\<close>.\<close>

lemma setReadSQL_inv:
  assumes "db_inv d" "setReadSQL uid seq d = Inr (n, d')"
  shows "db_inv d'"
proof -
  let ?f = "\<lambda>u. if ur_uid u = uid \<and> ur_seq u = seq \<and> ur_read_state u = 0 then u\<lparr>ur_read_state := 1\<rparr> else u"
  have d': "d' = d\<lparr>user_events := map ?f (user_events d)\<rparr>"
    using assms(2) by (auto simp: setReadSQL_def Let_def)
  have "map ue_key (map ?f xs) = map ue_key xs" for xs by (induction xs) auto
  then show ?thesis using assms(1) by (auto simp: db_inv_def d' headSeq_def simp del: map_map)
qed

lemma SetRead_inv: "db_inv d \<Longrightarrow> SetRead en uid seq d = (r, d') \<Longrightarrow> db_inv d'"
  unfolding SetRead_def
  by (drule withTx_cases) (auto simp: tx_simps rowsAffected_def dest: setReadSQL_inv dest!: stmt_Inl_db)

lemma cleanEventsSQL_inv:
  assumes "db_inv d" "cleanEventsSQL my t d = Inr (n, d')"
  shows "db_inv d'"
proof -
  have d': "d' = d\<lparr>events := filter (\<lambda>e. \<not> ct_le my (er_create_time e) t) (events d),
      user_events := filter (\<lambda>u. ur_offset u \<notin> er_offset ` set (filter (\<lambda>e. ct_le my (er_create_time e) t) (events d)))
        (user_events d)\<rparr>"
    using assms(2) by (auto simp: cleanEventsSQL_def Let_def)
  have "k \<in> f ` set (filter (\<lambda>x. \<not> P x) xs)" if "k \<in> f ` set xs" "k \<notin> f ` set (filter P xs)"
    for k :: int and f P and xs :: "event_row list"
    using that by auto
  then show ?thesis using assms(1) unfolding db_inv_def d'
    by (simp add: headSeq_def distinct_map inj_on_def)
qed

lemma DeleteOutdatedEvents_inv:
  "db_inv d \<Longrightarrow> DeleteOutdatedEvents my sod now en ttl d = (r, d') \<Longrightarrow> db_inv d'"
  unfolding DeleteOutdatedEvents_def Let_def
  by (drule withTx_cases) (auto simp: tx_simps rowsAffected_def dest: cleanEventsSQL_inv)

text \<open>Queries leave the tables alone.\<close>

lemma getSeq_db: "getSeq uid s = (r, s') \<Longrightarrow> fst s' = fst s"
  by (auto simp: getSeq_def catch_tx_def ret_tx_def fail_tx_def stmt_def getSeqSQL_def
      split: prod.splits sum.splits option.splits list.splits if_splits)

lemma countUnread_db: "countUnread my sod now uid days s = (r, s') \<Longrightarrow> fst s' = fst s"
  by (auto simp: countUnread_def Let_def bind_tx_def ret_tx_def fail_tx_def stmt_def countUnreadSQL_def
      split: prod.splits sum.splits option.splits list.splits if_splits)

lemma Stats_db: "Stats my sod now en uid days req d = (r, d') \<Longrightarrow> d' = d"
  unfolding Stats_def
  by (drule withTx_cases) (auto simp: tx_simps split: if_splits dest!: getSeq_db countUnread_db)

lemma GetEvents_db: "GetEvents en uid req d = (r, d') \<Longrightarrow> d' = d"
  unfolding GetEvents_def
  by (drule withTx_cases) (auto simp: tx_simps split: sum.splits)

lemma GetReadStates_db: "GetReadStates my sod now en uid days req d = (r, d') \<Longrightarrow> d' = d"
  unfolding GetReadStates_def Let_def
  by (auto split: prod.splits sum.splits dest!: withTx_cases simp: tx_simps)

subsection \<open>Progress without faults\<close>

lemma stmt_calm: "stmt f (d, []) = (case f d of Inl e \<Rightarrow> (Inl e, (d, [])) | Inr (a, d') \<Rightarrow> (Inr a, (d', [])))"
  by (simp add: stmt_def split: sum.split)

lemma incSeq_calm:
  assumes "db_inv d" "headSeq d uid + 1 < 2 ^ 31"
  shows "\<exists>d'. incSeq uid (d, []) = (Inr (headSeq d uid + 1), (d', []))"
proof (cases "map_of (user_seq d) uid")
  case None
  then show ?thesis
    by (simp add: incSeq_alt seq_row_def bind_tx_def catch_tx_def ret_tx_def stmt_calm getSeqSQL_def
        insertSeqSQL_def incSeqSQL_def headSeq_def is_i32_def)
next
  case (Some s)
  then have "1 \<le> s" using assms(1) by (rule headSeq_pos [rotated])
  with Some assms(2) show ?thesis
    by (simp add: incSeq_alt seq_row_def bind_tx_def catch_tx_def ret_tx_def stmt_calm getSeqSQL_def
        incSeqSQL_def headSeq_def is_i32_def)
qed

lemma save_loop_calm:
  assumes "db_inv d" "\<forall>u. headSeq d u + int (count_list to u) < 2 ^ 31"
    and "se_Offset e \<in> er_offset ` set (events d)"
  shows "\<exists>m' d'. save_loop my e to m (d, []) = (Inr m', (d', []))"
  using assms
proof (induction to arbitrary: d m)
  case Nil
  then show ?case by (simp add: ret_tx_def)
next
  case (Cons uid to)
  have small: "headSeq d uid + 1 < 2 ^ 31"
    using Cons.prems(2) [rule_format, of uid] by simp
  obtain d1 where inc: "incSeq uid (d, []) = (Inr (headSeq d uid + 1), (d1, []))"
    using incSeq_calm [OF Cons.prems(1) small] by blast
  have inv': "distinct (map fst (user_seq d))" "\<forall>s \<in> snd ` set (user_seq d). 1 \<le> s"
    using Cons.prems(1) by (simp_all add: db_inv_def)
  have "(uid, headSeq d uid + 1) \<notin> ue_key ` set (user_events d)"
    using Cons.prems(1) unfolding db_inv_def by force
  then obtain d2 where ins: "insertUserEventSQL my uid (headSeq d uid + 1) (se_CreateTime e) (se_Offset e) d1 = Inr ((), d2)"
    using incSeq_success [OF inc inv' small] Cons.prems(3) by (simp add: insertUserEventSQL_def)
  note one = deliver_one [OF inc ins Cons.prems(1) small]
  have "\<forall>u. headSeq d2 u + int (count_list to u) < 2 ^ 31"
  proof
    fix u
    show "headSeq d2 u + int (count_list to u) < 2 ^ 31"
      using Cons.prems(2) [rule_format, of u] one by (cases "u = uid") auto
  qed
  from Cons.IH [OF _ this] one Cons.prems(3)
  obtain m' d' where "save_loop my e to (m(uid \<mapsto> headSeq d uid + 1)) (d2, []) = (Inr m', (d', []))"
    by fastforce
  then show ?case using inc ins by (simp add: bind_tx_def stmt_calm)
qed

lemma go_div_mult: "b \<noteq> 0 \<Longrightarrow> go_div (x * b) b = x"
  by (simp add: go_div_def abs_mult sgn_mult mult_sgn_abs abs_mult_sgn ac_simps)

lemma Save_calm:
  assumes "db_inv d" "\<forall>u. headSeq d u + int (count_list (se_To e) u) < 2 ^ 31"
    and "se_Offset e \<notin> er_offset ` set (events d)"
  shows "\<exists>m d'. Save my calm e d = (Inr m, d')"
proof -
  let ?r = "\<lparr>er_offset = se_Offset e, er_create_time = dt3 my (se_CreateTime e), er_payload = se_Payload e\<rparr>"
  let ?d1 = "d\<lparr>events := events d @ [?r]\<rparr>"
  have "db_inv ?d1" using assms by (intro db_inv_add_event) auto
  moreover have "\<forall>u. headSeq ?d1 u + int (count_list (se_To e) u) < 2 ^ 31" using assms(2) by simp
  ultimately obtain m d' where
    "save_loop my e (se_To e) Map.empty (?d1, []) = (Inr m, (d', []))"
    using save_loop_calm [of ?d1 "se_To e" e my Map.empty] by auto
  then show ?thesis
    using assms(3)
    by (simp add: Save_def calm_def withTx_def save_exec_def save_insert_def bind_tx_def catch_tx_def
        ret_tx_def stmt_calm insertEventSQL_def)
qed

section \<open>Main properties\<close>

text \<open>The database server used in examples: millisecond columns, times compared in seconds.\<close>

definition plain_mysql :: mysql where
  "plain_mysql = \<lparr>dt3 = (\<lambda>t. go_div t 1000000), ct_ge = (\<lambda>c t. c div 1000 \<ge> t), ct_le = (\<lambda>c t. c div 1000 \<le> t)\<rparr>"

definition sample_event :: store_Event where
  "sample_event = \<lparr>se_Offset = 7, se_CreateTime = 1700000000123000000, se_To = [1, 2, 1], se_Payload = ''{}''\<rparr>"

lemma sample_small: "\<forall>u. headSeq empty_db u + int (count_list (se_To sample_event) u) < 2 ^ 31"
  by (simp add: headSeq_def empty_db_def sample_event_def)

lemma sample_new: "se_Offset sample_event \<notin> er_offset ` set (events empty_db)"
  by (simp add: empty_db_def)

lemma sample_saved: "\<exists>m d'. Save plain_mysql calm sample_event empty_db = (Inr m, d')"
  by (rule Save_calm [OF db_inv_empty sample_small sample_new])







text \<open>C3. Saving is idempotent: once an event is stored, saving it again, under any faults,
  leaves the tables as they are and reports no new head sequence; without faults it
  succeeds if time and payload are the stored ones.\<close>

theorem save_idempotent:
  assumes "Save my en e d = (Inr m, d1)" "db_inv d" "se_Offset e \<notin> er_offset ` set (events d)"
    and "\<forall>u. headSeq d u + int (count_list (se_To e) u) < 2 ^ 31"
    and "dt3 my (se_CreateTime e) = go_div (se_CreateTime e) 1000000"
  shows "snd (Save my en2 e d1) = d1 \<and> fst (Save my en2 e d1) \<in> range Inl \<union> {Inr Map.empty} \<and>
    Save my calm e d1 = (Inr Map.empty, d1)"
proof -
  have spec: "save_spec my e d m d1"
    using assms save_exec_success [OF _ assms(2,4)] by (auto simp: Save_def withTx_iff)
  then have here: "se_Offset e \<in> er_offset ` set (events d1)" by (simp add: save_spec_def)
  obtain r d2 where run: "Save my en2 e d1 = (r, d2)" by force
  have again: "d2 = d1" "\<And>m. r = Inr m \<Longrightarrow> m = Map.empty"
    using Save_present [OF run here] by blast+
  have "filter (\<lambda>x. er_offset x = se_Offset e) (events d) = []"
    using assms(3) by (auto simp: filter_empty_conv image_iff)
  then have "getEventSQL (se_Offset e) d1 = Inr ((dt3 my (se_CreateTime e), se_Payload e), d1)"
    using spec by (simp add: getEventSQL_def save_spec_def)
  then have "Save my calm e d1 = (Inr Map.empty, d1)"
    using here assms(5)
    by (simp add: Save_def withTx_def calm_def save_exec_def save_insert_def save_dup_def bind_tx_def
        catch_tx_def ret_tx_def fail_tx_def stmt_calm insertEventSQL_def IsDupKeyError_def go_div_mult)
  then show ?thesis using run again by (cases r) auto
qed

theorem save_idempotent_witness:
  "\<exists>m d1. Save plain_mysql calm sample_event empty_db = (Inr m, d1) \<and>
    Save plain_mysql calm sample_event d1 = (Inr Map.empty, d1)"
proof -
  obtain m d1 where run: "Save plain_mysql calm sample_event empty_db = (Inr m, d1)"
    using sample_saved by blast
  have "dt3 plain_mysql (se_CreateTime sample_event) = go_div (se_CreateTime sample_event) 1000000"
    by (simp add: plain_mysql_def)
  from save_idempotent [OF run db_inv_empty sample_new sample_small this] run show ?thesis by blast
qed

text \<open>C20. \<^verbatim>\<open>GetEvents\<close> returns, in strictly descending order of sequence, exactly the
  user's events whose sequence lies in the requested range, each with its payload and read
  state, provided the result set is read to its end.\<close>

theorem get_events_exact:
  assumes "GetEvents en uid req d = (Inr resp, d')" "row_faults en = []" "db_inv d"
  shows "d' = d \<and> sorted_wrt (>) (map ev_Seq (Events resp)) \<and>
    (\<forall>ev. ev \<in> set (Events resp) \<longleftrightarrow> (\<exists>u \<in> set (user_events d). ur_uid u = uid \<and>
       FromSeq req \<le> ur_seq u \<and> ur_seq u \<le> ToSeq req \<and>
       ev = mk_Event uid (u, payload_of d (ur_offset u))))"
proof -
  let ?us = "filter (\<lambda>u. ur_uid u = uid \<and> ur_seq u \<ge> FromSeq req \<and> ur_seq u \<le> ToSeq req) (user_events d)"
  let ?rows = "sort_key (\<lambda>(u, p). - ur_seq u) (map (\<lambda>u. (u, payload_of d (ur_offset u))) ?us)"
  have evs: "Events resp = map (mk_Event uid) ?rows" and "d' = d"
    using assms(1,2) getEventsSQL_inv [OF assms(3)]
    by (auto simp: GetEvents_def withTx_iff tx_simps)
  have "map ev_Seq (Events resp) = map (\<lambda>p. ur_seq (fst p)) ?rows"
    by (auto simp: evs mk_Event_def)
  also have "\<dots> = map ur_seq (sort_key (\<lambda>u. - ur_seq u) ?us)"
    by (rule map_fst_sort_pairs)
  finally have "sorted_wrt (>) (map ev_Seq (Events resp))"
    using sorted_desc [OF distinct_user_seqs [OF assms(3), of uid]] by simp
  then show ?thesis using evs \<open>d' = d\<close> by auto
qed

definition sample_db :: db where
  "sample_db = \<lparr>events = [\<lparr>er_offset = 7, er_create_time = 1700000000123, er_payload = ''a''\<rparr>,
       \<lparr>er_offset = 8, er_create_time = 1700000001123, er_payload = ''b''\<rparr>],
     user_events = [\<lparr>ur_uid = 1, ur_seq = 1, ur_create_time = 1700000000123, ur_read_state = 1, ur_offset = 7\<rparr>,
       \<lparr>ur_uid = 2, ur_seq = 1, ur_create_time = 1700000000123, ur_read_state = 0, ur_offset = 7\<rparr>,
       \<lparr>ur_uid = 1, ur_seq = 2, ur_create_time = 1700000001123, ur_read_state = 0, ur_offset = 8\<rparr>],
     user_seq = [(1, 2), (2, 1)]\<rparr>"

lemma db_inv_sample: "db_inv sample_db"
  by (simp add: db_inv_def sample_db_def headSeq_def)

theorem get_events_exact_witness:
  "\<exists>resp d'. GetEvents calm 1 \<lparr>FromSeq = 1, ToSeq = 5\<rparr> sample_db = (Inr resp, d') \<and>
    sorted_wrt (>) (map ev_Seq (Events resp)) \<and> length (Events resp) = 2"
proof -
  have "\<exists>resp d'. GetEvents calm 1 \<lparr>FromSeq = 1, ToSeq = 5\<rparr> sample_db = (Inr resp, d') \<and> length (Events resp) = 2"
    by (simp add: GetEvents_def withTx_def calm_def bind_tx_def stmt_def ret_tx_def getEventsSQL_def sample_db_def)
  moreover have "row_faults calm = []" by (simp add: calm_def)
  ultimately show ?thesis using get_events_exact [OF _ _ db_inv_sample] by blast
qed

lemma scan_rows_stop: "scan_rows (replicate n RowOk @ [NextStops]) f rows = Inr (map f (take n rows))"
proof (induction n arbitrary: rows)
  case 0
  show ?case by (cases rows) simp_all
next
  case (Suc n)
  then show ?case by (cases rows) simp_all
qed

text \<open>A connection that breaks while the result set is read goes unnoticed: after \<open>n\<close>
  rows, \<^verbatim>\<open>GetEvents\<close> reports success with the first \<open>n\<close> events only.\<close>

theorem get_events_truncation_unnoticed:
  "GetEvents (calm\<lparr>row_faults := replicate n RowOk @ [NextStops]\<rparr>) uid req d =
    (Inr \<lparr>Events = take n (map (mk_Event uid) (getEventsSQL uid (FromSeq req) (ToSeq req) d))\<rparr>, d)"
  by (simp add: GetEvents_def withTx_def calm_def bind_tx_def stmt_def ret_tx_def scan_rows_stop take_map)

text \<open>Marking an event as read.\<close>

abbreviation unread_at :: "int \<Rightarrow> int \<Rightarrow> user_event_row \<Rightarrow> bool" where
  "unread_at uid seq u \<equiv> ur_uid u = uid \<and> ur_seq u = seq \<and> ur_read_state u = 0"

definition mark_read :: "int \<Rightarrow> int \<Rightarrow> user_event_row list \<Rightarrow> user_event_row list" where
  "mark_read uid seq = map (\<lambda>u. if ue_key u = (uid, seq) then u\<lparr>ur_read_state := 1\<rparr> else u)"

lemma mark_read_unread: "filter (unread_at uid seq) (mark_read uid seq us) = []"
  by (induction us) (auto simp: mark_read_def)

lemma mark_read_again:
  "map (\<lambda>u. if unread_at uid seq u then u\<lparr>ur_read_state := 1\<rparr> else u) (mark_read uid seq us) = mark_read uid seq us"
  by (induction us) (auto simp: mark_read_def)

lemma set_read_marks:
  assumes "db_inv d"
  shows "map (\<lambda>u. if unread_at uid seq u then u\<lparr>ur_read_state := 1\<rparr> else u) (user_events d) =
    mark_read uid seq (user_events d)"
proof -
  have "\<forall>u \<in> set (user_events d). ur_read_state u \<in> {0, 1}" using assms by (simp add: db_inv_def)
  then show ?thesis unfolding mark_read_def by (induction "user_events d" arbitrary: d) auto
qed

lemma unread_count:
  assumes "db_inv d"
  shows "length (filter (unread_at uid seq) (user_events d)) = 1 \<longleftrightarrow>
    (\<exists>u \<in> set (user_events d). unread_at uid seq u)"
proof -
  have "length (filter (unread_at uid seq) us) = 1 \<longleftrightarrow> (\<exists>u \<in> set us. unread_at uid seq u)"
    if "distinct (map ue_key us)" for us
    using that
  proof (induction us)
    case (Cons u us)
    have "filter (unread_at uid seq) us = []" if "unread_at uid seq u"
      using Cons.prems that by (auto simp: filter_empty_conv image_iff)
    with Cons show ?case by auto
  qed simp
  then show ?thesis using assms by (simp add: db_inv_def)
qed

text \<open>C35. \<^verbatim>\<open>SetRead\<close> reports a change exactly if the user had that event unread, marks that
  event and nothing else, and reports no change when called again.\<close>

theorem set_read_once:
  assumes "SetRead en uid seq d = (Inr resp, d')" "stmt_faults en = []" "db_inv d"
  shows "srr_Seq resp = seq \<and>
    (srr_Changed resp \<longleftrightarrow> (\<exists>u \<in> set (user_events d). ue_key u = (uid, seq) \<and> ur_read_state u = 0)) \<and>
    d' = d\<lparr>user_events := mark_read uid seq (user_events d)\<rparr> \<and>
    SetRead calm uid seq d' = (Inr \<lparr>srr_Seq = seq, srr_Changed = False\<rparr>, d')"
proof -
  have run: "resp = \<lparr>srr_Seq = seq, srr_Changed = (length (filter (unread_at uid seq) (user_events d)) = 1)\<rparr> \<and>
      d' = d\<lparr>user_events := mark_read uid seq (user_events d)\<rparr>"
    using assms(1) unfolding SetRead_def withTx_iff assms(2)
    by (simp add: bind_tx_def catch_tx_def stmt_calm rowsAffected_def setReadSQL_def Let_def
        set_read_marks [OF assms(3)] ret_tx_def)
  have "SetRead calm uid seq d' = (Inr \<lparr>srr_Seq = seq, srr_Changed = False\<rparr>, d')"
    using run
    by (simp add: SetRead_def withTx_def calm_def bind_tx_def catch_tx_def stmt_calm ret_tx_def
        rowsAffected_def setReadSQL_def Let_def mark_read_unread mark_read_again)
  then show ?thesis using run unread_count [OF assms(3)] by simp
qed

theorem set_read_once_witness:
  "\<exists>resp d'. SetRead calm 1 2 sample_db = (Inr resp, d') \<and> srr_Changed resp \<and>
    SetRead calm 1 2 d' = (Inr \<lparr>srr_Seq = 2, srr_Changed = False\<rparr>, d')"
proof -
  have "\<exists>resp d'. SetRead calm 1 2 sample_db = (Inr resp, d')"
    by (simp add: SetRead_def withTx_def calm_def bind_tx_def catch_tx_def stmt_def ret_tx_def
        rowsAffected_def setReadSQL_def Let_def)
  then obtain resp d' where run: "SetRead calm 1 2 sample_db = (Inr resp, d')" by blast
  have "stmt_faults calm = []" by (simp add: calm_def)
  from set_read_once [OF run this db_inv_sample] run show ?thesis by (auto simp: sample_db_def)
qed

text \<open>\<^verbatim>\<open>Stats\<close> returns the user's head sequence (0 for a user without events) and,
  if asked to, the number of unread events in the retention window.\<close>

theorem stats_exact:
  assumes "Stats my startOfDay now en uid days req d = (Inr resp, d')" "stmt_faults en = []"
  shows "d' = d \<and> st_HeadSeq resp = headSeq d uid \<and>
    st_UnreadCount resp = (if CountUnread req
      then int (length (filter (\<lambda>u. ur_uid u = uid \<and>
             ct_ge my (ur_create_time u) (GetDayBefore startOfDay now days) \<and> ur_read_state u = 0) (user_events d)))
      else 0)"
proof -
  have "getSeq uid (d, []) = (Inr q, s) \<Longrightarrow> q = headSeq d uid \<and> s = (d, [])" for q s
    by (auto simp: getSeq_def catch_tx_def stmt_calm ret_tx_def fail_tx_def getSeqSQL_def headSeq_def
        split: option.splits if_splits)
  then show ?thesis
    using assms(1) unfolding Stats_def withTx_iff assms(2)
    by (fastforce simp: tx_simps countUnread_def Let_def countUnreadSQL_def split: if_splits)
qed

theorem stats_exact_witness:
  "\<exists>resp d'. Stats plain_mysql (\<lambda>t. t - t mod 86400) (1700000100 * second) calm 1 30 \<lparr>CountUnread = True\<rparr> sample_db =
      (Inr resp, d') \<and> st_HeadSeq resp = 2 \<and> st_UnreadCount resp = 1"
proof -
  let ?sod = "\<lambda>t :: int. t - t mod 86400" and ?now = "1700000100 * second"
  have win: "GetDayBefore ?sod ?now 30 = 1697241600"
    by (simp add: GetDayBefore_exact second_def)
  have "\<exists>resp d'. Stats plain_mysql ?sod ?now calm 1 30 \<lparr>CountUnread = True\<rparr> sample_db = (Inr resp, d')"
    by (simp add: Stats_def withTx_def calm_def bind_tx_def catch_tx_def stmt_def ret_tx_def getSeq_def
        getSeqSQL_def countUnread_def countUnreadSQL_def sample_db_def is_i32_def Let_def)
  then obtain resp d' where
    run: "Stats plain_mysql ?sod ?now calm 1 30 \<lparr>CountUnread = True\<rparr> sample_db = (Inr resp, d')" by blast
  have "stmt_faults calm = []" by (simp add: calm_def)
  from stats_exact [OF run this] run show ?thesis
    unfolding win by (auto simp: sample_db_def headSeq_def plain_mysql_def)
qed



text \<open>Every state the store's operations can lead to from empty tables, under any faults.\<close>

inductive store_reach :: "mysql \<Rightarrow> (int \<Rightarrow> int) \<Rightarrow> db \<Rightarrow> bool" for my startOfDay where
  reach_init: "store_reach my startOfDay empty_db"
| reach_save: "store_reach my startOfDay d \<Longrightarrow>
     \<forall>u. headSeq d u + int (count_list (se_To e) u) < 2 ^ 31 \<Longrightarrow>
     store_reach my startOfDay (snd (Save my en e d))"
| reach_set_read: "store_reach my startOfDay d \<Longrightarrow> store_reach my startOfDay (snd (SetRead en uid seq d))"
| reach_delete: "store_reach my startOfDay d \<Longrightarrow>
     store_reach my startOfDay (snd (DeleteOutdatedEvents my startOfDay now en ttlDays d))"

text \<open>C19. In every reachable state the tables are consistent: keys are unique, every user
  event belongs to a stored event, and no user has an event beyond the user's head
  sequence.\<close>

theorem reachable_tables_consistent:
  assumes "store_reach my startOfDay d"
  shows "db_inv d"
  using assms
proof induction
  case reach_init
  show ?case by (rule db_inv_empty)
next
  case (reach_save d e en)
  then show ?case using Save_inv [of my en e d] by (cases "Save my en e d") auto
next
  case (reach_set_read d en uid seq)
  then show ?case using SetRead_inv [of d en uid seq] by (cases "SetRead en uid seq d") auto
next
  case (reach_delete d now en ttlDays)
  then show ?case using DeleteOutdatedEvents_inv [of d my startOfDay now en ttlDays]
    by (cases "DeleteOutdatedEvents my startOfDay now en ttlDays d") auto
qed

theorem reachable_tables_consistent_witness:
  "db_inv (snd (Save plain_mysql calm sample_event empty_db))"
  by (rule reachable_tables_consistent [where startOfDay = "\<lambda>t. t"],
      rule store_reach.reach_save [OF store_reach.reach_init sample_small])

end
