(* ===== verification/Storage.thy ===== *)
theory Storage
  imports EventStore
begin

text \<open>
  \<^verbatim>\<open>cluster/eventstore.go\<close>: the one storage of a cluster. It consumes messages from Kafka,
  saves them as events, and announces the new head sequences of the users through a cache
  that limits how often a user is notified.

  Times and durations are in nanoseconds. The event store is an argument (the operations the
  code calls on \<^verbatim>\<open>store.IEventStore\<close>); what the storage relies on is the locale
  \<open>event_store\<close>, interpreted on the MySQL store at the end. Kafka, the clock and the JSON
  decoder are input as well. \<^verbatim>\<open>consumeLoop\<close>, \<^verbatim>\<open>sendLoop\<close> and \<^verbatim>\<open>deleteLoop\<close> run
  concurrently; the step relation interleaves the steps of \<^verbatim>\<open>consumeLoop\<close> with whole
  rounds of the other two.

  Shown here: the bounds of the backoff, which messages are discarded, what the cache
  announces, that a message is acknowledged only after it is stored, that the cache never
  meets a sequence number that is not new, and that the announced numbers of a user grow.
\<close>

section \<open>The cache of head sequences\<close>

definition storeCacheTTL :: int where
  "storeCacheTTL = 5 * second"

record userSeq =
  us_headSeq :: int
  us_counter :: int
  us_cacheTime :: int

record cache =
  ckv :: "int \<rightharpoonup> userSeq"
  sending :: bool

definition newCache :: cache where
  "newCache = \<lparr>ckv = Map.empty, sending = False\<rparr>"

fun put_loop :: "int \<Rightarrow> (int \<times> int) list \<Rightarrow> (int \<rightharpoonup> userSeq) \<Rightarrow> (int \<rightharpoonup> userSeq) outcome" where
  "put_loop now [] m = Ret m"
| "put_loop now ((uid, seq) # rest) m =
     (case m uid of
        Some v \<Rightarrow>
          if us_headSeq v < seq then
            put_loop now rest (m(uid \<mapsto> v\<lparr>us_headSeq := seq, us_counter := us_counter v + 1\<rparr>))
          else Panic ''incoming seq is not bigger than last''
      | None \<Rightarrow>
          put_loop now rest (m(uid \<mapsto> \<lparr>us_headSeq = seq, us_counter = 1, us_cacheTime = now\<rparr>)))"

definition put :: "int \<Rightarrow> int list \<Rightarrow> (int \<rightharpoonup> int) \<Rightarrow> cache \<Rightarrow> cache outcome" where
  "put now order data c =
     bind_out (put_loop now (entries data order) (ckv c)) (\<lambda>m. Ret (c\<lparr>ckv := m\<rparr>))"

text \<open>
  \<^verbatim>\<open>float64(counter) / dur.Seconds() <= 1\<close>. The comparison is exact for durations up to the
  cache's TTL of five seconds: the integer counter and the bound 1 are exact, and the rounding of
  \<^verbatim>\<open>Seconds()\<close> is far below the nanosecond that separates a duration from a whole second.
  For longer durations the disjunction in \<open>due\<close> holds in any case.
\<close>

definition freq_le_1 :: "int \<Rightarrow> int \<Rightarrow> bool" where
  "freq_le_1 counter dur =
     (if dur > 0 then counter * second \<le> dur
      else if dur = 0 then counter < 0
      else counter * second \<ge> dur)"

definition due :: "int \<Rightarrow> userSeq \<Rightarrow> bool" where
  "due now v = (let dur = now - us_cacheTime v in freq_le_1 (us_counter v) dur \<or> dur > storeCacheTTL)"

fun check_scan :: "(int \<Rightarrow> int) \<Rightarrow> int list \<Rightarrow> (int \<rightharpoonup> int) \<times> (int \<rightharpoonup> userSeq) \<Rightarrow> (int \<rightharpoonup> int) \<times> (int \<rightharpoonup> userSeq)" where
  "check_scan clk [] (out, m) = (out, m)"
| "check_scan clk (uid # uids) (out, m) =
     (case m uid of
        None \<Rightarrow> check_scan clk uids (out, m)
      | Some v \<Rightarrow>
          if due (clk uid) v then check_scan clk uids (out(uid \<mapsto> us_headSeq v), m(uid := None))
          else check_scan clk uids (out, m))"

text \<open>\<^verbatim>\<open>check\<close>: what is pushed to the channel, and the cache afterwards.\<close>

definition check :: "(int \<Rightarrow> int) \<Rightarrow> int list \<Rightarrow> cache \<Rightarrow> LeaderMsg option \<times> cache" where
  "check clk order c =
     (if sending c then (None, c)
      else
        let (out, m) = check_scan clk order (Map.empty, ckv c)
        in (if out \<noteq> Map.empty then Some (empty_LeaderMsg\<lparr>lm_HeadSeq := out\<rparr>) else None,
            c\<lparr>ckv := m, sending := False\<rparr>))"

text \<open>
  \<^verbatim>\<open>check\<close> releases the lock before its loop, so a \<^verbatim>\<open>put\<close> can run between two statements of
  the loop's body. This is the body for one due user with such a \<^verbatim>\<open>put\<close> after
  \<^verbatim>\<open>out[uid] = v.headSeq\<close>: the number read for that user, and the cache afterwards.
\<close>

definition check_raced :: "int \<Rightarrow> int list \<Rightarrow> (int \<rightharpoonup> int) \<Rightarrow> int \<Rightarrow> cache \<Rightarrow> (int option \<times> cache) outcome" where
  "check_raced now order data uid c =
     (let out = map_option us_headSeq (ckv c uid)
      in bind_out (put now order data c) (\<lambda>c1. Ret (out, c1\<lparr>ckv := (ckv c1)(uid := None)\<rparr>)))"

section \<open>Messages from Kafka\<close>

record storage =
  cleanEvents :: bool
  delEventsTtlDays :: int
  valueMaxBytes :: int

definition MaxInt32 :: int where
  "MaxInt32 = 2147483647"

definition newStorage :: "bool \<Rightarrow> int \<Rightarrow> int \<Rightarrow> storage" where
  "newStorage clean eventsTtlDays maxBytes =
     \<lparr>cleanEvents = clean, delEventsTtlDays = (if clean then eventsTtlDays else MaxInt32),
      valueMaxBytes = maxBytes\<rparr>"

record kafka_msg =
  km_Offset :: int
  km_Time :: int
  km_Value :: string

text \<open>\<^verbatim>\<open>time.Since\<close> on wall clock times saturates at the bounds of a duration.\<close>

definition time_since :: "int \<Rightarrow> int \<Rightarrow> int" where
  "time_since now t = max (- (2 ^ 63)) (min (2 ^ 63 - 1) (now - t))"

definition shouldDiscard :: "storage \<Rightarrow> int \<Rightarrow> kafka_msg \<Rightarrow> bool" where
  "shouldDiscard s now msg \<longleftrightarrow>
     delEventsTtlDays s > 0 \<and>
     time_since now (km_Time msg) > i64 (i64 (delEventsTtlDays s * 24) * hour)"

definition decodeKafkaMsg :: "(string \<Rightarrow> E2EMsg option) \<Rightarrow> storage \<Rightarrow> int \<Rightarrow> kafka_msg \<Rightarrow> E2EMsg option" where
  "decodeKafkaMsg unmarshal s now msg =
     (if int (length (km_Value msg)) > valueMaxBytes s then None
      else case unmarshal (km_Value msg) of
        None \<Rightarrow> None
      | Some v \<Rightarrow> if shouldDiscard s now msg then None else Some v)"

definition BackoffMinInterval :: int where
  "BackoffMinInterval = second"

definition BackoffMaxInterval :: int where
  "BackoffMaxInterval = 60 * second"

definition millisecond :: int where
  "millisecond = 1000000"

text \<open>
  \<^verbatim>\<open>backoff\<close>. The product with 1.5 is exact in \<^verbatim>\<open>float64\<close> for every duration below a
  minute; the conversion back cuts off the fraction.
\<close>

definition backoff :: "int \<Rightarrow> int" where
  "backoff d =
     (if d = 0 then BackoffMinInterval
      else let d' = go_div (d * 3) 2 in
        if d' < BackoffMaxInterval then go_div d' millisecond * millisecond else BackoffMinInterval)"

section \<open>The consume loop\<close>

text \<open>
  The program points of \<^verbatim>\<open>consumeLoop\<close> at which it waits for its surroundings: fetching a
  message, saving an event, committing a message, and the three pauses after an error.
\<close>

datatype kafka_err = KCanceled | KOther string

datatype crash = DupKey dberr | SeqNotBigger string

datatype point =
    Fetching
  | Saving kafka_msg store_Event
  | Committing kafka_msg
  | FetchPause
  | SavePause kafka_msg store_Event
  | CommitPause kafka_msg
  | Stopped
  | Panicked crash

datatype 'v input =
    FetchMessage "kafka_err + kafka_msg" int
  | SaveRun 'v int "int list"
  | CommitMessages "kafka_err option"
  | TimeAfter
  | CtxIsDone

record 'd consumer =
  point :: point
  sleep :: int
  es_db :: 'd
  cached :: cache
  committed :: "int list"

definition to_event :: "kafka_msg \<Rightarrow> E2EMsg \<Rightarrow> store_Event" where
  "to_event msg v = \<lparr>se_Offset = km_Offset msg, se_CreateTime = km_Time msg, se_To = e2e_To v,
     se_Payload = km_Value msg\<rparr>"

definition pause :: "point \<Rightarrow> 'd consumer \<Rightarrow> 'd consumer" where
  "pause p st = st\<lparr>sleep := backoff (sleep st), point := p\<rparr>"

definition on_fetch :: "(string \<Rightarrow> E2EMsg option) \<Rightarrow> storage \<Rightarrow> kafka_err + kafka_msg \<Rightarrow> int \<Rightarrow> 'd consumer \<Rightarrow> 'd consumer" where
  "on_fetch unmarshal s r now st =
     (case r of
        Inr msg \<Rightarrow>
          (case decodeKafkaMsg unmarshal s now msg of
             None \<Rightarrow> st\<lparr>sleep := 0\<rparr>
           | Some v \<Rightarrow> st\<lparr>sleep := 0, point := Saving msg (to_event msg v)\<rparr>)
      | Inl err \<Rightarrow> if err = KCanceled then st\<lparr>point := Stopped\<rparr> else pause FetchPause st)"

definition on_save ::
    "('v \<Rightarrow> store_Event \<Rightarrow> 'd \<Rightarrow> (dberr + (int \<rightharpoonup> int)) \<times> 'd) \<Rightarrow> kafka_msg \<Rightarrow> store_Event \<Rightarrow> 'v \<Rightarrow> int \<Rightarrow> int list \<Rightarrow>
     'd consumer \<Rightarrow> 'd consumer" where
  "on_save save msg e v now order st =
     (let (r, d) = save v e (es_db st); st1 = st\<lparr>es_db := d\<rparr> in
      case r of
        Inr res \<Rightarrow>
          (case (if res \<noteq> Map.empty then put now order res (cached st) else Ret (cached st)) of
             Ret c \<Rightarrow> st1\<lparr>sleep := 0, cached := c, point := Committing msg\<rparr>
           | Panic m \<Rightarrow> st1\<lparr>sleep := 0, point := Panicked (SeqNotBigger m)\<rparr>)
      | Inl err \<Rightarrow>
          if err = Canceled then st1\<lparr>point := Stopped\<rparr>
          else if IsDupKeyError err then st1\<lparr>point := Panicked (DupKey err)\<rparr>
          else pause (SavePause msg e) st1)"

definition on_commit :: "kafka_msg \<Rightarrow> kafka_err option \<Rightarrow> 'd consumer \<Rightarrow> 'd consumer" where
  "on_commit msg r st =
     (case r of
        None \<Rightarrow> st\<lparr>sleep := 0, committed := committed st @ [km_Offset msg], point := Fetching\<rparr>
      | Some err \<Rightarrow> if err = KCanceled then st\<lparr>point := Stopped\<rparr> else pause (CommitPause msg) st)"

definition on_pause :: "'v input \<Rightarrow> point \<Rightarrow> 'd consumer \<Rightarrow> 'd consumer option" where
  "on_pause i p st =
     (case i of TimeAfter \<Rightarrow> Some (st\<lparr>point := p\<rparr>) | CtxIsDone \<Rightarrow> Some (st\<lparr>point := Stopped\<rparr>) | _ \<Rightarrow> None)"

text \<open>One step of the loop; \<open>None\<close> if the loop does not wait for that input.\<close>

definition consume_step ::
    "(string \<Rightarrow> E2EMsg option) \<Rightarrow> ('v \<Rightarrow> store_Event \<Rightarrow> 'd \<Rightarrow> (dberr + (int \<rightharpoonup> int)) \<times> 'd) \<Rightarrow> storage \<Rightarrow>
     'v input \<Rightarrow> 'd consumer \<Rightarrow> 'd consumer option" where
  "consume_step unmarshal save s i st =
     (case point st of
        Fetching \<Rightarrow> (case i of FetchMessage r now \<Rightarrow> Some (on_fetch unmarshal s r now st) | _ \<Rightarrow> None)
      | Saving msg e \<Rightarrow> (case i of SaveRun v now order \<Rightarrow> Some (on_save save msg e v now order st) | _ \<Rightarrow> None)
      | Committing msg \<Rightarrow> (case i of CommitMessages r \<Rightarrow> Some (on_commit msg r st) | _ \<Rightarrow> None)
      | FetchPause \<Rightarrow> on_pause i Fetching st
      | SavePause msg e \<Rightarrow> on_pause i (Saving msg e) st
      | CommitPause msg \<Rightarrow> on_pause i (Committing msg) st
      | Stopped \<Rightarrow> None
      | Panicked c \<Rightarrow> None)"

definition start_consumer :: "'d \<Rightarrow> 'd consumer" where
  "start_consumer d = \<lparr>point = Fetching, sleep = 0, es_db = d, cached = newCache, committed = []\<rparr>"

section \<open>The three loops together\<close>

text \<open>
  \<open>announced\<close> is what went into the push channel; \<open>purged\<close> collects the offsets that
  the deletion of outdated events removed.
\<close>

record 'd storage_sys =
  consumer :: "'d consumer"
  announced :: "LeaderMsg list"
  purged :: "int set"

text \<open>The range loop of \<^verbatim>\<open>put\<close> visits the new head sequences in some order.\<close>

definition order_ok :: "('v \<Rightarrow> store_Event \<Rightarrow> 'd \<Rightarrow> (dberr + (int \<rightharpoonup> int)) \<times> 'd) \<Rightarrow> 'v input \<Rightarrow> 'd consumer \<Rightarrow> bool" where
  "order_ok save i st \<longleftrightarrow>
     (\<forall>msg e v now order m d. point st = Saving msg e \<longrightarrow> i = SaveRun v now order \<longrightarrow>
        save v e (es_db st) = (Inr m, d) \<longrightarrow> go_range m order)"

inductive storage_step ::
    "(string \<Rightarrow> E2EMsg option) \<Rightarrow> ('v \<Rightarrow> store_Event \<Rightarrow> 'd \<Rightarrow> (dberr + (int \<rightharpoonup> int)) \<times> 'd) \<Rightarrow> ('p \<Rightarrow> 'd \<Rightarrow> 'd) \<Rightarrow>
     ('d \<Rightarrow> int set) \<Rightarrow> (store_Event \<Rightarrow> 'd \<Rightarrow> bool) \<Rightarrow> storage \<Rightarrow> 'd storage_sys \<Rightarrow> 'd storage_sys \<Rightarrow> bool"
  for unmarshal save purge offsets fits s where
  consume: "consume_step unmarshal save s i (consumer y) = Some c \<Longrightarrow>
     (\<forall>msg e. point (consumer y) = Saving msg e \<longrightarrow> fits e (es_db (consumer y))) \<Longrightarrow>
     order_ok save i (consumer y) \<Longrightarrow>
     storage_step unmarshal save purge offsets fits s y (y\<lparr>consumer := c\<rparr>)"
| send: "check clk order (cached (consumer y)) = (m, c) \<Longrightarrow>
     storage_step unmarshal save purge offsets fits s y
       (y\<lparr>consumer := (consumer y)\<lparr>cached := c\<rparr>,
         announced := announced y @ (case m of None \<Rightarrow> [] | Some x \<Rightarrow> [x])\<rparr>)"
| delete: "cleanEvents s \<Longrightarrow> d = purge p (es_db (consumer y)) \<Longrightarrow>
     storage_step unmarshal save purge offsets fits s y
       (y\<lparr>consumer := (consumer y)\<lparr>es_db := d\<rparr>,
         purged := purged y \<union> (offsets (es_db (consumer y)) - offsets d)\<rparr>)"

inductive storage_reach ::
    "(string \<Rightarrow> E2EMsg option) \<Rightarrow> ('v \<Rightarrow> store_Event \<Rightarrow> 'd \<Rightarrow> (dberr + (int \<rightharpoonup> int)) \<times> 'd) \<Rightarrow> ('p \<Rightarrow> 'd \<Rightarrow> 'd) \<Rightarrow>
     ('d \<Rightarrow> int set) \<Rightarrow> (store_Event \<Rightarrow> 'd \<Rightarrow> bool) \<Rightarrow> storage \<Rightarrow> 'd \<Rightarrow> 'd storage_sys \<Rightarrow> bool"
  for unmarshal save purge offsets fits s d0 where
  run: "storage_reach unmarshal save purge offsets fits s d0
     \<lparr>consumer = start_consumer d0, announced = [], purged = {}\<rparr>"
| step: "storage_reach unmarshal save purge offsets fits s d0 y \<Longrightarrow>
     storage_step unmarshal save purge offsets fits s y y' \<Longrightarrow>
     storage_reach unmarshal save purge offsets fits s d0 y'"

section \<open>What the cache does\<close>

lemma put_loop_ok:
  assumes "distinct (map fst xs)" "\<And>uid seq v. (uid, seq) \<in> set xs \<Longrightarrow> m uid = Some v \<Longrightarrow> us_headSeq v < seq"
  shows "\<exists>m'. put_loop now xs m = Ret m' \<and>
    (\<forall>uid. map_option us_headSeq (m' uid) = (case map_of xs uid of None \<Rightarrow> map_option us_headSeq (m uid) | Some q \<Rightarrow> Some q))"
  using assms
proof (induction xs arbitrary: m)
  case (Cons x xs)
  obtain uid seq where x: "x = (uid, seq)" by (cases x)
  define v where "v = (case m uid of Some v \<Rightarrow> v\<lparr>us_headSeq := seq, us_counter := us_counter v + 1\<rparr>
    | None \<Rightarrow> \<lparr>us_headSeq = seq, us_counter = 1, us_cacheTime = now\<rparr>)"
  define m1 where "m1 = m(uid \<mapsto> v)"
  have step: "put_loop now (x # xs) m = put_loop now xs m1"
    using Cons.prems(2) [of uid seq] by (auto simp: x m1_def v_def split: option.splits)
  have lt: "us_headSeq w < q" if "(u, q) \<in> set xs" "m1 u = Some w" for u q w
  proof -
    have "u \<noteq> uid" using Cons.prems(1) that(1) by (force simp: x)
    then show ?thesis using Cons.prems(2) [of u q w] that by (simp add: m1_def)
  qed
  have "\<exists>m'. put_loop now xs m1 = Ret m' \<and>
      (\<forall>u. map_option us_headSeq (m' u) = (case map_of xs u of None \<Rightarrow> map_option us_headSeq (m1 u) | Some q \<Rightarrow> Some q))"
    by (rule Cons.IH) (use Cons.prems(1) lt in simp_all)
  then obtain m' where m': "put_loop now xs m1 = Ret m'"
    "\<forall>u. map_option us_headSeq (m' u) = (case map_of xs u of None \<Rightarrow> map_option us_headSeq (m1 u) | Some q \<Rightarrow> Some q)"
    by blast
  have "us_headSeq v = seq" by (simp add: v_def split: option.split)
  moreover have "map_of xs uid = None" using Cons.prems(1) by (simp add: x map_of_eq_None_iff)
  ultimately have "map_option us_headSeq (m' u) = (case map_of (x # xs) u of None \<Rightarrow> map_option us_headSeq (m u) | Some q \<Rightarrow> Some q)" for u
    using m'(2) by (auto simp: x m1_def split: option.split)
  then show ?case using m'(1) step by simp
qed simp

lemma map_of_entries: "go_range m ks \<Longrightarrow> map_of (entries m ks) = m"
proof
  fix k
  assume go: "go_range m ks"
  then have "distinct (map fst (entries m ks))" by (simp add: go_range_def distinct_fst_entries)
  then have "map_of (entries m ks) k = Some v \<longleftrightarrow> m k = Some v" for v
    using set_entries_range [OF go] by (simp add: map_of_eq_Some_iff)
  then show "map_of (entries m ks) k = m k" by (metis option.exhaust)
qed

lemma put_ok:
  assumes "go_range data order" "\<And>uid seq v. data uid = Some seq \<Longrightarrow> ckv c uid = Some v \<Longrightarrow> us_headSeq v < seq"
  shows "\<exists>c'. put now order data c = Ret c' \<and>
    (\<forall>uid. map_option us_headSeq (ckv c' uid) = (case data uid of None \<Rightarrow> map_option us_headSeq (ckv c uid) | Some q \<Rightarrow> Some q))"
proof -
  have "distinct (map fst (entries data order))" using assms(1) by (simp add: go_range_def distinct_fst_entries)
  from put_loop_ok [OF this, of "ckv c" now] obtain m where
    "put_loop now (entries data order) (ckv c) = Ret m"
    "\<forall>uid. map_option us_headSeq (m uid) = (case data uid of None \<Rightarrow> map_option us_headSeq (ckv c uid) | Some q \<Rightarrow> Some q)"
    using assms set_entries_range [OF assms(1)] by (auto simp: map_of_entries)
  then show ?thesis by (simp add: put_def)
qed

definition is_due :: "(int \<Rightarrow> int) \<Rightarrow> (int \<rightharpoonup> userSeq) \<Rightarrow> int \<Rightarrow> bool" where
  "is_due clk m uid \<longleftrightarrow> (case m uid of None \<Rightarrow> False | Some v \<Rightarrow> due (clk uid) v)"

lemma check_scan_eq:
  "check_scan clk uids (out, m) =
     ((\<lambda>u. if u \<in> set uids \<and> is_due clk m u then map_option us_headSeq (m u) else out u),
      (\<lambda>u. if u \<in> set uids \<and> is_due clk m u then None else m u))"
  by (induction uids arbitrary: out m) (auto simp: is_due_def fun_eq_iff split: option.splits)

definition check_out :: "(int \<Rightarrow> int) \<Rightarrow> int list \<Rightarrow> cache \<Rightarrow> int \<rightharpoonup> int" where
  "check_out clk order c = (\<lambda>u. if \<not> sending c \<and> u \<in> set order \<and> is_due clk (ckv c) u
     then map_option us_headSeq (ckv c u) else None)"

lemma check_eq:
  "check clk order c =
     (if check_out clk order c \<noteq> Map.empty then Some (empty_LeaderMsg\<lparr>lm_HeadSeq := check_out clk order c\<rparr>) else None,
      c\<lparr>ckv := (\<lambda>u. if check_out clk order c u \<noteq> None then None else ckv c u)\<rparr>)"
proof (cases "sending c")
  case True
  then show ?thesis by (simp add: check_def check_out_def)
next
  case False
  have "(\<lambda>u. if u \<in> set order \<and> is_due clk (ckv c) u then None else ckv c u) =
      (\<lambda>u. if check_out clk order c u \<noteq> None then None else ckv c u)"
    using False by (auto simp: check_out_def is_due_def fun_eq_iff split: option.splits)
  then show ?thesis
    using False by (simp add: check_def check_scan_eq check_out_def)
qed

text \<open>The numbers announced to a user, and with them the one that waits in the cache.\<close>

definition announces :: "int \<Rightarrow> LeaderMsg list \<Rightarrow> int list" where
  "announces uid ms = concat (map (\<lambda>m. case lm_HeadSeq m uid of None \<Rightarrow> [] | Some q \<Rightarrow> [q]) ms)"

definition chain :: "int \<Rightarrow> LeaderMsg list \<Rightarrow> cache \<Rightarrow> int list" where
  "chain uid ms c = announces uid ms @ (case ckv c uid of None \<Rightarrow> [] | Some v \<Rightarrow> [us_headSeq v])"

lemma chain_check:
  assumes "check clk order c = (m, c')"
  shows "chain uid (ms @ (case m of None \<Rightarrow> [] | Some x \<Rightarrow> [x])) c' = chain uid ms c"
proof -
  have "announces uid (case m of None \<Rightarrow> [] | Some x \<Rightarrow> [x]) = (case check_out clk order c uid of None \<Rightarrow> [] | Some q \<Rightarrow> [q])"
    using assms by (auto simp: check_eq announces_def empty_LeaderMsg_def split: if_splits)
  moreover have "ckv c' uid = (if check_out clk order c uid \<noteq> None then None else ckv c uid)"
    using assms by (auto simp: check_eq)
  moreover have "announces uid (ms @ xs) = announces uid ms @ announces uid xs" for xs
    by (simp add: announces_def)
  ultimately show ?thesis
    by (auto simp: chain_def check_out_def split: option.splits if_splits)
qed

lemma chain_put:
  assumes "map_option us_headSeq (ckv c' uid) = (case data uid of None \<Rightarrow> map_option us_headSeq (ckv c uid) | Some q \<Rightarrow> Some q)"
  shows "chain uid ms c' = (case data uid of None \<Rightarrow> chain uid ms c | Some q \<Rightarrow> announces uid ms @ [q])"
  using assms by (cases "ckv c uid"; cases "ckv c' uid") (auto simp: chain_def split: option.splits)

section \<open>What the storage relies on\<close>

text \<open>
  The contract of \<^verbatim>\<open>store.IEventStore\<close> as far as the storage uses it. \<open>head\<close> is a
  user's head sequence, \<open>offsets\<close> are the stored events; \<open>fits\<close> says that an event does
  not exhaust the sequence numbers of a user.
\<close>

locale event_store =
  fixes inv :: "'d \<Rightarrow> bool" and head :: "'d \<Rightarrow> int \<Rightarrow> int" and offsets :: "'d \<Rightarrow> int set"
    and fits :: "store_Event \<Rightarrow> 'd \<Rightarrow> bool"
    and save :: "'v \<Rightarrow> store_Event \<Rightarrow> 'd \<Rightarrow> (dberr + (int \<rightharpoonup> int)) \<times> 'd" and purge :: "'p \<Rightarrow> 'd \<Rightarrow> 'd"
  assumes save_inv: "inv d \<Longrightarrow> fits e d \<Longrightarrow> save v e d = (r, d') \<Longrightarrow> inv d'"
    and save_head: "inv d \<Longrightarrow> fits e d \<Longrightarrow> save v e d = (r, d') \<Longrightarrow> head d u \<le> head d' u"
    and save_new: "inv d \<Longrightarrow> fits e d \<Longrightarrow> save v e d = (Inr m, d') \<Longrightarrow> m u = Some q \<Longrightarrow> head d u < q \<and> q \<le> head d' u"
    and save_stores: "inv d \<Longrightarrow> fits e d \<Longrightarrow> save v e d = (Inr m, d') \<Longrightarrow> se_Offset e \<in> offsets d'"
    and save_keeps: "inv d \<Longrightarrow> fits e d \<Longrightarrow> save v e d = (r, d') \<Longrightarrow> offsets d \<subseteq> offsets d'"
    and purge_inv: "inv d \<Longrightarrow> inv (purge p d)"
    and purge_head: "inv d \<Longrightarrow> head (purge p d) = head d"
begin

definition sound :: "'d storage_sys \<Rightarrow> bool" where
  "sound y \<longleftrightarrow>
     (let c = consumer y; d = es_db c in
      inv d \<and>
      (\<forall>uid. sorted_wrt (<) (chain uid (announced y) (cached c)) \<and>
         (\<forall>q \<in> set (chain uid (announced y) (cached c)). q \<le> head d uid)) \<and>
      (\<forall>m. point c \<noteq> Panicked (SeqNotBigger m)) \<and>
      set (committed c) \<subseteq> offsets d \<union> purged y \<and>
      (\<forall>msg. point c = Committing msg \<or> point c = CommitPause msg \<longrightarrow> km_Offset msg \<in> offsets d \<union> purged y) \<and>
      (\<forall>msg e. point c = Saving msg e \<or> point c = SavePause msg e \<longrightarrow> se_Offset e = km_Offset msg))"

lemma sound_frame:
  assumes "sound y" "es_db c = es_db (consumer y)" "cached c = cached (consumer y)"
    and "set (committed c) \<subseteq> offsets (es_db (consumer y)) \<union> purged y"
    and "\<And>m. point c \<noteq> Panicked (SeqNotBigger m)"
    and "\<And>msg. point c = Committing msg \<or> point c = CommitPause msg \<Longrightarrow>
      km_Offset msg \<in> offsets (es_db (consumer y)) \<union> purged y"
    and "\<And>msg e. point c = Saving msg e \<or> point c = SavePause msg e \<Longrightarrow> se_Offset e = km_Offset msg"
  shows "sound (y\<lparr>consumer := c\<rparr>)"
  using assms unfolding sound_def Let_def by simp

lemma sound_fetch:
  assumes "sound y" "point (consumer y) = Fetching"
  shows "sound (y\<lparr>consumer := on_fetch unmarshal s r now (consumer y)\<rparr>)"
  by (rule sound_frame [OF assms(1)])
    (use assms in \<open>auto simp: on_fetch_def pause_def sound_def Let_def to_event_def split: sum.splits option.splits if_splits\<close>)

lemma sound_commit:
  assumes "sound y" "point (consumer y) = Committing msg"
  shows "sound (y\<lparr>consumer := on_commit msg r (consumer y)\<rparr>)"
  by (rule sound_frame [OF assms(1)])
    (use assms in \<open>auto simp: on_commit_def pause_def sound_def Let_def split: option.splits if_splits\<close>)

lemma sound_pause:
  assumes "sound y" "on_pause i p (consumer y) = Some c"
    and "point (consumer y) = FetchPause \<and> p = Fetching \<or> point (consumer y) = SavePause msg e \<and> p = Saving msg e \<or>
      point (consumer y) = CommitPause msg \<and> p = Committing msg"
  shows "sound (y\<lparr>consumer := c\<rparr>)"
  by (rule sound_frame [OF assms(1)])
    (use assms in \<open>auto simp: on_pause_def sound_def Let_def split: input.splits\<close>)

lemma sound_db:
  assumes "sound y" "fits e (es_db (consumer y))" "save v e (es_db (consumer y)) = (r, d)"
  shows "sound (y\<lparr>consumer := (consumer y)\<lparr>es_db := d\<rparr>\<rparr>)"
proof -
  have inv: "inv (es_db (consumer y))" using assms(1) by (simp add: sound_def Let_def)
  note save = save_inv [OF inv assms(2,3)] save_head [OF inv assms(2,3)] save_keeps [OF inv assms(2,3)]
  then show ?thesis
    using assms(1) unfolding sound_def Let_def by (simp) (meson UnE UnI1 UnI2 order_trans subset_iff)
qed

lemma sound_cache:
  assumes "sound y" "\<And>uid. sorted_wrt (<) (chain uid (announced y) c)"
    and "\<And>uid q. q \<in> set (chain uid (announced y) c) \<Longrightarrow> q \<le> head (es_db (consumer y)) uid"
  shows "sound (y\<lparr>consumer := (consumer y)\<lparr>cached := c\<rparr>\<rparr>)"
  using assms unfolding sound_def Let_def by simp

lemma put_sound:
  assumes "sound y" "fits e (es_db (consumer y))" "save v e (es_db (consumer y)) = (Inr res, d)" "go_range res order"
  shows "\<exists>c. put now order res (cached (consumer y)) = Ret c \<and>
    sound (y\<lparr>consumer := (consumer y)\<lparr>es_db := d, cached := c\<rparr>\<rparr>)"
proof -
  let ?ms = "announced y" and ?c = "cached (consumer y)" and ?d = "es_db (consumer y)"
  have inv: "inv ?d" and sorted: "sorted_wrt (<) (chain uid ?ms ?c)"
    and le: "\<And>q. q \<in> set (chain uid ?ms ?c) \<Longrightarrow> q \<le> head ?d uid" for uid
    using assms(1) by (auto simp: sound_def Let_def)
  note new = save_new [OF inv assms(2,3)] and mono = save_head [OF inv assms(2,3)]
  have lt: "us_headSeq w < q" if "res uid = Some q" "ckv ?c uid = Some w" for uid q w
    using new [OF that(1)] le [of "us_headSeq w" uid] that(2) by (simp add: chain_def)
  have "\<exists>c. put now order res ?c = Ret c \<and>
      (\<forall>uid. map_option us_headSeq (ckv c uid) = (case res uid of None \<Rightarrow> map_option us_headSeq (ckv ?c uid) | Some q \<Rightarrow> Some q))"
    by (rule put_ok [OF assms(4)]) (rule lt)
  then obtain c where c1: "put now order res ?c = Ret c" and
    upd: "map_option us_headSeq (ckv c uid) = (case res uid of None \<Rightarrow> map_option us_headSeq (ckv ?c uid) | Some q \<Rightarrow> Some q)" for uid
    by blast
  have c2: "chain uid ?ms c = (case res uid of None \<Rightarrow> chain uid ?ms ?c | Some q \<Rightarrow> announces uid ?ms @ [q])" for uid
    by (rule chain_put) (rule upd)
  note c = c1 c2
  have ch: "sorted_wrt (<) (chain uid ?ms c) \<and> (\<forall>q \<in> set (chain uid ?ms c). q \<le> head d uid)" for uid
  proof (cases "res uid")
    case None
    then have "chain uid ?ms c = chain uid ?ms ?c" by (simp add: c(2))
    then show ?thesis using sorted [of uid] le [of _ uid] mono [of uid] by (simp) (meson order_trans)
  next
    case (Some q)
    have ann: "p \<le> head ?d uid" if "p \<in> set (announces uid ?ms)" for p using le that by (simp add: chain_def)
    have "sorted_wrt (<) (announces uid ?ms)" using sorted [of uid] by (simp add: chain_def sorted_wrt_append)
    moreover have "\<forall>p \<in> set (announces uid ?ms). p < q \<and> p \<le> head d uid" "q \<le> head d uid"
      using ann new [OF Some] by force+
    ultimately show ?thesis using Some by (auto simp: c(2) sorted_wrt_append)
  qed
  have "sound (y\<lparr>consumer := (consumer y)\<lparr>es_db := d\<rparr>\<rparr>)" by (rule sound_db [OF assms(1-3)])
  from sound_cache [OF this, of c] ch
  have "sound (y\<lparr>consumer := (consumer y)\<lparr>es_db := d, cached := c\<rparr>\<rparr>)" by simp
  then show ?thesis using c(1) by simp
qed

lemma sound_save:
  assumes y: "sound y" "point (consumer y) = Saving msg e" "fits e (es_db (consumer y))"
    and order: "order_ok save (SaveRun v now order) (consumer y)"
  shows "sound (y\<lparr>consumer := on_save save msg e v now order (consumer y)\<rparr>)"
proof -
  obtain r d where run: "save v e (es_db (consumer y)) = (r, d)" by force
  have inv: "inv (es_db (consumer y))" and off: "se_Offset e = km_Offset msg"
    using y(1,2) by (auto simp: sound_def Let_def)
  have y1: "sound (y\<lparr>consumer := (consumer y)\<lparr>es_db := d\<rparr>\<rparr>)" by (rule sound_db [OF y(1,3) run])
  show ?thesis
  proof (cases r)
    case (Inl err)
    have "sound (y\<lparr>consumer := (consumer y)\<lparr>es_db := d\<rparr>, consumer := on_save save msg e v now order (consumer y)\<rparr>)"
      by (rule sound_frame [OF y1])
        (use y1 y(2) off Inl run in \<open>auto simp: on_save_def pause_def sound_def Let_def split: if_splits\<close>)
    then show ?thesis by simp
  next
    case (Inr res)
    have stored: "km_Offset msg \<in> offsets d" using save_stores [OF inv y(3)] run Inr off by simp
    have "\<exists>c. (if res \<noteq> Map.empty then put now order res (cached (consumer y)) else Ret (cached (consumer y))) = Ret c \<and>
        sound (y\<lparr>consumer := (consumer y)\<lparr>es_db := d, cached := c\<rparr>\<rparr>)"
    proof (cases "res = Map.empty")
      case True
      then show ?thesis using y1 by simp
    next
      case False
      have "go_range res order" using order run Inr y(2) by (auto simp: order_ok_def)
      then show ?thesis using put_sound [OF y(1,3)] run Inr False by simp
    qed
    then obtain c where c: "(if res \<noteq> Map.empty then put now order res (cached (consumer y)) else Ret (cached (consumer y))) = Ret c"
      and y2: "sound (y\<lparr>consumer := (consumer y)\<lparr>es_db := d, cached := c\<rparr>\<rparr>)" by blast
    have eq: "on_save save msg e v now order (consumer y) =
        (consumer y)\<lparr>es_db := d, cached := c, sleep := 0, point := Committing msg\<rparr>"
      using run Inr c by (simp add: on_save_def Let_def del: split_paired_Ex)
    have "sound (y\<lparr>consumer := (consumer y)\<lparr>es_db := d, cached := c\<rparr>, consumer := on_save save msg e v now order (consumer y)\<rparr>)"
      by (rule sound_frame [OF y2]) (use y2 stored in \<open>auto simp: eq sound_def Let_def\<close>)
    then show ?thesis by simp
  qed
qed

lemma sound_step:
  assumes "storage_step unmarshal save purge offsets fits s y y'" "sound y"
  shows "sound y'"
  using assms
proof induction
  case (consume i y c)
  show ?case
  proof (cases "point (consumer y)")
    case Fetching
    then show ?thesis using consume sound_fetch by (auto simp: consume_step_def split: input.splits)
  next
    case (Saving msg e)
    then show ?thesis using consume sound_save by (auto simp: consume_step_def split: input.splits)
  next
    case (Committing msg)
    then show ?thesis using consume sound_commit by (auto simp: consume_step_def split: input.splits)
  qed (use consume sound_pause in \<open>fastforce simp: consume_step_def\<close>)+
next
  case (send clk order y m c)
  have "chain uid (announced y @ (case m of None \<Rightarrow> [] | Some x \<Rightarrow> [x])) c = chain uid (announced y) (cached (consumer y))" for uid
    by (rule chain_check [OF send(1)])
  then show ?case using send(2) unfolding sound_def Let_def by simp
next
  case (delete d p y)
  then have "inv (es_db (consumer y))" by (simp add: sound_def Let_def)
  then have "inv d" "head d = head (es_db (consumer y))" using delete(2) purge_inv purge_head by simp_all
  then show ?case using delete(3) unfolding sound_def Let_def by auto
qed

lemma sound_reach:
  assumes "storage_reach unmarshal save purge offsets fits s d0 y" "inv d0"
  shows "sound y"
  using assms
proof induction
  case run
  then show ?case by (simp add: sound_def start_consumer_def chain_def announces_def newCache_def)
next
  case (step y y')
  then show ?case using sound_step by blast
qed

lemma announced_grow:
  assumes "sound y"
  shows "sorted_wrt (<) (announces uid (announced y))"
    and "q \<in> set (announces uid (announced y)) \<Longrightarrow> q \<le> head (es_db (consumer y)) uid"
  using assms by (auto simp: sound_def Let_def chain_def sorted_wrt_append)

end

section \<open>The MySQL store keeps the contract\<close>

definition event_offsets :: "db \<Rightarrow> int set" where
  "event_offsets d = er_offset ` set (events d)"

definition fits_in :: "store_Event \<Rightarrow> db \<Rightarrow> bool" where
  "fits_in e d \<longleftrightarrow> (\<forall>u. headSeq d u + int (count_list (se_To e) u) < 2 ^ 31)"

text \<open>One round of \<^verbatim>\<open>deleteLoop\<close>, with the calendar, the clock and the faults it meets.\<close>

definition delete_round :: "mysql \<Rightarrow> storage \<Rightarrow> (int \<Rightarrow> int) \<times> int \<times> env \<Rightarrow> db \<Rightarrow> db" where
  "delete_round my s = (\<lambda>(startOfDay, now, en) d. snd (DeleteOutdatedEvents my startOfDay now en (delEventsTtlDays s) d))"

lemma Save_effect:
  assumes "Save my en e d = (r, d')" "db_inv d" "fits_in e d"
  shows "db_inv d' \<and> (d' = d \<or> event_offsets d' = insert (se_Offset e) (event_offsets d) \<and>
      headSeq d' = (\<lambda>u. headSeq d u + int (count_list (se_To e) u))) \<and>
    (\<forall>m. r = Inr m \<longrightarrow> se_Offset e \<in> event_offsets d' \<and> (\<forall>u q. m u = Some q \<longrightarrow> headSeq d u < q \<and> q = headSeq d' u))"
proof -
  have fit: "\<forall>u. headSeq d u + int (count_list (se_To e) u) < 2 ^ 31" using assms(3) by (simp add: fits_in_def)
  have inv: "db_inv d'" by (rule Save_inv [OF assms(1,2) fit])
  consider (same) "d' = d" "r \<in> range Inl"
    | (ran) m fs where "save_exec my e (d, stmt_faults en) = (Inr m, (d', fs))" "r \<in> range Inl \<or> r = Inr m"
    using assms(1) unfolding Save_def withTx_def
    by (auto split: option.splits prod.splits sum.splits commit_result.splits)
  then show ?thesis
  proof cases
    case same
    then show ?thesis using inv by auto
  next
    case (ran m fs)
    from save_exec_success [OF ran(1) assms(2) fit]
    have "if se_Offset e \<in> er_offset ` set (events d) then d' = d \<and> m = Map.empty else save_spec my e d m d'"
      by simp
    then consider (old) "d' = d" "m = Map.empty" "se_Offset e \<in> event_offsets d" | (new) "save_spec my e d m d'"
      by (auto simp: event_offsets_def split: if_splits)
    then show ?thesis
    proof cases
      case old
      then show ?thesis using inv ran(2) by auto
    next
      case new
      have "headSeq d u < q \<and> q = headSeq d' u" if "m u = Some q" for u q
      proof -
        have "u \<in> set (se_To e)" using new that by (auto simp: save_spec_def split: if_splits)
        then have "count_list (se_To e) u \<noteq> 0" by (simp add: count_list_0_iff)
        then show ?thesis using new that by (auto simp: save_spec_def split: if_splits)
      qed
      moreover have "event_offsets d' = insert (se_Offset e) (event_offsets d)"
        using new by (simp add: save_spec_def event_offsets_def)
      moreover have "headSeq d' = (\<lambda>u. headSeq d u + int (count_list (se_To e) u))" using new by (simp add: save_spec_def)
      ultimately show ?thesis using inv ran(2) by blast
    qed
  qed
qed

lemma delete_round_db:
  assumes "db_inv d"
  shows "db_inv (delete_round my s p d) \<and> headSeq (delete_round my s p d) = headSeq d"
proof -
  obtain sod now en where p: "p = (sod, now, en)" by (metis prod_cases3)
  obtain r d' where run: "DeleteOutdatedEvents my sod now en (delEventsTtlDays s) d = (r, d')" by force
  have "headSeq d' = headSeq d"
    using run unfolding DeleteOutdatedEvents_def withTx_def Let_def
    by (auto simp: bind_tx_def stmt_def cleanEventsSQL_def rowsAffected_def ret_tx_def headSeq_def Let_def fun_eq_iff
        split: option.splits prod.splits sum.splits commit_result.splits list.splits if_splits)
  then show ?thesis using run DeleteOutdatedEvents_inv [OF assms run] by (simp add: p delete_round_def)
qed

interpretation mysql_store: event_store db_inv headSeq event_offsets fits_in "Save my" "delete_round my s" for my s
proof unfold_locales
  fix d e v r d' m u q
  assume d: "db_inv d" "fits_in e d"
  show "db_inv d'" if "Save my v e d = (r, d')" using Save_effect [OF that d] by blast
  show "headSeq d u \<le> headSeq d' u" if "Save my v e d = (r, d')" using Save_effect [OF that d] by auto
  show "headSeq d u < q \<and> q \<le> headSeq d' u" if "Save my v e d = (Inr m, d')" "m u = Some q"
    using Save_effect [OF that(1) d] that(2) by auto
  show "se_Offset e \<in> event_offsets d'" if "Save my v e d = (Inr m, d')" using Save_effect [OF that d] by blast
  show "event_offsets d \<subseteq> event_offsets d'" if "Save my v e d = (r, d')" using Save_effect [OF that d] by auto
qed (simp_all add: delete_round_db)

section \<open>A run of the storage\<close>

definition sample_msg :: kafka_msg where
  "sample_msg = \<lparr>km_Offset = se_Offset sample_event, km_Time = se_CreateTime sample_event, km_Value = se_Payload sample_event\<rparr>"

definition sample_unmarshal :: "string \<Rightarrow> E2EMsg option" where
  "sample_unmarshal _ = Some \<lparr>e2e_Type = [], e2e_From = 0, e2e_To = se_To sample_event, e2e_Props = [], e2e_Body = []\<rparr>"

definition sample_storage :: storage where
  "sample_storage = newStorage True 30 4096"

abbreviation sample_reach :: "db storage_sys \<Rightarrow> bool" where
  "sample_reach \<equiv> storage_reach sample_unmarshal (Save plain_mysql) (delete_round plain_mysql sample_storage)
     event_offsets fits_in sample_storage empty_db"

lemma sample_decode:
  "decodeKafkaMsg sample_unmarshal sample_storage (km_Time sample_msg) sample_msg = sample_unmarshal (km_Value sample_msg)"
  by (simp add: decodeKafkaMsg_def sample_unmarshal_def sample_storage_def newStorage_def shouldDiscard_def
      time_since_def sample_msg_def sample_event_def i64_def hour_def second_def)

lemma sample_to_event: "to_event sample_msg (the (sample_unmarshal x)) = sample_event"
  by (simp add: to_event_def sample_msg_def sample_unmarshal_def sample_event_def)

text \<open>Fetch the message, save it, commit it, and announce it six seconds later.\<close>

lemma sample_run:
  "\<exists>y. sample_reach y \<and> committed (consumer y) = [7] \<and> announces 1 (announced y) = [2] \<and> point (consumer y) = Fetching"
proof -
  obtain m d where save: "Save plain_mysql calm sample_event empty_db = (Inr m, d)" using sample_saved by blast
  have fit: "fits_in sample_event empty_db" using sample_small by (simp add: fits_in_def)
  have eff: "save_spec plain_mysql sample_event empty_db m d"
    using save save_exec_success [OF _ db_inv_empty sample_small] sample_new by (auto simp: Save_def withTx_iff)
  then have m: "m = [1 \<mapsto> 2, 2 \<mapsto> 1]"
    by (auto simp: save_spec_def sample_event_def headSeq_def empty_db_def fun_eq_iff)
  let ?y0 = "\<lparr>consumer = start_consumer empty_db, announced = [], purged = {}\<rparr>"
  let ?c1 = "(start_consumer empty_db)\<lparr>sleep := 0, point := Saving sample_msg sample_event\<rparr>"
  let ?v = "\<lambda>q. \<lparr>us_headSeq = q, us_counter = 1, us_cacheTime = 0\<rparr>"
  let ?kv = "[1 \<mapsto> ?v 2, 2 \<mapsto> ?v 1]"
  let ?c2 = "?c1\<lparr>es_db := d, cached := \<lparr>ckv = ?kv, sending = False\<rparr>, point := Committing sample_msg\<rparr>"
  let ?c3 = "?c2\<lparr>committed := [7], point := Fetching\<rparr>"
  have "consume_step sample_unmarshal (Save plain_mysql) sample_storage (FetchMessage (Inr sample_msg) (km_Time sample_msg))
      (consumer ?y0) = Some ?c1"
    using sample_to_event by (simp add: consume_step_def start_consumer_def on_fetch_def sample_decode)
      (simp add: sample_unmarshal_def)
  then have r1: "sample_reach (?y0\<lparr>consumer := ?c1\<rparr>)"
    by (intro storage_reach.step [OF storage_reach.run storage_step.consume]) (simp_all add: start_consumer_def order_ok_def)
  have "consume_step sample_unmarshal (Save plain_mysql) sample_storage (SaveRun calm 0 [1, 2]) ?c1 = Some ?c2"
    using save by (simp add: consume_step_def on_save_def start_consumer_def put_def newCache_def m)
  moreover have "order_ok (Save plain_mysql) (SaveRun calm 0 [1, 2]) ?c1"
    using save by (auto simp: order_ok_def start_consumer_def go_range_def m split: if_splits)
  ultimately have r2: "sample_reach (?y0\<lparr>consumer := ?c2\<rparr>)"
    using storage_reach.step [OF r1 storage_step.consume, of "SaveRun calm 0 [1, 2]" ?c2] fit
    by (simp add: start_consumer_def)
  have "consume_step sample_unmarshal (Save plain_mysql) sample_storage (CommitMessages None :: env input) ?c2 = Some ?c3"
    by (simp add: consume_step_def on_commit_def start_consumer_def sample_msg_def sample_event_def)
  then have r3: "sample_reach (?y0\<lparr>consumer := ?c3\<rparr>)"
    using storage_reach.step [OF r2 storage_step.consume, of "CommitMessages None" ?c3]
    by (simp add: order_ok_def)
  have "check (\<lambda>_. 6 * second) [1, 2] \<lparr>ckv = ?kv, sending = False\<rparr> =
      (Some (empty_LeaderMsg\<lparr>lm_HeadSeq := [1 \<mapsto> 2, 2 \<mapsto> 1]\<rparr>), \<lparr>ckv = Map.empty, sending = False\<rparr>)"
    by (simp add: check_def due_def storeCacheTTL_def second_def)
  from storage_reach.step [OF r3 storage_step.send, of "\<lambda>_. 6 * second" "[1, 2]"] this
  have "sample_reach (?y0\<lparr>consumer := ?c3\<lparr>cached := \<lparr>ckv = Map.empty, sending = False\<rparr>\<rparr>,
      announced := [empty_LeaderMsg\<lparr>lm_HeadSeq := [1 \<mapsto> 2, 2 \<mapsto> 1]\<rparr>]\<rparr>)"
    by simp
  moreover have "announces 1 [empty_LeaderMsg\<lparr>lm_HeadSeq := [1 \<mapsto> 2, 2 \<mapsto> 1]\<rparr>] = [2]"
    by (simp add: announces_def empty_LeaderMsg_def)
  ultimately show ?thesis by force
qed

section \<open>Pauses\<close>

lemma go_div_pos: "0 \<le> a \<Longrightarrow> 0 < b \<Longrightarrow> go_div a b = a div b"
  by (cases "a = 0") (auto simp: go_div_def)

lemma backoff_pos:
  "0 < d \<Longrightarrow> backoff d = (if d * 3 div 2 < 60000000000 then d * 3 div 2 div 1000000 * 1000000 else 1000000000)"
  by (simp add: backoff_def go_div_pos BackoffMinInterval_def BackoffMaxInterval_def second_def millisecond_def Let_def)

lemma backoff_steps:
  shows
    "backoff 0 = 1000000000"
    "backoff 1000000000 = 1500000000"
    "backoff 1500000000 = 2250000000"
    "backoff 2250000000 = 3375000000"
    "backoff 3375000000 = 5062000000"
    "backoff 5062000000 = 7593000000"
    "backoff 7593000000 = 11389000000"
    "backoff 11389000000 = 17083000000"
    "backoff 17083000000 = 25624000000"
    "backoff 25624000000 = 38436000000"
    "backoff 38436000000 = 57654000000"
    "backoff 57654000000 = 1000000000"
  by (simp add: backoff_def BackoffMinInterval_def second_def) (simp_all add: backoff_pos)

lemma backoff_range:
  assumes "d = 0 \<or> 1000000000 \<le> d \<and> d < 60000000000"
  shows "1000000000 \<le> backoff d \<and> backoff d < 60000000000"
proof (cases "d = 0")
  case False
  then have d: "1000000000 \<le> d" "d < 60000000000" using assms by auto
  let ?e = "d * 3 div 2"
  have "1000000000 \<le> ?e" using d by linarith
  then have "1000 \<le> ?e div 1000000" by linarith
  then have "1000000000 \<le> ?e div 1000000 * 1000000" "?e div 1000000 * 1000000 \<le> ?e" by linarith+
  then show ?thesis using d by (auto simp: backoff_pos)
qed (simp add: backoff_steps)

section \<open>Properties\<close>

text \<open>C2. Whatever fails and however the loops interleave, the storage acknowledges a Kafka message only
  after its event is in the store; later only the deletion of outdated events can have
  removed it.\<close>

theorem commit_after_store:
  assumes "storage_reach unmarshal (Save my) (delete_round my s) event_offsets fits_in s d0 y" "db_inv d0"
  shows "set (committed (consumer y)) \<subseteq> event_offsets (es_db (consumer y)) \<union> purged y"
  using mysql_store.sound_reach [OF assms] by (simp add: mysql_store.sound_def Let_def)

theorem commit_after_store_witness:
  "\<exists>y. sample_reach y \<and> committed (consumer y) = [7] \<and> 7 \<in> event_offsets (es_db (consumer y)) \<union> purged y"
proof -
  obtain y where y: "sample_reach y" "committed (consumer y) = [7]" using sample_run by blast
  from commit_after_store [OF y(1) db_inv_empty] y show ?thesis by auto
qed



text \<open>C6. The panic in \<^verbatim>\<open>put\<close> for a sequence number that is not bigger than the cached one never
  happens: the store never hands out such a number.\<close>

theorem put_never_panics:
  assumes "storage_reach unmarshal (Save my) (delete_round my s) event_offsets fits_in s d0 y" "db_inv d0"
  shows "point (consumer y) \<noteq> Panicked (SeqNotBigger m)"
  using mysql_store.sound_reach [OF assms] by (simp add: mysql_store.sound_def Let_def)

theorem put_never_panics_witness:
  "\<exists>y. sample_reach y \<and> point (consumer y) \<noteq> Panicked (SeqNotBigger ''x'')"
proof -
  obtain y where y: "sample_reach y" using sample_run by blast
  from put_never_panics [OF y db_inv_empty] y show ?thesis by blast
qed

text \<open>A round of \<^verbatim>\<open>check\<close> announces exactly the due users, each with the latest number, and
  forgets exactly those; a user with at most one event per second on average, or cached
  for more than five seconds, is due, so nobody waits longer than that for the next round.\<close>

theorem check_exact:
  assumes "go_range (ckv c) order" "\<not> sending c"
  shows "\<exists>out c'. check clk order c = (if out = Map.empty then None else Some (empty_LeaderMsg\<lparr>lm_HeadSeq := out\<rparr>), c') \<and>
    out = (\<lambda>u. if is_due clk (ckv c) u then map_option us_headSeq (ckv c u) else None) \<and>
    ckv c' = (\<lambda>u. if is_due clk (ckv c) u then None else ckv c u) \<and> \<not> sending c' \<and>
    (\<forall>u v. ckv c' u = Some v \<longrightarrow> clk u - us_cacheTime v \<le> storeCacheTTL)"
proof -
  have due: "is_due clk (ckv c) u \<Longrightarrow> u \<in> set order \<and> ckv c u \<noteq> None" for u
    using assms(1) by (auto simp: is_due_def go_range_def split: option.splits)
  have out: "check_out clk order c = (\<lambda>u. if is_due clk (ckv c) u then map_option us_headSeq (ckv c u) else None)"
    using assms(2) due by (auto simp: check_out_def fun_eq_iff)
  have "(\<lambda>u. if check_out clk order c u \<noteq> None then None else ckv c u) = (\<lambda>u. if is_due clk (ckv c) u then None else ckv c u)"
    unfolding out using due by (auto simp: fun_eq_iff)
  then show ?thesis
    unfolding check_eq using assms(2) out by (auto simp: is_due_def due_def Let_def split: option.splits)
qed

theorem check_exact_witness:
  "\<exists>out c'. check (\<lambda>_. second) [1] \<lparr>ckv = [1 \<mapsto> \<lparr>us_headSeq = 4, us_counter = 3, us_cacheTime = 0\<rparr>], sending = False\<rparr> = (out, c') \<and>
     out = None"
proof -
  let ?c = "\<lparr>ckv = [1 \<mapsto> \<lparr>us_headSeq = 4, us_counter = 3, us_cacheTime = 0\<rparr>], sending = False\<rparr>"
  have "go_range (ckv ?c) [1]" "\<not> sending ?c" by (simp_all add: go_range_def)
  moreover have "\<not> is_due (\<lambda>_. second) (ckv ?c) u" for u
    by (simp add: is_due_def due_def freq_le_1_def storeCacheTTL_def second_def)
  ultimately show ?thesis using check_exact [of ?c "[1]" "\<lambda>_. second"] by auto
qed

text \<open>The pause after consecutive errors is at least one second and less than a minute. It grows to
  57.654 seconds and then starts over: the pauses repeat with period eleven.\<close>

theorem backoff_bounds:
  "BackoffMinInterval \<le> (backoff ^^ Suc n) 0 \<and> (backoff ^^ Suc n) 0 < BackoffMaxInterval \<and>
   (backoff ^^ Suc (n + 11)) 0 = (backoff ^^ Suc n) 0 \<and> (backoff ^^ 11) 0 = 57654 * millisecond"
proof -
  have bounds: "1000000000 \<le> (backoff ^^ Suc n) 0 \<and> (backoff ^^ Suc n) 0 < 60000000000"
    by (induction n) (simp_all add: backoff_steps backoff_range)
  have eleven: "11 = Suc (Suc (Suc (Suc (Suc (Suc (Suc (Suc (Suc (Suc (Suc 0))))))))))" and twelve: "12 = Suc 11" by simp_all
  have run: "(backoff ^^ 11) 0 = 57654000000" "(backoff ^^ 12) 0 = backoff 0"
    by (simp_all only: eleven twelve funpow.simps comp_def id_apply backoff_steps)
  have "(backoff ^^ Suc (n + 11)) 0 = (backoff ^^ n) ((backoff ^^ 12) 0)"
    by (simp only: funpow_add [THEN fun_cong, unfolded comp_def, symmetric]) (simp add: add.commute)
  also have "\<dots> = (backoff ^^ Suc n) 0" by (simp add: run(2) funpow_swap1)
  finally show ?thesis
    using bounds run(1) by (simp add: BackoffMinInterval_def BackoffMaxInterval_def second_def millisecond_def)
qed

text \<open>With a retention of 1 to 106751 days a message is discarded exactly if it is older than that
  many days: the multiplication does not overflow. Without deletion of events the retention
  is the largest \<^verbatim>\<open>int32\<close>; the product then wraps around, to about 166 years.\<close>

theorem discard_exact:
  assumes "\<bar>now - km_Time msg\<bar> < 2 ^ 63"
  shows "(1 \<le> days \<and> days \<le> 106751 \<longrightarrow>
      shouldDiscard (newStorage True days maxBytes) now msg = (now - km_Time msg > days * 24 * hour)) \<and>
    shouldDiscard (newStorage False days maxBytes) now msg = (now - km_Time msg > 5235207429329846272)"
proof -
  have since: "time_since now (km_Time msg) = now - km_Time msg" using assms by (simp add: time_since_def)
  have "i64 (i64 (days * 24) * hour) = days * 24 * hour" if "1 \<le> days \<and> days \<le> 106751"
  proof -
    have "is_i64 (days * 24)" "is_i64 (days * 24 * hour)"
      using that by (auto simp: is_i64_def hour_def second_def)
    then show ?thesis by simp
  qed
  moreover have "i64 (i64 (MaxInt32 * 24) * hour) = 5235207429329846272"
    by (simp add: MaxInt32_def i64_def hour_def second_def)
  ultimately show ?thesis by (auto simp: shouldDiscard_def newStorage_def since MaxInt32_def)
qed

theorem discard_exact_witness:
  "shouldDiscard (newStorage True 30 4096) (km_Time sample_msg + 31 * 24 * hour) sample_msg"
  using discard_exact [of "km_Time sample_msg + 31 * 24 * hour" sample_msg 30 4096] by (simp add: hour_def second_def)

text \<open>C40. An event whose commit took effect although its answer was lost is never announced: every
  later attempt to save it finds the event stored and returns no head sequences, although
  those of the recipients have moved.\<close>

theorem lost_commit_unannounced:
  assumes "Save my en e d = (Inl err, d')" "d' \<noteq> d" "db_inv d" "fits_in e d"
  shows "(\<forall>en2 r d2. Save my en2 e d' = (r, d2) \<longrightarrow> d2 = d' \<and> (r \<in> range Inl \<or> r = Inr Map.empty)) \<and>
    (\<forall>u \<in> set (se_To e). headSeq d u < headSeq d' u)"
proof -
  have eff: "event_offsets d' = insert (se_Offset e) (event_offsets d)"
      "headSeq d' = (\<lambda>u. headSeq d u + int (count_list (se_To e) u))"
    using Save_effect [OF assms(1,3,4)] assms(2) by auto
  then have "se_Offset e \<in> er_offset ` set (events d')" by (auto simp: event_offsets_def)
  then have "d2 = d' \<and> (r \<in> range Inl \<or> r = Inr Map.empty)" if "Save my en2 e d' = (r, d2)" for en2 r d2
    using Save_present [OF that] by (cases r) auto
  moreover have "headSeq d u < headSeq d' u" if "u \<in> set (se_To e)" for u
  proof -
    have "count_list (se_To e) u \<noteq> 0" using that by (simp add: count_list_0_iff)
    then show ?thesis by (simp add: eff)
  qed
  ultimately show ?thesis by blast
qed

theorem lost_commit_unannounced_witness:
  "\<exists>err d'. Save plain_mysql (calm\<lparr>commit_result := CommitLost Canceled\<rparr>) sample_event empty_db = (Inl err, d') \<and>
     headSeq empty_db 1 < headSeq d' 1"
proof -
  let ?en = "calm\<lparr>commit_result := CommitLost Canceled\<rparr>"
  obtain m d' where run: "Save plain_mysql calm sample_event empty_db = (Inr m, d')" using sample_saved by blast
  then have lost: "Save plain_mysql ?en sample_event empty_db = (Inl Canceled, d')"
    by (auto simp: Save_def withTx_def calm_def split: prod.splits sum.splits)
  have fit: "fits_in sample_event empty_db" using sample_small by (simp add: fits_in_def)
  have "se_Offset sample_event \<in> event_offsets d'" using Save_effect [OF run db_inv_empty fit] by blast
  then have "d' \<noteq> empty_db" using sample_new by (auto simp: event_offsets_def)
  from lost_commit_unannounced [OF lost this db_inv_empty fit] lost show ?thesis by (auto simp: sample_event_def)
qed

text \<open>\<^verbatim>\<open>check\<close> walks through the cache without its lock. If \<^verbatim>\<open>put\<close> stores a newer number
  of a user between the reading and the deletion of the user's entry, the newer number is lost:
  the older one is announced and the entry is gone.\<close>

theorem check_race_loses:
  assumes "go_range data order" "ckv c uid = Some v" "data uid = Some q"
    and "\<forall>u n w. data u = Some n \<longrightarrow> ckv c u = Some w \<longrightarrow> us_headSeq w < n"
  shows "\<exists>c'. check_raced now order data uid c = Ret (Some (us_headSeq v), c') \<and> us_headSeq v < q \<and> ckv c' uid = None"
proof -
  have "\<exists>c1. put now order data c = Ret c1 \<and>
      (\<forall>u. map_option us_headSeq (ckv c1 u) = (case data u of None \<Rightarrow> map_option us_headSeq (ckv c u) | Some q \<Rightarrow> Some q))"
    by (rule put_ok [OF assms(1)]) (use assms(4) in blast)
  then obtain c1 where "put now order data c = Ret c1" by blast
  then show ?thesis using assms(2-4) by (simp add: check_raced_def)
qed

theorem check_race_loses_witness:
  "\<exists>c'. check_raced 5 [1] [1 \<mapsto> 9] 1 \<lparr>ckv = [1 \<mapsto> \<lparr>us_headSeq = 8, us_counter = 1, us_cacheTime = 0\<rparr>], sending = True\<rparr> =
     Ret (Some 8, c') \<and> ckv c' 1 = None"
  using check_race_loses [of "[1 \<mapsto> 9]" "[1]" "\<lparr>ckv = [1 \<mapsto> \<lparr>us_headSeq = 8, us_counter = 1, us_cacheTime = 0\<rparr>], sending = True\<rparr>" 1
      "\<lparr>us_headSeq = 8, us_counter = 1, us_cacheTime = 0\<rparr>" 9 5]
  by (auto simp: go_range_def split: if_splits)

end
