(* ===== verification/Sessions.thy ===== *)
theory Sessions
  imports Messages "HOL-Library.Multiset"
begin

text \<open>
  \<^verbatim>\<open>cluster/sessionstore.go\<close>: the leader's table of the sessions of all hubs.

  The Go code keeps pointers to sessions in the table, hands the same pointers out in the
  map of sessions to kick off, and \<^verbatim>\<open>pushServer.kickoff\<close> later writes the kickoff
  time through them. The model therefore has an explicit heap, a list of sessions whose
  indices are the addresses; a session that arrives in a message is a new cell.

  Shown here: the invariant of the table under every operation, that the table refines a
  plain map from hub and session id to sessions (an interface shared with the standalone
  server), that a user over the quota loses the oldest sessions and exactly as many as
  needed, and what \<^verbatim>\<open>gc\<close> deletes and returns.
\<close>

section \<open>The session table\<close>

record SessionStore =
  heap :: "Session list"
  kv :: "hub_id \<rightharpoonup> (sid \<rightharpoonup> nat)"

definition deleteSinceKickoffTTL :: int where
  "deleteSinceKickoffTTL = 60"

definition newSessionStore :: SessionStore where
  "newSessionStore = \<lparr>heap = [], kv = Map.empty\<rparr>"

definition empty_store :: "SessionStore \<Rightarrow> SessionStore" where
  "empty_store s = s\<lparr>kv := Map.empty\<rparr>"

text \<open>A decoded message brings a session of its own.\<close>

definition alloc :: "Session \<Rightarrow> SessionStore \<Rightarrow> nat \<times> SessionStore" where
  "alloc x s = (length (heap s), s\<lparr>heap := heap s @ [x]\<rparr>)"

definition hub_map :: "hub_id \<Rightarrow> SessionStore \<Rightarrow> sid \<rightharpoonup> nat" where
  "hub_map hubId s = (case kv s hubId of Some v \<Rightarrow> v | None \<Rightarrow> Map.empty)"

definition add :: "hub_id \<Rightarrow> nat \<Rightarrow> SessionStore \<Rightarrow> SessionStore" where
  "add hubId p s =
     (let v = hub_map hubId s;
          sess = (heap s ! p)\<lparr>ses_HubId := hubId\<rparr>
      in s\<lparr>heap := (heap s)[p := sess], kv := (kv s)(hubId \<mapsto> v(ses_Sid sess \<mapsto> p))\<rparr>)"

fun addMany_loop :: "hub_id \<Rightarrow> nat list \<Rightarrow> Session list \<times> (sid \<rightharpoonup> nat) \<Rightarrow> Session list \<times> (sid \<rightharpoonup> nat)" where
  "addMany_loop hubId [] (hp, v) = (hp, v)"
| "addMany_loop hubId (p # ps) (hp, v) =
     (let sess = (hp ! p)\<lparr>ses_HubId := hubId\<rparr>
      in addMany_loop hubId ps (hp[p := sess], v(ses_Sid sess \<mapsto> p)))"

definition addMany :: "hub_id \<Rightarrow> nat list \<Rightarrow> SessionStore \<Rightarrow> SessionStore" where
  "addMany hubId sl s =
     (let (hp, v) = addMany_loop hubId sl (heap s, hub_map hubId s)
      in s\<lparr>heap := hp, kv := (kv s)(hubId \<mapsto> v)\<rparr>)"

definition del :: "hub_id \<Rightarrow> sid \<Rightarrow> SessionStore \<Rightarrow> SessionStore" where
  "del hubId sid s =
     (case kv s hubId of
        Some v \<Rightarrow> s\<lparr>kv := (kv s)(hubId \<mapsto> v(sid := None))\<rparr>
      | None \<Rightarrow> s)"

section \<open>Sessions over the quota\<close>

text \<open>
  The code that picks the sessions to kick off is the same in \<^verbatim>\<open>sessionstore.go\<close> and
  \<^verbatim>\<open>standalone.go\<close>: nothing while the quota holds, else the oldest ones. A negative
  quota would make the slice expression panic.
\<close>

definition kick_slice :: "Session list \<Rightarrow> int \<Rightarrow> nat list \<Rightarrow> nat list outcome" where
  "kick_slice hp quota sl =
     (let n = int (length sl) - quota in
      if n \<le> 0 then Ret []
      else go_slice (sort_key (\<lambda>p. ses_CreateTime (hp ! p)) sl) 0 (nat n))"

text \<open>The nested range loop over hubs and their sessions.\<close>

definition all_ptrs :: "hub_id list \<Rightarrow> (hub_id \<Rightarrow> sid list) \<Rightarrow> (hub_id \<rightharpoonup> (sid \<rightharpoonup> nat)) \<Rightarrow> nat list" where
  "all_ptrs hubs sids m = concat (map (\<lambda>(h, v). map snd (entries v (sids h))) (entries m hubs))"

text \<open>\<^verbatim>\<open>kickoff[sess.Sid] = sess\<close> for each session of a slice.\<close>

fun by_sid :: "Session list \<Rightarrow> nat list \<Rightarrow> (sid \<rightharpoonup> nat) \<Rightarrow> (sid \<rightharpoonup> nat)" where
  "by_sid hp [] m = m"
| "by_sid hp (p # ps) m = by_sid hp ps (m(ses_Sid (hp ! p) \<mapsto> p))"

definition getUserSessionsToKickoff ::
    "hub_id list \<Rightarrow> (hub_id \<Rightarrow> sid list) \<Rightarrow> int \<Rightarrow> int \<Rightarrow> SessionStore \<Rightarrow> (sid \<rightharpoonup> nat) outcome" where
  "getUserSessionsToKickoff hubs sids uid quota s =
     (let sl = filter (\<lambda>p. ses_Uid (heap s ! p) = uid) (all_ptrs hubs sids (kv s)) in
      bind_out (kick_slice (heap s) quota sl) (\<lambda>ps. Ret (by_sid (heap s) ps Map.empty)))"

section \<open>Garbage collection\<close>

definition expired :: "int \<Rightarrow> Session \<Rightarrow> bool" where
  "expired now sess \<longleftrightarrow>
     ses_KickoffTime sess > 0 \<and> now > i64 (ses_KickoffTime sess + deleteSinceKickoffTTL)"

fun gc_hub :: "int \<Rightarrow> Session list \<Rightarrow> sid list \<Rightarrow> (sid \<rightharpoonup> nat) \<Rightarrow> (sid \<rightharpoonup> nat)" where
  "gc_hub now hp [] v = v"
| "gc_hub now hp (sid # sids) v =
     (case v sid of
        None \<Rightarrow> gc_hub now hp sids v
      | Some p \<Rightarrow> gc_hub now hp sids (if expired now (hp ! p) then v(sid := None) else v))"

fun gc_sweep :: "int \<Rightarrow> Session list \<Rightarrow> hub_id set \<Rightarrow> (hub_id \<Rightarrow> sid list) \<Rightarrow> hub_id list \<Rightarrow>
    (hub_id \<rightharpoonup> (sid \<rightharpoonup> nat)) \<Rightarrow> (hub_id \<rightharpoonup> (sid \<rightharpoonup> nat))" where
  "gc_sweep now hp live sids [] m = m"
| "gc_sweep now hp live sids (k # hubs) m =
     (case m k of
        None \<Rightarrow> gc_sweep now hp live sids hubs m
      | Some v \<Rightarrow>
          gc_sweep now hp live sids hubs
            (if k \<notin> live then m(k := None) else m(k \<mapsto> gc_hub now hp (sids k) v)))"

text \<open>\<^verbatim>\<open>userSessions[uid] = append(userSessions[uid], sess)\<close>.\<close>

fun group_by_uid :: "Session list \<Rightarrow> nat list \<Rightarrow> (int \<rightharpoonup> nat list) \<Rightarrow> (int \<rightharpoonup> nat list)" where
  "group_by_uid hp [] m = m"
| "group_by_uid hp (p # ps) m =
     (let uid = ses_Uid (hp ! p);
          old = (case m uid of None \<Rightarrow> [] | Some xs \<Rightarrow> xs)
      in group_by_uid hp ps (m(uid \<mapsto> old @ [p])))"

fun gc_kickoff :: "Session list \<Rightarrow> int \<Rightarrow> nat list list \<Rightarrow> (sid \<rightharpoonup> nat) \<Rightarrow> (sid \<rightharpoonup> nat) outcome" where
  "gc_kickoff hp quota [] kickoff = Ret kickoff"
| "gc_kickoff hp quota (sl # slices) kickoff =
     bind_out (kick_slice hp quota sl) (\<lambda>ps. gc_kickoff hp quota slices (by_sid hp ps kickoff))"

text \<open>The orders in which the range loops of one call of \<^verbatim>\<open>gc\<close> visit their maps.\<close>

record gc_order =
  sweep_hubs :: "hub_id list"
  sweep_sids :: "hub_id \<Rightarrow> sid list"
  group_hubs :: "hub_id list"
  group_sids :: "hub_id \<Rightarrow> sid list"
  kick_uids :: "int list"

definition gc :: "gc_order \<Rightarrow> int \<Rightarrow> hub_id set \<Rightarrow> int \<Rightarrow> SessionStore \<Rightarrow> (sid \<rightharpoonup> nat) outcome \<times> SessionStore" where
  "gc ord now liveHubIds quota s =
     (let m = gc_sweep now (heap s) liveHubIds (sweep_sids ord) (sweep_hubs ord) (kv s);
          s' = s\<lparr>kv := m\<rparr>;
          userSessions = group_by_uid (heap s) (all_ptrs (group_hubs ord) (group_sids ord) m) Map.empty
      in (gc_kickoff (heap s) quota (map snd (entries userSessions (kick_uids ord))) Map.empty, s'))"

section \<open>The invariant and the abstract table\<close>

definition ss_inv :: "SessionStore \<Rightarrow> bool" where
  "ss_inv s \<longleftrightarrow>
     (\<forall>h sid p. hub_map h s sid = Some p \<longrightarrow>
        p < length (heap s) \<and> ses_Sid (heap s ! p) = sid \<and> ses_HubId (heap s ! p) = h) \<and>
     finite (dom (kv s)) \<and> (\<forall>h. finite (dom (hub_map h s)))"

definition sview :: "SessionStore \<Rightarrow> hub_id \<times> sid \<rightharpoonup> Session" where
  "sview s = (\<lambda>(h, sid). map_option ((!) (heap s)) (hub_map h s sid))"

lemma ss_invD:
  assumes "ss_inv s" "hub_map h s sid = Some p"
  shows "p < length (heap s)" "ses_Sid (heap s ! p) = sid" "ses_HubId (heap s ! p) = h"
  using assms by (auto simp: ss_inv_def)

lemma ss_inv_new: "ss_inv newSessionStore"
  by (simp add: ss_inv_def newSessionStore_def hub_map_def)

lemma hub_map_upd [simp]:
  "hub_map h (s\<lparr>heap := hp, kv := (kv s)(h' \<mapsto> v)\<rparr>) = (if h = h' then v else hub_map h s)"
  "hub_map h (s\<lparr>kv := (kv s)(h' \<mapsto> v)\<rparr>) = (if h = h' then v else hub_map h s)"
  "hub_map h (s\<lparr>heap := hp\<rparr>) = hub_map h s"
  by (auto simp: hub_map_def)

lemma hub_map_empty [simp]: "hub_map h (empty_store s) = Map.empty"
  by (simp add: hub_map_def empty_store_def)

lemma ss_inv_empty: "ss_inv (empty_store s)"
  by (simp add: ss_inv_def) (simp add: empty_store_def)

lemma hub_map_None: "kv s h = None \<Longrightarrow> hub_map h s = Map.empty"
  by (simp add: hub_map_def)

lemma hub_map_Some: "kv s h = Some v \<Longrightarrow> hub_map h s = v"
  by (simp add: hub_map_def)

lemma hub_map_del: "hub_map h (del h' sid s) = (if h = h' then (hub_map h s)(sid := None) else hub_map h s)"
  by (auto simp: del_def hub_map_None hub_map_Some split: option.splits)

lemma heap_del [simp]: "heap (del h sid s) = heap s"
  by (simp add: del_def split: option.splits)

lemma del_inv: "ss_inv s \<Longrightarrow> ss_inv (del h sid s)"
  unfolding ss_inv_def hub_map_del heap_del
  by (auto simp: del_def split: option.splits)

lemma del_view: "sview (del h sid s) = (sview s)((h, sid) := None)"
  by (auto simp: sview_def hub_map_del fun_eq_iff)

text \<open>A cell that no entry of the table points to.\<close>

definition fresh :: "SessionStore \<Rightarrow> nat \<Rightarrow> bool" where
  "fresh s p \<longleftrightarrow> p < length (heap s) \<and> (\<forall>h sid. hub_map h s sid \<noteq> Some p)"

lemma add_fields:
  "heap (add h p s) = (heap s)[p := (heap s ! p)\<lparr>ses_HubId := h\<rparr>]"
  "hub_map h' (add h p s) =
     (if h' = h then (hub_map h s)(ses_Sid (heap s ! p) \<mapsto> p) else hub_map h' s)"
  by (auto simp: add_def Let_def)

lemma add_fresh:
  assumes "ss_inv s" "fresh s p"
  shows add_inv: "ss_inv (add h p s)"
    and add_view: "sview (add h p s) =
      (sview s)((h, ses_Sid (heap s ! p)) \<mapsto> (heap s ! p)\<lparr>ses_HubId := h\<rparr>)"
proof -
  have old: "q < length (heap s) \<and> q \<noteq> p \<and> ses_Sid (heap s ! q) = sid \<and> ses_HubId (heap s ! q) = h'"
    if "hub_map h' s sid = Some q" for h' sid q
    using that assms by (auto simp: ss_inv_def fresh_def)
  have fin: "finite (dom (kv (add h p s)))" "finite (dom (hub_map h' (add h p s)))" for h'
    using assms(1) by (simp_all add: ss_inv_def add_fields) (simp add: add_def Let_def)
  show "ss_inv (add h p s)"
    unfolding ss_inv_def using fin assms(2)
    by (auto simp: add_fields fresh_def nth_list_update dest: old split: if_splits)
  show "sview (add h p s) = (sview s)((h, ses_Sid (heap s ! p)) \<mapsto> (heap s ! p)\<lparr>ses_HubId := h\<rparr>)"
    using assms(2) by (auto simp: sview_def add_fields fresh_def fun_eq_iff nth_list_update map_option_case
        dest: old split: option.splits)
qed

lemma add_keeps_fresh: "fresh s q \<Longrightarrow> q \<noteq> p \<Longrightarrow> fresh (add h p s) q \<and> heap (add h p s) ! q = heap s ! q"
  by (auto simp: fresh_def add_fields)

lemma addMany_Cons: "addMany h (p # ps) s = addMany h ps (add h p s)"
  by (simp add: addMany_def add_def Let_def)

lemma addMany_Nil: "addMany h [] s = s\<lparr>kv := (kv s)(h \<mapsto> hub_map h s)\<rparr>"
  by (simp add: addMany_def)

lemma addMany_fresh:
  assumes "ss_inv s" "distinct ps" "\<forall>p \<in> set ps. fresh s p"
  shows "ss_inv (addMany h ps s) \<and> sview (addMany h ps s) =
    fold (\<lambda>x m. m((h, ses_Sid x) \<mapsto> x\<lparr>ses_HubId := h\<rparr>)) (map ((!) (heap s)) ps) (sview s)"
  using assms
proof (induction ps arbitrary: s)
  case Nil
  have "hub_map h' (addMany h [] s) = hub_map h' s" for h'
    by (simp add: addMany_Nil)
  then show ?case
    using Nil.prems(1) by (simp add: ss_inv_def sview_def) (simp add: addMany_Nil)
next
  case (Cons p ps)
  from Cons.prems have p: "fresh s p" by simp
  have "\<forall>q \<in> set ps. fresh (add h p s) q \<and> heap (add h p s) ! q = heap s ! q"
    using Cons.prems(2,3) by (metis add_keeps_fresh distinct.simps(2) list.set_intros(2))
  then have ps: "\<forall>q \<in> set ps. fresh (add h p s) q"
    and same: "map ((!) (heap (add h p s))) ps = map ((!) (heap s)) ps" by auto
  show ?case
    unfolding addMany_Cons
    using Cons.IH [OF add_inv [OF Cons.prems(1) p] _ ps] Cons.prems(2) same
    by (simp add: add_view [OF Cons.prems(1) p])
qed

text \<open>Decoding a message and entering its sessions into the table.\<close>

definition online :: "hub_id \<Rightarrow> Session \<Rightarrow> SessionStore \<Rightarrow> SessionStore" where
  "online hubId x s = (let (p, s') = alloc x s in add hubId p s')"

definition sync_sessions :: "hub_id \<Rightarrow> Session list \<Rightarrow> SessionStore \<Rightarrow> SessionStore" where
  "sync_sessions hubId xs s =
     addMany hubId [length (heap s) ..< length (heap s) + length xs] (s\<lparr>heap := heap s @ xs\<rparr>)"

lemma extend_heap:
  assumes "ss_inv s"
  shows "ss_inv (s\<lparr>heap := heap s @ xs\<rparr>)" "sview (s\<lparr>heap := heap s @ xs\<rparr>) = sview s"
    "\<forall>p \<in> set [length (heap s) ..< length (heap s) + length xs]. fresh (s\<lparr>heap := heap s @ xs\<rparr>) p"
proof -
  have old: "p < length (heap s)" if "hub_map h s sid = Some p" for h sid p
    using assms that by (rule ss_invD)
  show "ss_inv (s\<lparr>heap := heap s @ xs\<rparr>)"
    using assms by (fastforce simp: ss_inv_def nth_append)
  show "sview (s\<lparr>heap := heap s @ xs\<rparr>) = sview s"
    by (auto simp: sview_def fun_eq_iff nth_append map_option_case dest: old split: option.splits)
  show "\<forall>p \<in> set [length (heap s) ..< length (heap s) + length xs]. fresh (s\<lparr>heap := heap s @ xs\<rparr>) p"
    by (auto simp: fresh_def dest: old)
qed

lemma online_fresh:
  assumes "ss_inv s"
  shows "ss_inv (online h x s) \<and>
    sview (online h x s) = (sview s)((h, ses_Sid x) \<mapsto> x\<lparr>ses_HubId := h\<rparr>)"
  using add_fresh [OF extend_heap(1) [OF assms], of "[x]" "length (heap s)" h]
    extend_heap(2,3) [OF assms, of "[x]"]
  by (simp add: online_def alloc_def)

lemma map_nth_new: "map ((!) (xs @ ys)) [length xs ..< length xs + length ys] = ys"
  by (rule nth_equalityI) (auto simp: nth_append)

lemma sync_sessions_fresh:
  assumes "ss_inv s"
  shows "ss_inv (sync_sessions h xs s) \<and> sview (sync_sessions h xs s) =
    fold (\<lambda>x m. m((h, ses_Sid x) \<mapsto> x\<lparr>ses_HubId := h\<rparr>)) xs (sview s)"
  using addMany_fresh [OF extend_heap(1) [OF assms] _ extend_heap(3) [OF assms, of xs], of h]
  by (simp add: sync_sessions_def extend_heap(2) [OF assms] map_nth_new)

lemma finite_dom_sview: "ss_inv s \<Longrightarrow> finite (dom (sview s))"
proof -
  assume inv: "ss_inv s"
  have "dom (sview s) \<subseteq> (SIGMA h : dom (kv s). dom (hub_map h s))"
    by (auto simp: sview_def hub_map_def split: option.splits)
  moreover have "finite (SIGMA h : dom (kv s). dom (hub_map h s))"
    using inv by (auto simp: ss_inv_def)
  ultimately show ?thesis by (rule finite_subset)
qed

section \<open>The interface of a session table\<close>

text \<open>
  What the leader and the standalone server rely on: a table is a map from keys to sessions
  that an arriving session, a batch of sessions and a departure update in the obvious way.
\<close>

datatype ('h, 'k) table_op = Online 'h Session | Offline 'k | Sync 'h "Session list"

locale session_table =
  fixes inv :: "'s \<Rightarrow> bool" and view :: "'s \<Rightarrow> 'k \<rightharpoonup> Session"
    and arrive :: "'h \<Rightarrow> Session \<Rightarrow> 's \<Rightarrow> 's" and arrive_all :: "'h \<Rightarrow> Session list \<Rightarrow> 's \<Rightarrow> 's"
    and depart :: "'k \<Rightarrow> 's \<Rightarrow> 's"
    and key :: "'h \<Rightarrow> Session \<Rightarrow> 'k" and stored :: "'h \<Rightarrow> Session \<Rightarrow> Session"
  assumes arrive_inv: "inv s \<Longrightarrow> inv (arrive h x s)"
    and arrive_view: "inv s \<Longrightarrow> view (arrive h x s) = (view s)(key h x \<mapsto> stored h x)"
    and arrive_all_inv: "inv s \<Longrightarrow> inv (arrive_all h xs s)"
    and arrive_all_view: "inv s \<Longrightarrow>
      view (arrive_all h xs s) = fold (\<lambda>x m. m(key h x \<mapsto> stored h x)) xs (view s)"
    and depart_inv: "inv s \<Longrightarrow> inv (depart k s)"
    and depart_view: "inv s \<Longrightarrow> view (depart k s) = (view s)(k := None)"
    and view_finite: "inv s \<Longrightarrow> finite (dom (view s))"
begin

primrec exec :: "('h, 'k) table_op \<Rightarrow> 's \<Rightarrow> 's" where
  "exec (Online h x) s = arrive h x s"
| "exec (Offline k) s = depart k s"
| "exec (Sync h xs) s = arrive_all h xs s"

primrec abs_exec :: "('h, 'k) table_op \<Rightarrow> ('k \<rightharpoonup> Session) \<Rightarrow> ('k \<rightharpoonup> Session)" where
  "abs_exec (Online h x) m = m(key h x \<mapsto> stored h x)"
| "abs_exec (Offline k) m = m(k := None)"
| "abs_exec (Sync h xs) m = fold (\<lambda>x m. m(key h x \<mapsto> stored h x)) xs m"

lemma exec_refines: "inv s \<Longrightarrow> inv (exec c s) \<and> view (exec c s) = abs_exec c (view s)"
  by (cases c) (simp_all add: arrive_inv arrive_view arrive_all_inv arrive_all_view depart_inv depart_view)

lemma run_refines: "inv s \<Longrightarrow> inv (fold exec cs s) \<and> view (fold exec cs s) = fold abs_exec cs (view s)"
  by (induction cs arbitrary: s) (auto simp: exec_refines)

lemma gone_after_depart: "inv s \<Longrightarrow> view (depart k (fold exec cs s)) k = None"
  by (simp add: run_refines depart_view)

lemma resync_absorbs:
  assumes "inv s" "x \<in> set xs" "inj_on (key h) (set xs)"
  shows "view (arrive_all h xs s) (key h x) = Some (stored h x)"
proof -
  have "fold (\<lambda>x m. m(key h x \<mapsto> stored h x)) ys m (key h x) =
      (if x \<in> set ys then Some (stored h x) else m (key h x))" if "set ys \<subseteq> set xs" for ys m
    using that by (induction ys arbitrary: m) (use assms(2,3) in \<open>auto simp: inj_on_def\<close>)
  then show ?thesis using assms by (simp add: arrive_all_view)
qed

lemma batches: "inv s \<Longrightarrow>
    view (fold (arrive_all h) xss s) = view (arrive_all h (concat xss) s) \<and> inv (fold (arrive_all h) xss s)"
  by (induction xss arbitrary: s) (simp_all add: arrive_all_inv arrive_all_view)

end

interpretation leader_table: session_table ss_inv sview online sync_sessions "\<lambda>(h, sid). del h sid"
    "\<lambda>h x. (h, ses_Sid x)" "\<lambda>h x. x\<lparr>ses_HubId := h\<rparr>"
  by unfold_locales
    (auto simp: online_fresh sync_sessions_fresh del_inv del_view finite_dom_sview split: prod.splits)

section \<open>Choosing the sessions to kick off\<close>

definition kicked :: "Session list \<Rightarrow> int \<Rightarrow> nat list \<Rightarrow> nat list" where
  "kicked hp quota ps = take (length ps - nat quota) (sort_key (\<lambda>p. ses_CreateTime (hp ! p)) ps)"

lemma kick_slice_kicked: "0 \<le> quota \<Longrightarrow> kick_slice hp quota ps = Ret (kicked hp quota ps)"
  by (auto simp: kick_slice_def kicked_def go_slice_def Let_def intro!: arg_cong [where f = "\<lambda>n. take n _"])

lemma kicked_subset: "set (kicked hp quota ps) \<subseteq> set ps"
  unfolding kicked_def by (metis set_sort set_take_subset)

lemma kicked_card: "distinct ps \<Longrightarrow> card (set (kicked hp quota ps)) = card (set ps) - nat quota"
  by (simp add: kicked_def distinct_card)

lemma kicked_oldest:
  assumes "p \<in> set (kicked hp quota ps)" "q \<in> set ps" "q \<notin> set (kicked hp quota ps)"
  shows "ses_CreateTime (hp ! p) \<le> ses_CreateTime (hp ! q)"
proof -
  let ?n = "length ps - nat quota" and ?l = "sort_key (\<lambda>p. ses_CreateTime (hp ! p)) ps"
  have "q \<in> set (take ?n ?l @ drop ?n ?l)" using assms(2) by (simp only: append_take_drop_id set_sort)
  then have q: "q \<in> set (drop ?n ?l)" using assms(3) unfolding kicked_def set_append by blast
  have "sorted (map (\<lambda>p. ses_CreateTime (hp ! p)) (take ?n ?l @ drop ?n ?l))"
    by (simp only: append_take_drop_id sorted_sort_key)
  then show ?thesis
    using assms(1) q by (auto simp only: kicked_def map_append sorted_append set_map)
qed

lemma by_sid_Some:
  "inj_on (\<lambda>p. ses_Sid (hp ! p)) (set ps) \<Longrightarrow> by_sid hp ps m sid = Some p \<longleftrightarrow>
     p \<in> set ps \<and> ses_Sid (hp ! p) = sid \<or> (\<forall>q \<in> set ps. ses_Sid (hp ! q) \<noteq> sid) \<and> m sid = Some p"
  by (induction ps arbitrary: m) (auto simp: inj_on_def)

lemma by_sid_empty:
  "inj_on (\<lambda>p. ses_Sid (hp ! p)) (set ps) \<Longrightarrow>
     by_sid hp ps Map.empty sid = Some p \<longleftrightarrow> p \<in> set ps \<and> ses_Sid (hp ! p) = sid"
  by (simp add: by_sid_Some)

lemma ran_by_sid: "inj_on (\<lambda>p. ses_Sid (hp ! p)) (set ps) \<Longrightarrow> ran (by_sid hp ps Map.empty) = set ps"
  by (auto simp: ran_def by_sid_empty)

text \<open>The orders a nested range loop may take, and what it visits.\<close>

definition orders_ok :: "hub_id list \<Rightarrow> (hub_id \<Rightarrow> sid list) \<Rightarrow> (hub_id \<rightharpoonup> (sid \<rightharpoonup> nat)) \<Rightarrow> bool" where
  "orders_ok hubs sids m \<longleftrightarrow> go_range m hubs \<and> (\<forall>h v. m h = Some v \<longrightarrow> go_range v (sids h))"

definition ptrs :: "SessionStore \<Rightarrow> nat set" where
  "ptrs s = {p. \<exists>h sid. hub_map h s sid = Some p}"

definition user_ptrs :: "int \<Rightarrow> SessionStore \<Rightarrow> nat set" where
  "user_ptrs uid s = {p \<in> ptrs s. ses_Uid (heap s ! p) = uid}"

lemma set_all_ptrs:
  assumes "orders_ok hubs sids (kv s)"
  shows "set (all_ptrs hubs sids (kv s)) = ptrs s"
proof -
  have "set (all_ptrs hubs sids (kv s)) = {p. \<exists>h v sid. kv s h = Some v \<and> v sid = Some p}"
    using assms by (force simp: all_ptrs_def orders_ok_def set_entries_range)
  also have "\<dots> = ptrs s"
    by (fastforce simp: ptrs_def hub_map_def split: option.splits)
  finally show ?thesis .
qed

lemma distinct_ptrs_of_hub:
  assumes "distinct ks" "inj_on v (dom v)"
  shows "distinct (map snd (entries v ks))"
proof -
  have "a = b" if "v a = Some p" "v b = Some p" for a b p
    using assms(2) that by (metis domI inj_onD)
  then show ?thesis
    using assms(1) by (force simp: distinct_map distinct_entries set_entries intro!: inj_onI)
qed

lemma distinct_all_ptrs:
  assumes "ss_inv s" "orders_ok hubs sids (kv s)"
  shows "distinct (all_ptrs hubs sids (kv s))"
proof -
  have sub: "distinct hs \<Longrightarrow> set hs \<subseteq> dom (kv s) \<Longrightarrow>
     distinct (all_ptrs hs sids (kv s)) \<and> (\<forall>p \<in> set (all_ptrs hs sids (kv s)). ses_HubId (heap s ! p) \<in> set hs)" for hs
  proof (induction hs)
    case Nil
    show ?case by (simp add: all_ptrs_def)
  next
    case (Cons h hs)
    then obtain v where v: "kv s h = Some v" by auto
    have hv: "p < length (heap s) \<and> ses_Sid (heap s ! p) = sid \<and> ses_HubId (heap s ! p) = h" if "v sid = Some p" for sid p
      using ss_invD [OF assms(1), of h sid p] that v by (simp add: hub_map_Some)
    have "inj_on v (dom v)" by (rule inj_onI) (metis domD hv)
    then have "distinct (map snd (entries v (sids h)))"
      using assms(2) v by (auto simp: orders_ok_def go_range_def intro: distinct_ptrs_of_hub)
    moreover have "\<forall>p \<in> set (map snd (entries v (sids h))). ses_HubId (heap s ! p) = h"
      using hv by (auto simp: set_entries)
    moreover have "all_ptrs (h # hs) sids (kv s) = map snd (entries v (sids h)) @ all_ptrs hs sids (kv s)"
      by (simp add: all_ptrs_def v)
    ultimately show ?case using Cons by fastforce
  qed
  show ?thesis using sub [of hubs] assms(2) by (auto simp: orders_ok_def go_range_def)
qed

text \<open>Session ids are random and unique across hubs (\<^verbatim>\<open>uuid.New\<close> in \<^verbatim>\<open>hub.go\<close>).\<close>

definition sids_unique :: "SessionStore \<Rightarrow> bool" where
  "sids_unique s \<longleftrightarrow> inj_on (\<lambda>p. ses_Sid (heap s ! p)) (ptrs s)"

lemma user_slice:
  assumes "ss_inv s" "orders_ok hubs sids (kv s)"
  shows "set (filter (\<lambda>p. ses_Uid (heap s ! p) = uid) (all_ptrs hubs sids (kv s))) = user_ptrs uid s"
    and "distinct (filter (\<lambda>p. ses_Uid (heap s ! p) = uid) (all_ptrs hubs sids (kv s)))"
  using assms by (auto simp: set_all_ptrs user_ptrs_def distinct_all_ptrs)

lemma getUserSessionsToKickoff_eq:
  assumes "0 \<le> quota"
  shows "getUserSessionsToKickoff hubs sids uid quota s =
    Ret (by_sid (heap s) (kicked (heap s) quota
      (filter (\<lambda>p. ses_Uid (heap s ! p) = uid) (all_ptrs hubs sids (kv s)))) Map.empty)"
  using assms by (simp add: getUserSessionsToKickoff_def kick_slice_kicked)

text \<open>A set \<open>K\<close> of the sessions \<open>P\<close> that a quota makes leave: the excess, oldest first.\<close>

definition excess :: "Session list \<Rightarrow> int \<Rightarrow> nat set \<Rightarrow> nat set \<Rightarrow> bool" where
  "excess hp quota P K \<longleftrightarrow> K \<subseteq> P \<and> card K = card P - nat quota \<and>
     (\<forall>p \<in> K. \<forall>q \<in> P - K. ses_CreateTime (hp ! p) \<le> ses_CreateTime (hp ! q))"

text \<open>If all ages differ, such a set is unique.\<close>

lemma oldest_unique:
  assumes K: "K \<subseteq> P" "\<forall>p \<in> K. \<forall>q \<in> P - K. f p \<le> (f q :: int)"
    and K': "K' \<subseteq> P" "\<forall>p \<in> K'. \<forall>q \<in> P - K'. f p \<le> f q"
    and card: "card K = card K'" and fin: "finite P" and inj: "inj_on f P"
  shows "K = K'"
proof (rule ccontr)
  assume "K \<noteq> K'"
  have "finite K" "finite K'" using K(1) K'(1) fin finite_subset by auto
  then obtain p q where pq: "p \<in> K - K'" "q \<in> K' - K"
    using \<open>K \<noteq> K'\<close> card card_subset_eq [of K' K] card_subset_eq [of K K'] by auto
  then have "f p = f q" using K K' by (force intro: antisym)
  then show False using inj K(1) K'(1) pq by (auto dest: inj_onD)
qed

lemma kicked_excess: "distinct ps \<Longrightarrow> excess hp quota (set ps) (set (kicked hp quota ps))"
  by (auto simp: excess_def kicked_card kicked_oldest dest: subsetD [OF kicked_subset])

lemma user_excess:
  assumes "ss_inv s" "orders_ok hubs sids (kv s)"
  shows "excess (heap s) quota (user_ptrs uid s)
    (set (kicked (heap s) quota (filter (\<lambda>p. ses_Uid (heap s ! p) = uid) (all_ptrs hubs sids (kv s)))))"
  using kicked_excess [OF user_slice(2) [OF assms]] unfolding user_slice(1) [OF assms] .

lemma excess_within_quota:
  assumes "excess hp quota P K" "0 \<le> quota" "finite P"
  shows "int (card (P - K)) \<le> quota"
proof -
  from assms(1) have "K \<subseteq> P" "card K = card P - nat quota" by (auto simp: excess_def)
  then show ?thesis using assms(2,3) by (simp add: card_Diff_subset finite_subset)
qed

section \<open>What garbage collection does\<close>

lemma gc_hub_eq:
  "gc_hub now hp sids v =
     (\<lambda>sid. case v sid of None \<Rightarrow> None
       | Some p \<Rightarrow> if sid \<in> set sids \<and> expired now (hp ! p) then None else Some p)"
  by (induction sids arbitrary: v) (auto simp: fun_eq_iff split: option.splits)

lemma gc_sweep_eq:
  "distinct hubs \<Longrightarrow> gc_sweep now hp live sids hubs m =
     (\<lambda>h. if h \<in> set hubs then
            (if h \<in> live then map_option (gc_hub now hp (sids h)) (m h) else None)
          else m h)"
  by (induction hubs arbitrary: m) (auto simp: fun_eq_iff split: option.splits)

definition swept :: "int \<Rightarrow> hub_id set \<Rightarrow> SessionStore \<Rightarrow> gc_order \<Rightarrow> SessionStore" where
  "swept now live s ord = s\<lparr>kv := gc_sweep now (heap s) live (sweep_sids ord) (sweep_hubs ord) (kv s)\<rparr>"

lemma swept_hub_map:
  assumes "orders_ok (sweep_hubs ord) (sweep_sids ord) (kv s)"
  shows "hub_map h (swept now live s ord) sid =
    (case hub_map h s sid of None \<Rightarrow> None
     | Some p \<Rightarrow> if h \<in> live \<and> \<not> expired now (heap s ! p) then Some p else None)"
proof (cases "kv s h")
  case None
  then show ?thesis
    using assms by (auto simp: swept_def hub_map_def orders_ok_def go_range_def gc_sweep_eq)
next
  case (Some v)
  have "distinct (sweep_hubs ord)" "h \<in> set (sweep_hubs ord)" "dom v = set (sweep_sids ord h)"
    using assms Some by (auto simp: orders_ok_def go_range_def)
  then show ?thesis
    using Some by (auto simp: swept_def hub_map_def gc_sweep_eq gc_hub_eq split: option.splits)
qed

lemma swept_heap [simp]: "heap (swept now live s ord) = heap s"
  by (simp add: swept_def)

lemma swept_inv:
  assumes "ss_inv s" "orders_ok (sweep_hubs ord) (sweep_sids ord) (kv s)"
  shows "ss_inv (swept now live s ord)"
proof -
  have sub: "hub_map h (swept now live s ord) sid = Some p \<Longrightarrow> hub_map h s sid = Some p" for h sid p
    by (auto simp: swept_hub_map [OF assms(2)] split: option.splits if_splits)
  have "dom (kv (swept now live s ord)) \<subseteq> dom (kv s)"
    using assms(2) by (auto simp: swept_def orders_ok_def go_range_def gc_sweep_eq split: if_splits)
  moreover have "dom (hub_map h (swept now live s ord)) \<subseteq> dom (hub_map h s)" for h
    using sub by fastforce
  ultimately show ?thesis
    using assms(1) unfolding ss_inv_def swept_heap
    by (meson finite_subset sub)
qed

lemma group_by_uid_eq:
  "group_by_uid hp ps m uid =
     (let xs = filter (\<lambda>p. ses_Uid (hp ! p) = uid) ps in
      case m uid of None \<Rightarrow> (if xs = [] then None else Some xs) | Some ys \<Rightarrow> Some (ys @ xs))"
  by (induction ps arbitrary: m) (auto simp: Let_def split: option.splits)

lemma gc_kickoff_eq:
  "0 \<le> quota \<Longrightarrow> gc_kickoff hp quota slices m = Ret (by_sid hp (concat (map (kicked hp quota) slices)) m)"
proof (induction slices arbitrary: m)
  case (Cons ps slices)
  have "by_sid hp (xs @ ys) m = by_sid hp ys (by_sid hp xs m)" for xs ys
    by (induction xs arbitrary: m) auto
  then show ?case using Cons by (simp add: kick_slice_kicked)
qed simp

definition user_sessions :: "gc_order \<Rightarrow> SessionStore \<Rightarrow> int \<rightharpoonup> nat list" where
  "user_sessions ord s = group_by_uid (heap s) (all_ptrs (group_hubs ord) (group_sids ord) (kv s)) Map.empty"

definition gc_order_ok :: "gc_order \<Rightarrow> int \<Rightarrow> hub_id set \<Rightarrow> SessionStore \<Rightarrow> bool" where
  "gc_order_ok ord now live s \<longleftrightarrow>
     orders_ok (sweep_hubs ord) (sweep_sids ord) (kv s) \<and>
     orders_ok (group_hubs ord) (group_sids ord) (kv (swept now live s ord)) \<and>
     go_range (user_sessions ord (swept now live s ord)) (kick_uids ord)"

lemma gc_eq:
  assumes "0 \<le> quota"
  shows "gc ord now live quota s =
    (Ret (by_sid (heap s) (concat (map (kicked (heap s) quota)
       (map snd (entries (user_sessions ord (swept now live s ord)) (kick_uids ord))))) Map.empty),
     swept now live s ord)"
  using assms by (simp add: gc_def Let_def gc_kickoff_eq user_sessions_def swept_def)

lemma image_snd_if: "snd ` {(k, v). (if f k = [] then None else Some (f k)) = Some v} = {f u | u. f u \<noteq> []}"
  by (auto simp: image_iff split: if_splits)

lemma UN_nonempty: "F [] = {} \<Longrightarrow> (\<Union>xs \<in> {f u | u. f u \<noteq> []}. F xs) = (\<Union>u. F (f u))"
  by (auto, metis empty_iff)

lemma UN_fibre: "(\<And>p u. p \<in> G u \<Longrightarrow> U p = u) \<Longrightarrow> {p \<in> \<Union>u. G u. U p = uid} = G uid"
  by blast

lemma kicked_by_user:
  assumes "go_range (group_by_uid hp ps Map.empty) uids"
  shows "{p \<in> set (concat (map (kicked hp quota) (map snd (entries (group_by_uid hp ps Map.empty) uids)))).
           ses_Uid (hp ! p) = uid} = set (kicked hp quota (filter (\<lambda>p. ses_Uid (hp ! p) = uid) ps))"
proof -
  let ?own = "\<lambda>uid. filter (\<lambda>p. ses_Uid (hp ! p) = uid) ps" and ?g = "group_by_uid hp ps Map.empty"
  have us: "?g u = (if ?own u = [] then None else Some (?own u))" for u
    by (simp add: group_by_uid_eq Let_def)
  have own: "ses_Uid (hp ! p) = u" if "p \<in> set (kicked hp quota (?own u))" for p u
    using that kicked_subset [of hp quota "?own u"] by auto
  have nil: "set (kicked hp quota []) = {}" by (simp add: kicked_def)
  have "snd ` set (entries ?g uids) = {?own u | u. ?own u \<noteq> []}"
    unfolding set_entries_range [OF assms] us by (rule image_snd_if)
  then have "set (concat (map (kicked hp quota) (map snd (entries ?g uids)))) =
      (\<Union>xs \<in> {?own u | u. ?own u \<noteq> []}. set (kicked hp quota xs))"
    by (simp only: set_concat set_map image_image)
  also have "\<dots> = (\<Union>u. set (kicked hp quota (?own u)))"
    by (rule UN_nonempty, rule nil)
  finally show ?thesis by (simp only:) (rule UN_fibre, rule own)
qed

lemma gc_kicked_user:
  assumes "go_range (user_sessions ord s) uids"
  shows "{p \<in> set (concat (map (kicked (heap s) quota) (map snd (entries (user_sessions ord s) uids)))).
           ses_Uid (heap s ! p) = uid} =
    set (kicked (heap s) quota (filter (\<lambda>p. ses_Uid (heap s ! p) = uid)
      (all_ptrs (group_hubs ord) (group_sids ord) (kv s))))"
  using kicked_by_user [OF assms [unfolded user_sessions_def]] unfolding user_sessions_def .

lemma gc_kicked_in_store:
  assumes "gc_order_ok ord now live s"
  shows "set (concat (map (kicked (heap s) quota)
      (map snd (entries (user_sessions ord (swept now live s ord)) (kick_uids ord))))) \<subseteq> ptrs (swept now live s ord)"
    (is "?K \<subseteq> _")
proof
  fix p assume "p \<in> ?K"
  let ?s = "swept now live s ord"
  have ok: "go_range (user_sessions ord ?s) (kick_uids ord)" "orders_ok (group_hubs ord) (group_sids ord) (kv ?s)"
    using assms by (simp_all add: gc_order_ok_def)
  have "p \<in> {p \<in> ?K. ses_Uid (heap ?s ! p) = ses_Uid (heap ?s ! p)}" using \<open>p \<in> ?K\<close> by simp
  then have "p \<in> set (kicked (heap ?s) quota (filter (\<lambda>q. ses_Uid (heap ?s ! q) = ses_Uid (heap ?s ! p))
      (all_ptrs (group_hubs ord) (group_sids ord) (kv ?s))))"
    using gc_kicked_user [OF ok(1), of quota "ses_Uid (heap ?s ! p)"] by auto
  then show "p \<in> ptrs ?s"
    using kicked_subset set_all_ptrs [OF ok(2)] by fastforce
qed

lemma ptrs_swept:
  "orders_ok (sweep_hubs ord) (sweep_sids ord) (kv s) \<Longrightarrow> ptrs (swept now live s ord) \<subseteq> ptrs s"
  by (auto simp: ptrs_def swept_hub_map split: option.splits if_splits)

lemma sview_swept:
  assumes "orders_ok (sweep_hubs ord) (sweep_sids ord) (kv s)"
  shows "sview (swept now live s ord) =
    (\<lambda>(h, sid). case sview s (h, sid) of None \<Rightarrow> None
       | Some x \<Rightarrow> if h \<in> live \<and> \<not> expired now x then Some x else None)"
  by (auto simp: sview_def fun_eq_iff swept_hub_map [OF assms] split: option.splits)

section \<open>A table with three sessions of one user\<close>

definition sample_ss :: SessionStore where
  "sample_ss = \<lparr>heap =
      [\<lparr>ses_HubId = ''a'', ses_Uid = 1, ses_Sid = ''x'', ses_Ip = [], ses_CreateTime = 10, ses_KickoffTime = 0\<rparr>,
       \<lparr>ses_HubId = ''a'', ses_Uid = 1, ses_Sid = ''y'', ses_Ip = [], ses_CreateTime = 5, ses_KickoffTime = 0\<rparr>,
       \<lparr>ses_HubId = ''b'', ses_Uid = 1, ses_Sid = ''z'', ses_Ip = [], ses_CreateTime = 7, ses_KickoffTime = 100\<rparr>],
     kv = [''a'' \<mapsto> [''x'' \<mapsto> 0, ''y'' \<mapsto> 1], ''b'' \<mapsto> [''z'' \<mapsto> 2]]\<rparr>"

definition sample_sids :: "hub_id \<Rightarrow> sid list" where
  "sample_sids h = (if h = ''a'' then [''x'', ''y''] else [''z''])"

definition sample_order :: gc_order where
  "sample_order = \<lparr>sweep_hubs = [''b'', ''a''], sweep_sids = sample_sids, group_hubs = [''a''],
     group_sids = sample_sids, kick_uids = [1]\<rparr>"

lemma hub_map_sample: "hub_map h sample_ss =
    (if h = ''a'' then [''x'' \<mapsto> 0, ''y'' \<mapsto> 1] else if h = ''b'' then [''z'' \<mapsto> 2] else Map.empty)"
  by (simp add: hub_map_def sample_ss_def)

lemma ss_inv_sample: "ss_inv sample_ss"
  unfolding ss_inv_def hub_map_sample by (auto simp: sample_ss_def split: if_splits)

lemma ptrs_sample: "ptrs sample_ss = {0, 1, 2}"
proof
  show "ptrs sample_ss \<subseteq> {0, 1, 2}"
    by (auto simp: ptrs_def hub_map_sample split: if_splits)
  have "hub_map ''a'' sample_ss ''x'' = Some 0" "hub_map ''a'' sample_ss ''y'' = Some 1"
    "hub_map ''b'' sample_ss ''z'' = Some 2" by (simp_all add: hub_map_sample)
  then show "{0, 1, 2} \<subseteq> ptrs sample_ss"
    unfolding ptrs_def by blast
qed

lemma sids_unique_sample: "sids_unique sample_ss"
  unfolding sids_unique_def ptrs_sample by (simp add: sample_ss_def)

lemma user_ptrs_sample: "user_ptrs 1 sample_ss = {0, 1, 2}"
  unfolding user_ptrs_def ptrs_sample by (auto simp: sample_ss_def)

lemma orders_ok_sample: "orders_ok [''a'', ''b''] sample_sids (kv sample_ss)"
  by (auto simp: orders_ok_def go_range_def sample_ss_def sample_sids_def split: if_splits)

lemma sample_order_ok: "gc_order_ok sample_order 200 {''a''} sample_ss"
proof -
  have kv: "kv (swept 200 {''a''} sample_ss sample_order) = [''a'' \<mapsto> [''x'' \<mapsto> 0, ''y'' \<mapsto> 1]]"
    by (auto simp: swept_def sample_ss_def sample_order_def sample_sids_def expired_def fun_eq_iff)
  have us: "user_sessions sample_order (swept 200 {''a''} sample_ss sample_order) = [1 \<mapsto> [0, 1]]"
    unfolding user_sessions_def kv swept_heap
    by (simp add: all_ptrs_def sample_order_def sample_sids_def sample_ss_def)
  show ?thesis
    unfolding gc_order_ok_def kv us
    by (auto simp: orders_ok_def go_range_def sample_order_def sample_ss_def sample_sids_def split: if_splits)
qed

section \<open>Properties\<close>

text \<open>C7. The leader's session table behaves like a map from hub and session id to sessions: after
  any sequence of arrivals, departures and batch synchronisations it holds what
  the map updated by the same operations holds, each session under its own hub and id.\<close>

theorem session_table_refines:
  "ss_inv (fold leader_table.exec ops newSessionStore) \<and>
   sview (fold leader_table.exec ops newSessionStore) = fold leader_table.abs_exec ops Map.empty"
proof -
  have "sview newSessionStore = Map.empty"
    by (simp add: sview_def newSessionStore_def hub_map_def fun_eq_iff)
  then show ?thesis using leader_table.run_refines [OF ss_inv_new, of ops] by simp
qed

text \<open>C10. Whenever a user is over the quota, the sessions chosen to be kicked off are exactly
  the excess, they are the user's oldest ones, and the others are within the quota; within the quota
  none is chosen. This holds for every order in which Go visits the maps.\<close>

theorem kickoff_oldest_over_quota:
  assumes "ss_inv s" "sids_unique s" "orders_ok hubs sids (kv s)" "0 \<le> quota"
  shows "\<exists>K. getUserSessionsToKickoff hubs sids uid quota s = Ret K \<and>
    (\<forall>sid p. K sid = Some p \<longrightarrow> ses_Sid (heap s ! p) = sid) \<and>
    excess (heap s) quota (user_ptrs uid s) (ran K) \<and>
    int (card (user_ptrs uid s - ran K)) \<le> quota"
proof -
  let ?ks = "kicked (heap s) quota (filter (\<lambda>p. ses_Uid (heap s ! p) = uid) (all_ptrs hubs sids (kv s)))"
  have ex: "excess (heap s) quota (user_ptrs uid s) (set ?ks)" by (rule user_excess [OF assms(1,3)])
  have "set ?ks \<subseteq> ptrs s" using ex by (auto simp: excess_def user_ptrs_def)
  then have inj: "inj_on (\<lambda>p. ses_Sid (heap s ! p)) (set ?ks)"
    using assms(2) unfolding sids_unique_def by (rule inj_on_subset [rotated])
  have "finite (user_ptrs uid s)" unfolding user_slice(1) [OF assms(1,3), symmetric] by simp
  then show ?thesis
    unfolding getUserSessionsToKickoff_eq [OF assms(4)]
    using ex by (auto simp: ran_by_sid [OF inj] by_sid_empty [OF inj] intro: excess_within_quota [OF ex assms(4)])
qed

theorem kickoff_oldest_over_quota_witness:
  "\<exists>K. getUserSessionsToKickoff [''a'', ''b''] sample_sids 1 2 sample_ss = Ret K \<and> card (ran K) = 1 \<and>
     int (card (user_ptrs 1 sample_ss - ran K)) \<le> 2"
proof -
  have "card (user_ptrs 1 sample_ss) = 3" by (simp add: user_ptrs_sample)
  then show ?thesis
    using kickoff_oldest_over_quota [OF ss_inv_sample sids_unique_sample orders_ok_sample, of 2 1]
    by (auto simp: excess_def)
qed

text \<open>C23. \<^verbatim>\<open>gc\<close> keeps exactly the sessions of live hubs that were not kicked off more than a
  minute ago, and returns for every user the oldest of the remaining sessions over the quota.\<close>

theorem gc_exact:
  assumes "ss_inv s" "sids_unique s" "gc_order_ok ord now live s" "0 \<le> quota"
  shows "\<exists>K s'. gc ord now live quota s = (Ret K, s') \<and> ss_inv s' \<and> heap s' = heap s \<and>
    sview s' = (\<lambda>(h, sid). case sview s (h, sid) of None \<Rightarrow> None
       | Some x \<Rightarrow> if h \<in> live \<and> \<not> expired now x then Some x else None) \<and>
    (\<forall>sid p. K sid = Some p \<longrightarrow> ses_Sid (heap s ! p) = sid) \<and>
    (\<forall>uid. excess (heap s) quota (user_ptrs uid s') {p \<in> ran K. ses_Uid (heap s ! p) = uid})"
proof -
  let ?s = "swept now live s ord"
  let ?ks = "concat (map (kicked (heap s) quota) (map snd (entries (user_sessions ord ?s) (kick_uids ord))))"
  have ok: "orders_ok (sweep_hubs ord) (sweep_sids ord) (kv s)" "orders_ok (group_hubs ord) (group_sids ord) (kv ?s)"
    "go_range (user_sessions ord ?s) (kick_uids ord)"
    using assms(3) by (simp_all add: gc_order_ok_def)
  note inv = swept_inv [OF assms(1) ok(1), of now live]
  have "set ?ks \<subseteq> ptrs s" using gc_kicked_in_store [OF assms(3)] ptrs_swept [OF ok(1)] by blast
  then have inj: "inj_on (\<lambda>p. ses_Sid (heap s ! p)) (set ?ks)"
    using assms(2) unfolding sids_unique_def by (rule inj_on_subset [rotated])
  have "excess (heap s) quota (user_ptrs uid ?s) {p \<in> set ?ks. ses_Uid (heap s ! p) = uid}" for uid
    using user_excess [OF inv ok(2), of quota uid] gc_kicked_user [OF ok(3), of quota uid] by simp
  then have "\<forall>uid. excess (heap s) quota (user_ptrs uid ?s)
      {p \<in> ran (by_sid (heap s) ?ks Map.empty). ses_Uid (heap s ! p) = uid}"
    unfolding ran_by_sid [OF inj] by blast
  moreover have "\<forall>sid p. by_sid (heap s) ?ks Map.empty sid = Some p \<longrightarrow> ses_Sid (heap s ! p) = sid"
    unfolding by_sid_empty [OF inj] by blast
  ultimately show ?thesis
    unfolding gc_eq [OF assms(4)] using inv sview_swept [OF ok(1), of now live] swept_heap by blast
qed

theorem gc_exact_witness:
  "\<exists>K s'. gc sample_order 200 {''a''} 1 sample_ss = (Ret K, s') \<and> sview s' (''b'', ''z'') = None \<and>
     ss_inv s' \<and> excess (heap sample_ss) 1 (user_ptrs 1 s') {p \<in> ran K. ses_Uid (heap sample_ss ! p) = 1}"
proof -
  obtain K s' where "gc sample_order 200 {''a''} 1 sample_ss = (Ret K, s')" and inv: "ss_inv s'"
    and view: "sview s' = (\<lambda>(h, sid). case sview sample_ss (h, sid) of None \<Rightarrow> None
       | Some x \<Rightarrow> if h \<in> {''a''} \<and> \<not> expired 200 x then Some x else None)"
    and ex: "\<forall>uid. excess (heap sample_ss) 1 (user_ptrs uid s') {p \<in> ran K. ses_Uid (heap sample_ss ! p) = uid}"
    using gc_exact [OF ss_inv_sample sids_unique_sample sample_order_ok, of 1] by auto
  moreover have "sview s' (''b'', ''z'') = None" unfolding view by (simp split: option.split)
  ultimately show ?thesis by blast
qed

end
