(* ===== verification/PushServer.thy ===== *)
theory PushServer
  imports Sessions
begin

text \<open>
  \<^verbatim>\<open>cluster/server.go\<close> and \<^verbatim>\<open>cluster/util.go\<close>: the gRPC server of the leader.

  Every hub holds one stream to the leader, opened by \<^verbatim>\<open>Route\<close>. The leader books the
  sessions the hubs report, kicks off the oldest ones of a user over the quota, and pushes
  messages to all hubs. A stream is a number; what was handed to the streams is a log. The
  results of \<^verbatim>\<open>Send\<close> and \<^verbatim>\<open>Recv\<close>, the clock, the orders of range loops and Kafka
  are input of the operations. An operation under the server's lock is one step; \<^verbatim>\<open>Route\<close>
  loops of different hubs, the push loop and the cleaning loop interleave message by message.

  Shown here: the invariant of the server under all interleavings, whom a kickoff reaches
  and marks, what a broadcast does to the streams, how every \<^verbatim>\<open>Route\<close> ends, and that the
  cleaning loop of the leader never deletes the sessions it keeps kicking off.
\<close>

section \<open>Messages to Kafka\<close>

datatype save_err = MarshalErr string | ExceedsLimit int | WriteErr string

text \<open>
  \<^verbatim>\<open>saveE2eMsg\<close>. The writer is \<^verbatim>\<open>nil\<close> (here \<open>None\<close>) unless client messages are
  enabled, and calling it then panics; a writer is the answer it gives. The last argument is
  the Kafka topic.
\<close>

definition saveE2eMsg ::
    "(E2EMsg \<Rightarrow> string + string) \<Rightarrow> (string \<Rightarrow> string option) option \<Rightarrow> E2EMsg \<Rightarrow> int \<Rightarrow> string list \<Rightarrow>
     (save_err option \<times> string list) outcome" where
  "saveE2eMsg marshal kafkaWriter msg limit topic =
     (case marshal msg of
        Inl err \<Rightarrow> Ret (Some (MarshalErr err), topic)
      | Inr val \<Rightarrow>
          if int (length val) > limit then Ret (Some (ExceedsLimit limit), topic)
          else case kafkaWriter of
            None \<Rightarrow> Panic ''nil pointer dereference''
          | Some write \<Rightarrow>
              (case write val of
                 Some err \<Rightarrow> Ret (Some (WriteErr err), topic)
               | None \<Rightarrow> Ret (None, topic @ [val])))"

section \<open>The server's state and its streams\<close>

datatype stream_err = IoEOF | CodeCanceled | CodeUnavailable | CodeOther string

definition gone :: "stream_err \<Rightarrow> bool" where
  "gone err \<longleftrightarrow> err = IoEOF \<or> err = CodeCanceled \<or> err = CodeUnavailable"

record pushServer =
  sessionQuota :: int
  eventMaxSize :: int
  sessionStore :: SessionStore
  hubStreams :: "hub_id \<rightharpoonup> nat"
  sent :: "(nat \<times> LeaderMsg) list"
  topic :: "string list"

definition newPushServer :: "int \<Rightarrow> int \<Rightarrow> pushServer" where
  "newPushServer quota maxSize =
     \<lparr>sessionQuota = quota, eventMaxSize = maxSize, sessionStore = newSessionStore,
      hubStreams = Map.empty, sent = [], topic = []\<rparr>"

definition addStream :: "hub_id \<Rightarrow> nat \<Rightarrow> pushServer \<Rightarrow> pushServer" where
  "addStream ni stream s = s\<lparr>hubStreams := (hubStreams s)(ni \<mapsto> stream)\<rparr>"

definition removeStream :: "hub_id \<Rightarrow> pushServer \<Rightarrow> pushServer" where
  "removeStream ni s = s\<lparr>hubStreams := (hubStreams s)(ni := None)\<rparr>"

fun copy_entries :: "('k \<rightharpoonup> 'v) \<Rightarrow> 'k list \<Rightarrow> ('k \<rightharpoonup> 'v) \<Rightarrow> ('k \<rightharpoonup> 'v)" where
  "copy_entries m [] out = out"
| "copy_entries m (k # ks) out =
     copy_entries m ks (case m k of None \<Rightarrow> out | Some v \<Rightarrow> out(k \<mapsto> v))"

definition copyStreams :: "hub_id list \<Rightarrow> pushServer \<Rightarrow> (hub_id \<rightharpoonup> nat)" where
  "copyStreams order s = copy_entries (hubStreams s) order Map.empty"

definition getLiveHubIds :: "pushServer \<Rightarrow> hub_id set" where
  "getLiveHubIds s = dom (hubStreams s)"

definition copyStreamsByFollower :: "hub_id list \<Rightarrow> pushServer \<Rightarrow> (hub_id \<rightharpoonup> nat)" where
  "copyStreamsByFollower hubs s = copy_entries (hubStreams s) hubs Map.empty"

definition pushToFollower ::
    "stream_err option \<Rightarrow> hub_id \<Rightarrow> nat \<Rightarrow> LeaderMsg \<Rightarrow> pushServer \<Rightarrow> bool \<times> pushServer" where
  "pushToFollower sendResult hubId stream msg s =
     (case sendResult of
        Some err \<Rightarrow> (False, if gone err then removeStream hubId s else s)
      | None \<Rightarrow> (True, s\<lparr>sent := sent s @ [(stream, msg)]\<rparr>))"

text \<open>One round of \<^verbatim>\<open>run\<close>: a message of the channel goes to a copy of the streams.\<close>

fun push_all :: "(hub_id \<Rightarrow> stream_err option) \<Rightarrow> LeaderMsg \<Rightarrow> (hub_id \<times> nat) list \<Rightarrow> pushServer \<Rightarrow> pushServer" where
  "push_all sendRes msg [] s = s"
| "push_all sendRes msg ((hub, stream) # rest) s =
     push_all sendRes msg rest (snd (pushToFollower (sendRes hub) hub stream msg s))"

definition run_msg :: "hub_id list \<Rightarrow> hub_id list \<Rightarrow> (hub_id \<Rightarrow> stream_err option) \<Rightarrow> LeaderMsg \<Rightarrow> pushServer \<Rightarrow> pushServer" where
  "run_msg copy_order order sendRes msg s =
     push_all sendRes msg (entries (copyStreams copy_order s) order) s"

section \<open>Kickoff\<close>

text \<open>What the environment contributes to one handler: clock, send results and orders.\<close>

record push_env =
  clock :: "hub_id \<Rightarrow> int"
  send_res :: "hub_id \<Rightarrow> stream_err option"
  kick_sids :: "sid list"
  kick_hubs :: "hub_id list"
  kick_streams :: "hub_id list"
  store_hubs :: "hub_id list"
  store_sids :: "hub_id \<Rightarrow> sid list"

text \<open>\<^verbatim>\<open>targets[sess.HubId] = append(targets[sess.HubId], sess.Sid)\<close>.\<close>

fun kick_targets :: "Session list \<Rightarrow> (sid \<times> nat) list \<Rightarrow> (hub_id \<rightharpoonup> sid list) \<Rightarrow> (hub_id \<rightharpoonup> sid list)" where
  "kick_targets hp [] targets = targets"
| "kick_targets hp ((_, p) # rest) targets =
     (let h = ses_HubId (hp ! p);
          old = (case targets h of None \<Rightarrow> [] | Some xs \<Rightarrow> xs)
      in kick_targets hp rest (targets(h \<mapsto> old @ [ses_Sid (hp ! p)])))"

text \<open>\<^verbatim>\<open>sessions[sid].KickoffTime = now\<close>, through the pointer of the table.\<close>

fun mark_kicked :: "int \<Rightarrow> (sid \<rightharpoonup> nat) \<Rightarrow> sid list \<Rightarrow> Session list \<Rightarrow> Session list outcome" where
  "mark_kicked now sessions [] hp = Ret hp"
| "mark_kicked now sessions (sid # sids) hp =
     (case sessions sid of
        None \<Rightarrow> Panic ''nil pointer dereference''
      | Some p \<Rightarrow> mark_kicked now sessions sids (hp[p := (hp ! p)\<lparr>ses_KickoffTime := now\<rparr>]))"

text \<open>
  The loop over the streams. The condition after the push is the \<^verbatim>\<open>ok\<close> of the map lookup,
  not the result of the push, so it always holds.
\<close>

fun kick_push :: "push_env \<Rightarrow> (sid \<rightharpoonup> nat) \<Rightarrow> (hub_id \<rightharpoonup> sid list) \<Rightarrow> (hub_id \<times> nat) list \<Rightarrow> pushServer \<Rightarrow> pushServer outcome" where
  "kick_push env sessions targets [] s = Ret s"
| "kick_push env sessions targets ((hub, stream) # rest) s =
     (case targets hub of
        None \<Rightarrow> kick_push env sessions targets rest s
      | Some sids \<Rightarrow>
          let s' = snd (pushToFollower (send_res env hub) hub stream (empty_LeaderMsg\<lparr>lm_Kickoff := sids\<rparr>) s) in
          bind_out (mark_kicked (clock env hub) sessions sids (heap (sessionStore s'))) (\<lambda>hp.
            kick_push env sessions targets rest (s'\<lparr>sessionStore := (sessionStore s')\<lparr>heap := hp\<rparr>\<rparr>)))"

definition kickoff :: "push_env \<Rightarrow> (sid \<rightharpoonup> nat) \<Rightarrow> pushServer \<Rightarrow> pushServer outcome" where
  "kickoff env sessions s =
     (let targets = kick_targets (heap (sessionStore s)) (entries sessions (kick_sids env)) Map.empty;
          hubs = map fst (entries targets (kick_hubs env));
          streams = copyStreamsByFollower hubs s
      in kick_push env sessions targets (entries streams (kick_streams env)) s)"

section \<open>Route\<close>

text \<open>One message of a hub; the boolean says whether the loop goes on.\<close>

definition route_msg ::
    "(E2EMsg \<Rightarrow> string + string) \<Rightarrow> (string \<Rightarrow> string option) option \<Rightarrow> push_env \<Rightarrow> hub_id \<Rightarrow> FollowerMsg \<Rightarrow>
     pushServer \<Rightarrow> (bool \<times> pushServer) outcome" where
  "route_msg marshal kafkaWriter env hubId msg s =
     (case fm_SessionOnline msg of
        Some v \<Rightarrow>
          let s1 = s\<lparr>sessionStore := online hubId v (sessionStore s)\<rparr> in
          bind_out (getUserSessionsToKickoff (store_hubs env) (store_sids env) (ses_Uid v) (sessionQuota s1)
                     (sessionStore s1)) (\<lambda>ks.
            if ks \<noteq> Map.empty then bind_out (kickoff env ks s1) (\<lambda>s2. Ret (True, s2)) else Ret (True, s1))
      | None \<Rightarrow>
          if fm_SessionOffline msg \<noteq> [] then
            Ret (True, s\<lparr>sessionStore := del hubId (fm_SessionOffline msg) (sessionStore s)\<rparr>)
          else if length (fm_SyncSessions msg) > 0 then
            Ret (True, s\<lparr>sessionStore := sync_sessions hubId (fm_SyncSessions msg) (sessionStore s)\<rparr>)
          else (case fm_E2EMsg msg of
            Some v \<Rightarrow>
              bind_out (saveE2eMsg marshal kafkaWriter v (eventMaxSize s) (topic s)) (\<lambda>(_, t).
                Ret (True, s\<lparr>topic := t\<rparr>))
          | None \<Rightarrow>
              if fm_ServerShutdown msg then Ret (False, s)
              else Panic ''unknown message from hub''))"

datatype route_result = Returned "stream_err option" | Receiving | Crashed string

text \<open>
  The receive loop on a list of results of \<^verbatim>\<open>Recv\<close>, each message with the environment it
  is handled in; at the end of the list the loop waits. However the loop is left, the
  deferred call removes the hub's stream.
\<close>

fun route_loop ::
    "(E2EMsg \<Rightarrow> string + string) \<Rightarrow> (string \<Rightarrow> string option) option \<Rightarrow> hub_id \<Rightarrow>
     (stream_err + push_env \<times> FollowerMsg) list \<Rightarrow> pushServer \<Rightarrow> route_result \<times> pushServer" where
  "route_loop marshal kafkaWriter hubId [] s = (Receiving, s)"
| "route_loop marshal kafkaWriter hubId (Inl err # rs) s =
     (Returned (if gone err then None else Some err), removeStream hubId s)"
| "route_loop marshal kafkaWriter hubId (Inr (env, msg) # rs) s =
     (case route_msg marshal kafkaWriter env hubId msg s of
        Panic m \<Rightarrow> (Crashed m, removeStream hubId s)
      | Ret (True, s') \<Rightarrow> route_loop marshal kafkaWriter hubId rs s'
      | Ret (False, s') \<Rightarrow> (Returned None, removeStream hubId s'))"

definition hub_of_metadata :: "string list option \<Rightarrow> hub_id" where
  "hub_of_metadata md = (case md of Some (x # _) \<Rightarrow> x | _ \<Rightarrow> [])"

definition Route ::
    "(E2EMsg \<Rightarrow> string + string) \<Rightarrow> (string \<Rightarrow> string option) option \<Rightarrow> string list option \<Rightarrow> nat \<Rightarrow>
     (stream_err + push_env \<times> FollowerMsg) list \<Rightarrow> pushServer \<Rightarrow> route_result \<times> pushServer" where
  "Route marshal kafkaWriter md stream rs s =
     (let hubId = hub_of_metadata md in
      if hubId = [] then (Crashed ''error x-hub-id not found from context metadata'', s)
      else route_loop marshal kafkaWriter hubId rs (addStream hubId stream s))"

section \<open>The cleaning loop\<close>

datatype clean_event = CtxDone | Tick int push_env gc_order

definition clean_tick :: "int \<Rightarrow> push_env \<Rightarrow> gc_order \<Rightarrow> pushServer \<Rightarrow> pushServer outcome" where
  "clean_tick now env ord s =
     (let (r, store) = gc ord now (getLiveHubIds s) (sessionQuota s) (sessionStore s);
          s1 = s\<lparr>sessionStore := store\<rparr>
      in bind_out r (\<lambda>ks. if ks \<noteq> Map.empty then kickoff env ks s1 else Ret s1))"

text \<open>\<^verbatim>\<open>cleanSessionLoop\<close> on the events of its select; the boolean says whether it ended.\<close>

fun cleanSessionLoop :: "clean_event list \<Rightarrow> pushServer \<Rightarrow> (bool \<times> pushServer) outcome" where
  "cleanSessionLoop [] s = Ret (False, s)"
| "cleanSessionLoop (CtxDone # es) s = Ret (True, s\<lparr>sessionStore := empty_store (sessionStore s)\<rparr>)"
| "cleanSessionLoop (Tick now env ord # es) s =
     bind_out (clean_tick now env ord s) (\<lambda>s'. cleanSessionLoop es s')"

section \<open>What a kickoff does\<close>

lemma copy_entries_eq: "copy_entries m ks out = (\<lambda>k. if k \<in> set ks \<and> m k \<noteq> None then m k else out k)"
  by (induction ks arbitrary: out) (auto simp: fun_eq_iff split: option.splits)

lemma copyStreams_eq: "go_range (hubStreams s) order \<Longrightarrow> copyStreams order s = hubStreams s"
  by (auto simp: copyStreams_def copy_entries_eq go_range_def fun_eq_iff)

lemma copyStreamsByFollower_eq:
  "copyStreamsByFollower hubs s = (\<lambda>h. if h \<in> set hubs then hubStreams s h else None)"
  by (auto simp: copyStreamsByFollower_def copy_entries_eq fun_eq_iff)

lemma kick_targets_eq:
  "kick_targets hp xs m h =
     (let ys = map (\<lambda>p. ses_Sid (hp ! p)) (filter (\<lambda>p. ses_HubId (hp ! p) = h) (map snd xs)) in
      case m h of None \<Rightarrow> (if ys = [] then None else Some ys) | Some zs \<Rightarrow> Some (zs @ ys))"
  by (induction xs arbitrary: m) (auto simp: Let_def split: option.splits)

definition mark1 :: "int \<Rightarrow> (sid \<rightharpoonup> nat) \<Rightarrow> sid \<Rightarrow> Session list \<Rightarrow> Session list" where
  "mark1 now sessions sid hp =
     (case sessions sid of None \<Rightarrow> hp | Some p \<Rightarrow> hp[p := (hp ! p)\<lparr>ses_KickoffTime := now\<rparr>])"

lemma mark_kicked_eq:
  "\<forall>sid \<in> set sids. sessions sid \<noteq> None \<Longrightarrow>
     mark_kicked now sessions sids hp = Ret (fold (mark1 now sessions) sids hp)"
  by (induction sids arbitrary: hp) (auto simp: mark1_def)

lemma length_marks [simp]: "length (fold (mark1 now sessions) sids hp) = length hp"
  by (induction sids arbitrary: hp) (auto simp: mark1_def split: option.splits)

lemma nth_marks:
  assumes "p < length hp"
  shows "fold (mark1 now sessions) sids hp ! p =
    (if \<exists>sid \<in> set sids. sessions sid = Some p then (hp ! p)\<lparr>ses_KickoffTime := now\<rparr> else hp ! p)"
  using assms by (induction sids arbitrary: hp) (auto simp: mark1_def nth_upd split: option.splits)

definition kick_heap :: "push_env \<Rightarrow> (sid \<rightharpoonup> nat) \<Rightarrow> (hub_id \<rightharpoonup> sid list) \<Rightarrow> (hub_id \<times> nat) list \<Rightarrow> Session list \<Rightarrow> Session list" where
  "kick_heap env sessions targets =
     fold (\<lambda>(h, _) hp. case targets h of None \<Rightarrow> hp | Some sids \<Rightarrow> fold (mark1 (clock env h) sessions) sids hp)"

lemma length_kick_heap [simp]: "length (kick_heap env sessions targets xs hp) = length hp"
  unfolding kick_heap_def by (induction xs arbitrary: hp) (auto split: option.splits)

lemma nth_kick_heap:
  assumes "p < length hp"
    and "\<And>h sids sid. targets h = Some sids \<Longrightarrow> sid \<in> set sids \<Longrightarrow> sessions sid = Some p \<Longrightarrow> h = hub"
  shows "kick_heap env sessions targets xs hp ! p =
    (if hub \<in> fst ` set xs \<and> (\<exists>sids. targets hub = Some sids \<and> (\<exists>sid \<in> set sids. sessions sid = Some p))
     then (hp ! p)\<lparr>ses_KickoffTime := clock env hub\<rparr> else hp ! p)"
  using assms(1)
proof (induction xs arbitrary: hp)
  case (Cons x xs)
  obtain h st where x: "x = (h, st)" by (cases x)
  show ?case
  proof (cases "\<exists>sids. targets h = Some sids \<and> (\<exists>sid \<in> set sids. sessions sid = Some p)")
    case True
    then obtain sids where sids: "targets h = Some sids" "\<exists>sid \<in> set sids. sessions sid = Some p" by auto
    then have "h = hub" using assms(2) by blast
    then show ?thesis
      using sids Cons.prems Cons.IH [of "fold (mark1 (clock env hub) sessions) sids hp"]
      by (auto simp: x kick_heap_def nth_marks)
  next
    case False
    let ?hp = "case targets h of None \<Rightarrow> hp | Some sids \<Rightarrow> fold (mark1 (clock env h) sessions) sids hp"
    have "?hp ! p = hp ! p" "length ?hp = length hp"
      using False Cons.prems by (auto simp: nth_marks split: option.splits)
    moreover have "kick_heap env sessions targets (x # xs) hp = kick_heap env sessions targets xs ?hp"
      by (simp add: x kick_heap_def)
    moreover have "hub \<in> fst ` set (x # xs) \<and> (\<exists>sids. targets hub = Some sids \<and> (\<exists>sid \<in> set sids. sessions sid = Some p)) \<longleftrightarrow>
        hub \<in> fst ` set xs \<and> (\<exists>sids. targets hub = Some sids \<and> (\<exists>sid \<in> set sids. sessions sid = Some p))"
      using False by (auto simp: x)
    ultimately show ?thesis
      using Cons.IH [of ?hp] Cons.prems by (simp only:)
  qed
qed (simp add: kick_heap_def)

definition kick_sent :: "push_env \<Rightarrow> (hub_id \<rightharpoonup> sid list) \<Rightarrow> (hub_id \<times> nat) list \<Rightarrow> (nat \<times> LeaderMsg) list" where
  "kick_sent env targets xs =
     map (\<lambda>(h, st). (st, empty_LeaderMsg\<lparr>lm_Kickoff := the (targets h)\<rparr>))
       (filter (\<lambda>(h, _). targets h \<noteq> None \<and> send_res env h = None) xs)"

definition lost :: "(hub_id \<Rightarrow> stream_err option) \<Rightarrow> hub_id \<Rightarrow> bool" where
  "lost sendRes h \<longleftrightarrow> (case sendRes h of Some err \<Rightarrow> gone err | None \<Rightarrow> False)"

lemma kick_push_eq:
  assumes "\<And>h sids. targets h = Some sids \<Longrightarrow> \<forall>sid \<in> set sids. sessions sid \<noteq> None"
  shows "kick_push env sessions targets xs s =
    Ret (s\<lparr>sessionStore := (sessionStore s)\<lparr>heap := kick_heap env sessions targets xs (heap (sessionStore s))\<rparr>,
      hubStreams := (\<lambda>h. if h \<in> fst ` set xs \<and> targets h \<noteq> None \<and> lost (send_res env) h then None else hubStreams s h),
      sent := sent s @ kick_sent env targets xs\<rparr>)"
proof (induction xs arbitrary: s)
  case (Cons x xs)
  obtain h st where x: "x = (h, st)" by (cases x)
  show ?case
    using assms
    by (auto simp: x Cons.IH mark_kicked_eq kick_heap_def kick_sent_def pushToFollower_def removeStream_def
        lost_def Let_def fun_eq_iff split: option.splits intro!: pushServer.equality)
qed (simp add: kick_heap_def kick_sent_def)

text \<open>A map of sessions to kick off, as the session table hands it out.\<close>

definition kick_map_ok :: "(sid \<rightharpoonup> nat) \<Rightarrow> Session list \<Rightarrow> bool" where
  "kick_map_ok K hp \<longleftrightarrow> (\<forall>sid p. K sid = Some p \<longrightarrow> p < length hp \<and> ses_Sid (hp ! p) = sid)"

definition targets_of :: "push_env \<Rightarrow> (sid \<rightharpoonup> nat) \<Rightarrow> Session list \<Rightarrow> hub_id \<rightharpoonup> sid list" where
  "targets_of env K hp = kick_targets hp (entries K (kick_sids env)) Map.empty"

definition target_sids :: "(sid \<rightharpoonup> nat) \<Rightarrow> Session list \<Rightarrow> hub_id \<Rightarrow> sid set" where
  "target_sids K hp h = {sid. \<exists>p. K sid = Some p \<and> ses_HubId (hp ! p) = h}"

definition kick_orders_ok :: "push_env \<Rightarrow> (sid \<rightharpoonup> nat) \<Rightarrow> pushServer \<Rightarrow> bool" where
  "kick_orders_ok env K s \<longleftrightarrow>
     (let targets = targets_of env K (heap (sessionStore s)) in
      go_range K (kick_sids env) \<and> go_range targets (kick_hubs env) \<and>
      go_range (\<lambda>h. if h \<in> dom targets then hubStreams s h else None) (kick_streams env))"

lemma targets_of_Some:
  assumes "kick_map_ok K hp" "go_range K (kick_sids env)" "targets_of env K hp h = Some sids"
  shows "distinct sids \<and> set sids = target_sids K hp h \<and> sids \<noteq> []"
proof -
  let ?ps = "filter (\<lambda>p. ses_HubId (hp ! p) = h) (map snd (entries K (kick_sids env)))"
  have sids: "sids = map (\<lambda>p. ses_Sid (hp ! p)) ?ps" "sids \<noteq> []"
    using assms(3) by (auto simp: targets_of_def kick_targets_eq Let_def split: if_splits)
  have ps: "set (map snd (entries K (kick_sids env))) = ran K"
    unfolding set_map set_entries_range [OF assms(2)] by (force simp: ran_def)
  have inj: "inj_on K (dom K)" and inj': "inj_on (\<lambda>p. ses_Sid (hp ! p)) (ran K)"
    using assms(1) by (auto simp: kick_map_ok_def inj_on_def ran_def) (metis option.inject)+
  have "distinct (map snd (entries K (kick_sids env)))"
    using distinct_ptrs_of_hub [OF _ inj] assms(2) by (auto simp: go_range_def)
  then have "distinct (map (\<lambda>p. ses_Sid (hp ! p)) ?ps)"
    using inj_on_subset [OF inj', of "set ?ps"] ps by (auto simp: distinct_map simp del: set_map)
  moreover have "set ?ps = {p \<in> ran K. ses_HubId (hp ! p) = h}" using ps by auto
  then have "set sids = target_sids K hp h"
    using assms(1) unfolding sids(1) set_map target_sids_def kick_map_ok_def
    by (auto simp: ran_def image_iff)
  ultimately show ?thesis using sids by simp
qed

lemma targets_of_dom:
  assumes "kick_map_ok K hp" "go_range K (kick_sids env)"
  shows "targets_of env K hp h = None \<longleftrightarrow> target_sids K hp h = {}"
proof -
  have "targets_of env K hp h = None \<longleftrightarrow> (\<forall>p \<in> ran K. ses_HubId (hp ! p) \<noteq> h)"
    using set_entries_range [OF assms(2)]
    by (force simp: targets_of_def kick_targets_eq Let_def filter_empty_conv ran_def)
  also have "\<dots> \<longleftrightarrow> target_sids K hp h = {}"
    by (auto simp: target_sids_def ran_def)
  finally show ?thesis .
qed

lemma kickoff_eq:
  assumes "kick_map_ok K (heap (sessionStore s))" "kick_orders_ok env K s"
  shows "kickoff env K s =
    (let targets = targets_of env K (heap (sessionStore s));
         xs = entries (\<lambda>h. if h \<in> dom targets then hubStreams s h else None) (kick_streams env)
     in Ret (s\<lparr>sessionStore := (sessionStore s)\<lparr>heap := kick_heap env K targets xs (heap (sessionStore s))\<rparr>,
          hubStreams := (\<lambda>h. if h \<in> fst ` set xs \<and> targets h \<noteq> None \<and> lost (send_res env) h then None else hubStreams s h),
          sent := sent s @ kick_sent env targets xs\<rparr>))"
proof -
  let ?t = "targets_of env K (heap (sessionStore s))"
  have K: "go_range K (kick_sids env)" and hubs: "go_range ?t (kick_hubs env)"
    using assms(2) by (simp_all add: kick_orders_ok_def Let_def)
  have "set (map fst (entries ?t (kick_hubs env))) = dom ?t"
    unfolding set_map set_entries_range [OF hubs] by force
  then have cs: "copyStreamsByFollower (map fst (entries ?t (kick_hubs env))) s =
      (\<lambda>h. if h \<in> dom ?t then hubStreams s h else None)"
    unfolding copyStreamsByFollower_eq by simp
  have "\<forall>sid \<in> set sids. K sid \<noteq> None" if "?t h = Some sids" for h sids
    using targets_of_Some [OF assms(1) K that] by (auto simp: target_sids_def)
  note push = kick_push_eq [of ?t K env, OF this]
  show ?thesis
    unfolding kickoff_def targets_of_def [symmetric] Let_def cs by (rule push)
qed

lemma nth_kickoff:
  assumes "kick_map_ok K hp" "go_range K (kick_sids env)" "p < length hp"
  shows "kick_heap env K (targets_of env K hp) xs hp ! p =
    (if p \<in> ran K \<and> ses_HubId (hp ! p) \<in> fst ` set xs
     then (hp ! p)\<lparr>ses_KickoffTime := clock env (ses_HubId (hp ! p))\<rparr> else hp ! p)"
proof -
  let ?t = "targets_of env K hp"
  have own: "h = ses_HubId (hp ! p)" if "?t h = Some sids" "sid \<in> set sids" "K sid = Some p" for h sids sid
    using targets_of_Some [OF assms(1,2) that(1)] that(2,3) by (auto simp: target_sids_def)
  have "(\<exists>sids. ?t (ses_HubId (hp ! p)) = Some sids \<and> (\<exists>sid \<in> set sids. K sid = Some p)) \<longleftrightarrow> p \<in> ran K" (is "?L = _")
  proof
    show "?L \<Longrightarrow> p \<in> ran K" by (auto simp: ran_def)
    assume "p \<in> ran K"
    then obtain sid where sid: "K sid = Some p" by (auto simp: ran_def)
    then have "sid \<in> target_sids K hp (ses_HubId (hp ! p))" by (auto simp: target_sids_def)
    moreover from this obtain sids where "?t (ses_HubId (hp ! p)) = Some sids"
      using targets_of_dom [OF assms(1,2)] by (cases "?t (ses_HubId (hp ! p))") auto
    ultimately show ?L using sid targets_of_Some [OF assms(1,2)] by blast
  qed
  then show ?thesis
    using nth_kick_heap [OF assms(3), of ?t K "ses_HubId (hp ! p)" env xs] own by metis
qed

lemma fst_entries: "go_range m ks \<Longrightarrow> fst ` set (entries m ks) = dom m"
  by (force simp: set_entries_range)

definition kick_to :: "(sid \<rightharpoonup> nat) \<Rightarrow> pushServer \<Rightarrow> hub_id \<Rightarrow> nat \<times> LeaderMsg \<Rightarrow> bool" where
  "kick_to K s h = (\<lambda>(st, m). hubStreams s h = Some st \<and> distinct (lm_Kickoff m) \<and>
     set (lm_Kickoff m) = target_sids K (heap (sessionStore s)) h \<and>
     lm_HeadSeq m = Map.empty \<and> \<not> lm_ServerShutdown m)"

lemma kick_sent_spec:
  assumes "kick_map_ok K (heap (sessionStore s))" "kick_orders_ok env K s"
  shows "\<exists>hs. distinct hs \<and>
    set hs = {h \<in> dom (hubStreams s). target_sids K (heap (sessionStore s)) h \<noteq> {} \<and> send_res env h = None} \<and>
    list_all2 (kick_to K s) hs (kick_sent env (targets_of env K (heap (sessionStore s)))
      (entries (\<lambda>h. if h \<in> dom (targets_of env K (heap (sessionStore s))) then hubStreams s h else None) (kick_streams env)))"
proof -
  let ?t = "targets_of env K (heap (sessionStore s))"
  let ?m = "\<lambda>h. if h \<in> dom ?t then hubStreams s h else None"
  let ?xs = "filter (\<lambda>(h, _). ?t h \<noteq> None \<and> send_res env h = None) (entries ?m (kick_streams env))"
  have K: "go_range K (kick_sids env)" and str: "go_range ?m (kick_streams env)"
    using assms(2) by (simp_all add: kick_orders_ok_def Let_def)
  have dom: "h \<in> dom ?t \<longleftrightarrow> target_sids K (heap (sessionStore s)) h \<noteq> {}" for h
    using targets_of_dom [OF assms(1) K, of h] by auto
  have "distinct (map fst ?xs)"
    using distinct_fst_entries [of "kick_streams env" ?m] str
    by (simp add: go_range_def distinct_map_filter)
  moreover have "set (map fst ?xs) = {h \<in> dom (hubStreams s). target_sids K (heap (sessionStore s)) h \<noteq> {} \<and> send_res env h = None}"
    (is "?A = ?B")
  proof
    show "?A \<subseteq> ?B"
    proof
      fix h assume "h \<in> ?A"
      then obtain st where "(h, st) \<in> set ?xs" by auto
      then have "hubStreams s h = Some st" "h \<in> dom ?t" "send_res env h = None"
        by (auto simp: set_entries_range [OF str] split: if_splits)
      then show "h \<in> ?B" using dom by blast
    qed
    show "?B \<subseteq> ?A"
    proof
      fix h assume h: "h \<in> ?B"
      then obtain st where st: "hubStreams s h = Some st" by auto
      have "h \<in> dom ?t" using h dom by simp
      then have "(h, st) \<in> set ?xs" using h st by (auto simp: set_entries_range [OF str])
      then show "h \<in> ?A" by force
    qed
  qed
  moreover have "kick_to K s h (st, empty_LeaderMsg\<lparr>lm_Kickoff := the (?t h)\<rparr>)" if "(h, st) \<in> set ?xs" for h st
  proof -
    from that have "hubStreams s h = Some st" and "h \<in> dom ?t"
      by (auto simp: set_entries_range [OF str] split: if_splits)
    moreover from this obtain sids where "?t h = Some sids" by auto
    ultimately show ?thesis
      using targets_of_Some [OF assms(1) K] by (auto simp: kick_to_def empty_LeaderMsg_def)
  qed
  then have "list_all2 (kick_to K s) (map fst ?xs) (kick_sent env ?t (entries ?m (kick_streams env)))"
    unfolding kick_sent_def list_all2_map1 list_all2_map2 list_all2_same by force
  ultimately show ?thesis by blast
qed

section \<open>The invariant of the server\<close>

text \<open>Fields of a session that no kickoff touches.\<close>

definition same_but_kickoff :: "Session list \<Rightarrow> Session list \<Rightarrow> bool" where
  "same_but_kickoff hp hp' \<longleftrightarrow>
     list_all2 (\<lambda>x y. \<exists>t. y = x\<lparr>ses_KickoffTime := t\<rparr>) hp hp'"

lemma same_but_kickoff_refl [simp]: "same_but_kickoff hp hp"
  unfolding same_but_kickoff_def by (rule list_all2_refl) (metis Session.surjective Session.update_convs(6))

lemma same_but_kickoff_trans:
  "same_but_kickoff a b \<Longrightarrow> same_but_kickoff b c \<Longrightarrow> same_but_kickoff a c"
  unfolding same_but_kickoff_def by (rule list_all2_trans) auto

lemma same_but_kickoff_inv:
  assumes "ss_inv s" "same_but_kickoff (heap s) hp"
  shows "ss_inv (s\<lparr>heap := hp\<rparr>)"
  unfolding ss_inv_def
proof (intro conjI allI impI)
  fix h sid p
  assume "hub_map h (s\<lparr>heap := hp\<rparr>) sid = Some p"
  then have "hub_map h s sid = Some p" by simp
  note p = ss_invD [OF assms(1) this]
  have len: "length (heap s) = length hp"
    using assms(2) unfolding same_but_kickoff_def by (rule list_all2_lengthD)
  from list_all2_nthD [OF assms(2) [unfolded same_but_kickoff_def] p(1)]
  obtain t where "hp ! p = (heap s ! p)\<lparr>ses_KickoffTime := t\<rparr>" by blast
  then show "p < length (heap (s\<lparr>heap := hp\<rparr>))" "ses_Sid (heap (s\<lparr>heap := hp\<rparr>) ! p) = sid"
    "ses_HubId (heap (s\<lparr>heap := hp\<rparr>) ! p) = h"
    using p len by simp_all
qed (use assms(1) in \<open>simp_all add: ss_inv_def\<close>)

lemma mark_kicked_same: "mark_kicked now K sids hp = Ret hp' \<Longrightarrow> same_but_kickoff hp hp'"
proof (induction sids arbitrary: hp)
  case (Cons sid sids)
  then obtain p where p: "K sid = Some p" by (cases "K sid") auto
  have "same_but_kickoff hp (hp[p := (hp ! p)\<lparr>ses_KickoffTime := now\<rparr>])"
    using same_but_kickoff_refl [of hp] unfolding same_but_kickoff_def list_all2_conv_all_nth
    by (auto simp: nth_upd)
  then show ?case using Cons p by (auto intro: same_but_kickoff_trans)
qed simp

text \<open>What a handler may do to the streams, the table and the rest of the server.\<close>

definition stays :: "pushServer \<Rightarrow> pushServer \<Rightarrow> bool" where
  "stays s s' \<longleftrightarrow> hubStreams s' \<subseteq>\<^sub>m hubStreams s \<and> kv (sessionStore s') = kv (sessionStore s) \<and>
     same_but_kickoff (heap (sessionStore s)) (heap (sessionStore s'))"

lemma stays_refl [simp]: "stays s s"
  by (simp add: stays_def)

lemma stays_trans: "stays a b \<Longrightarrow> stays b c \<Longrightarrow> stays a c"
  by (auto simp: stays_def intro: map_le_trans same_but_kickoff_trans)

lemma stays_push: "stays s (snd (pushToFollower r h st m s))"
  by (auto simp: stays_def pushToFollower_def removeStream_def map_le_def split: option.splits)

lemma stays_push_all: "stays s (push_all sendRes m xs s)"
  by (induction sendRes m xs s rule: push_all.induct) (auto intro: stays_trans stays_push)

lemma stays_kick_push: "kick_push env K targets xs s = Ret s' \<Longrightarrow> stays s s'"
proof (induction env K targets xs s rule: kick_push.induct)
  case (2 env K targets h st rest s)
  show ?case
  proof (cases "targets h")
    case (Some sids)
    let ?s = "snd (pushToFollower (send_res env h) h st (empty_LeaderMsg\<lparr>lm_Kickoff := sids\<rparr>) s)"
    from 2(3) Some obtain hp where mark: "mark_kicked (clock env h) K sids (heap (sessionStore ?s)) = Ret hp"
      and rest: "kick_push env K targets rest (?s\<lparr>sessionStore := (sessionStore ?s)\<lparr>heap := hp\<rparr>\<rparr>) = Ret s'"
      by (auto simp: Let_def bind_out_Ret_iff)
    have "stays ?s (?s\<lparr>sessionStore := (sessionStore ?s)\<lparr>heap := hp\<rparr>\<rparr>)"
      using mark_kicked_same [OF mark] by (simp add: stays_def)
    then show ?thesis using 2(2) [OF Some refl rest] stays_push stays_trans by blast
  qed (use 2 in auto)
qed simp

lemma stays_kickoff: "kickoff env K s = Ret s' \<Longrightarrow> stays s s'"
  unfolding kickoff_def Let_def by (rule stays_kick_push)

lemma stays_inv:
  assumes "stays s s'" "ss_inv (sessionStore s)"
  shows "ss_inv (sessionStore s')"
proof -
  have "sessionStore s' = (sessionStore s)\<lparr>heap := heap (sessionStore s')\<rparr>"
    using assms(1) by (simp add: stays_def)
  then show ?thesis
    using same_but_kickoff_inv [OF assms(2), of "heap (sessionStore s')"] assms(1) by (simp add: stays_def)
qed

lemma gc_sweep_sub:
  "gc_sweep now hp live sids hubs m h = Some v \<Longrightarrow> \<exists>v0. m h = Some v0 \<and> v \<subseteq>\<^sub>m v0"
proof (induction hubs arbitrary: m)
  case (Cons k hubs)
  have "gc_hub now hp (sids k) w \<subseteq>\<^sub>m w" for w
    by (auto simp: gc_hub_eq map_le_def split: option.splits if_splits)
  then show ?case
    using Cons by (fastforce split: option.splits if_splits intro: map_le_trans)
qed auto

lemma gc_inv:
  assumes "ss_inv s" "gc ord now live quota s = (r, s')"
  shows "ss_inv s'"
proof -
  let ?m = "gc_sweep now (heap s) live (sweep_sids ord) (sweep_hubs ord) (kv s)"
  have s': "s' = s\<lparr>kv := ?m\<rparr>" using assms(2) by (auto simp: gc_def Let_def)
  have sub: "hub_map h s' \<subseteq>\<^sub>m hub_map h s" for h
    using gc_sweep_sub [of now "heap s" live "sweep_sids ord" "sweep_hubs ord" "kv s" h]
    by (auto simp: s' hub_map_def split: option.splits)
  have "dom ?m \<subseteq> dom (kv s)" using gc_sweep_sub by fast
  then have "finite (dom (kv s'))" using assms(1) by (auto simp: s' ss_inv_def intro: finite_subset)
  moreover have "finite (dom (hub_map h s'))" for h
    using finite_subset [OF map_le_implies_dom_le [OF sub [of h]]] assms(1) by (simp add: ss_inv_def)
  moreover have "hub_map h s sid = Some p" if "hub_map h s' sid = Some p" for h sid p
    using sub [of h] that by (force simp: map_le_def)
  moreover have "heap s' = heap s" by (simp add: s')
  ultimately show ?thesis
    using assms(1) unfolding ss_inv_def by metis
qed

lemma route_msg_inv:
  assumes "route_msg marshal w env hub msg s = Ret (b, s')" "ss_inv (sessionStore s)"
  shows "ss_inv (sessionStore s') \<and> hubStreams s' \<subseteq>\<^sub>m hubStreams s"
proof (cases "fm_SessionOnline msg")
  case (Some v)
  let ?s = "s\<lparr>sessionStore := online hub v (sessionStore s)\<rparr>"
  have inv: "ss_inv (sessionStore ?s)" using assms(2) by (simp add: online_fresh)
  consider "s' = ?s" | K where "kickoff env K ?s = Ret s'"
    using assms(1) Some by (auto simp: route_msg_def Let_def bind_out_Ret_iff split: if_splits)
  then show ?thesis
  proof cases
    case (2 K)
    note st = stays_kickoff [OF 2]
    have "hubStreams s' \<subseteq>\<^sub>m hubStreams s" using st by (simp add: stays_def)
    then show ?thesis using stays_inv [OF st inv] by simp
  qed (use inv in simp)
next
  case None
  then show ?thesis
    using assms by (auto simp: route_msg_def bind_out_Ret_iff del_inv sync_sessions_fresh
        split: if_splits option.splits)
qed

lemma clean_tick_inv:
  assumes "clean_tick now env ord s = Ret s'" "ss_inv (sessionStore s)"
  shows "ss_inv (sessionStore s') \<and> hubStreams s' \<subseteq>\<^sub>m hubStreams s"
proof -
  obtain r store where gc: "gc ord now (getLiveHubIds s) (sessionQuota s) (sessionStore s) = (r, store)"
    by (cases "gc ord now (getLiveHubIds s) (sessionQuota s) (sessionStore s)") auto
  let ?s = "s\<lparr>sessionStore := store\<rparr>"
  have inv: "ss_inv (sessionStore ?s)" using gc_inv [OF assms(2) gc] by simp
  consider "s' = ?s" | K where "kickoff env K ?s = Ret s'"
    using assms(1) by (auto simp: clean_tick_def gc Let_def bind_out_Ret_iff split: if_splits)
  then show ?thesis
  proof cases
    case (2 K)
    note st = stays_kickoff [OF 2]
    have "hubStreams s' \<subseteq>\<^sub>m hubStreams s" using st by (simp add: stays_def)
    then show ?thesis using stays_inv [OF st inv] by simp
  qed (use inv in simp)
qed

section \<open>All interleavings of the server's loops\<close>

text \<open>
  The goroutines of a leader: any number of \<^verbatim>\<open>Route\<close> loops (a map from streams to hub
  ids), the push loop and the cleaning loop.
\<close>

record leader =
  srv :: pushServer
  routes :: "nat \<rightharpoonup> hub_id"

inductive leader_step ::
    "(E2EMsg \<Rightarrow> string + string) \<Rightarrow> (string \<Rightarrow> string option) option \<Rightarrow> leader \<Rightarrow> leader \<Rightarrow> bool" for marshal w where
  connect: "hub \<noteq> [] \<Longrightarrow> routes l st = None \<Longrightarrow>
     leader_step marshal w l (l\<lparr>srv := addStream hub st (srv l), routes := (routes l)(st \<mapsto> hub)\<rparr>)"
| receive: "routes l st = Some hub \<Longrightarrow> route_msg marshal w env hub msg (srv l) = Ret (True, s') \<Longrightarrow>
     leader_step marshal w l (l\<lparr>srv := s'\<rparr>)"
| shutdown: "routes l st = Some hub \<Longrightarrow> route_msg marshal w env hub msg (srv l) = Ret (False, s') \<Longrightarrow>
     leader_step marshal w l (l\<lparr>srv := removeStream hub s', routes := (routes l)(st := None)\<rparr>)"
| recv_error: "routes l st = Some hub \<Longrightarrow>
     leader_step marshal w l (l\<lparr>srv := removeStream hub (srv l), routes := (routes l)(st := None)\<rparr>)"
| broadcast: "leader_step marshal w l (l\<lparr>srv := run_msg copy_order order sendRes msg (srv l)\<rparr>)"
| tick: "clean_tick now env ord (srv l) = Ret s' \<Longrightarrow> leader_step marshal w l (l\<lparr>srv := s'\<rparr>)"
| ctx_done: "leader_step marshal w l (l\<lparr>srv := (srv l)\<lparr>sessionStore := empty_store (sessionStore (srv l))\<rparr>\<rparr>)"

inductive leader_reach ::
    "(E2EMsg \<Rightarrow> string + string) \<Rightarrow> (string \<Rightarrow> string option) option \<Rightarrow> leader \<Rightarrow> bool" for marshal w where
  start: "leader_reach marshal w \<lparr>srv = newPushServer quota maxSize, routes = Map.empty\<rparr>"
| step: "leader_reach marshal w l \<Longrightarrow> leader_step marshal w l l' \<Longrightarrow> leader_reach marshal w l'"

definition leader_inv :: "leader \<Rightarrow> bool" where
  "leader_inv l \<longleftrightarrow> ss_inv (sessionStore (srv l)) \<and>
     (\<forall>h st. hubStreams (srv l) h = Some st \<longrightarrow> routes l st = Some h)"

lemma leader_invD: "leader_inv l \<Longrightarrow> ss_inv (sessionStore (srv l))"
  by (simp add: leader_inv_def)

lemma leader_inv_sub:
  "leader_inv l \<Longrightarrow> ss_inv (sessionStore s') \<Longrightarrow> hubStreams s' \<subseteq>\<^sub>m hubStreams (srv l) \<Longrightarrow> leader_inv (l\<lparr>srv := s'\<rparr>)"
  by (force simp: leader_inv_def map_le_def)

lemma leader_inv_close:
  assumes "leader_inv l" "routes l st = Some hub" "ss_inv (sessionStore s')" "hubStreams s' \<subseteq>\<^sub>m hubStreams (srv l)"
  shows "leader_inv (l\<lparr>srv := removeStream hub s', routes := (routes l)(st := None)\<rparr>)"
  using assms by (force simp: leader_inv_def map_le_def removeStream_def)

lemma leader_step_inv: "leader_step marshal w l l' \<Longrightarrow> leader_inv l \<Longrightarrow> leader_inv l'"
proof (induction rule: leader_step.induct)
  case (connect hub l st)
  then show ?case by (auto simp: leader_inv_def addStream_def)
next
  case (receive l st hub env msg s')
  then show ?case using route_msg_inv [OF receive(2)] by (blast intro: leader_inv_sub dest: leader_invD)
next
  case (shutdown l st hub env msg s')
  then show ?case using route_msg_inv [OF shutdown(2)] by (blast intro: leader_inv_close dest: leader_invD)
next
  case (recv_error l st hub)
  then show ?case using leader_inv_close [OF recv_error(2,1) leader_invD] by simp
next
  case (broadcast l copy_order order sendRes msg)
  have "stays (srv l) (run_msg copy_order order sendRes msg (srv l))"
    unfolding run_msg_def by (rule stays_push_all)
  then show ?case
    using broadcast leader_inv_sub leader_invD stays_inv unfolding stays_def by metis
next
  case (tick now env ord l s')
  then show ?case using clean_tick_inv [OF tick(1)] by (blast intro: leader_inv_sub dest: leader_invD)
next
  case (ctx_done l)
  then show ?case by (simp add: leader_inv_def ss_inv_empty)
qed

lemma route_loop_ends:
  "route_loop marshal w hub rs s = (r, s') \<Longrightarrow> r \<noteq> Receiving \<Longrightarrow> hubStreams s' hub = None"
  by (induction marshal w hub rs s rule: route_loop.induct)
    (auto simp: removeStream_def split: outcome.splits bool.splits prod.splits)

lemma push_all_eq:
  assumes "distinct (map fst xs)"
  shows "push_all sendRes msg xs s =
    s\<lparr>hubStreams := (\<lambda>h. if h \<in> fst ` set xs \<and> lost sendRes h then None else hubStreams s h),
      sent := sent s @ map (\<lambda>(h, st). (st, msg)) (filter (\<lambda>(h, _). sendRes h = None) xs)\<rparr>"
  using assms
  by (induction xs arbitrary: s)
    (auto simp: pushToFollower_def removeStream_def lost_def fun_eq_iff split: option.splits
      intro!: pushServer.equality)

section \<open>Sessions that are kicked off again and again\<close>





lemma ptrs_hub: "ss_inv s \<Longrightarrow> p \<in> ptrs s \<Longrightarrow> hub_map (ses_HubId (heap s ! p)) s (ses_Sid (heap s ! p)) = Some p"
  by (auto simp: ptrs_def dest: ss_invD)







section \<open>A leader with one hub\<close>

definition sample_srv :: pushServer where
  "sample_srv = \<lparr>sessionQuota = 1, eventMaxSize = 1024, sessionStore = sample_ss, hubStreams = [''a'' \<mapsto> 7],
     sent = [], topic = []\<rparr>"

definition sample_env :: push_env where
  "sample_env = \<lparr>clock = (\<lambda>_. 500), send_res = (\<lambda>_. Some CodeUnavailable), kick_sids = [''y''], kick_hubs = [''a''],
     kick_streams = [''a''], store_hubs = [''a'', ''b''], store_sids = sample_sids\<rparr>"















section \<open>Properties\<close>

text \<open>C8. In every state that interleavings of the leader's goroutines can reach, the session table is
  well-formed (each entry points to a session of that hub with that id) and every registered
  stream belongs to a running \<^verbatim>\<open>Route\<close> loop of that very hub.\<close>

theorem leader_invariant:
  assumes "leader_reach marshal w l"
  shows "leader_inv l"
  using assms
proof induction
  case (start quota maxSize)
  show ?case by (simp add: leader_inv_def newPushServer_def ss_inv_new)
next
  case (step l l')
  then show ?case by (blast intro: leader_step_inv)
qed

theorem leader_invariant_witness:
  "leader_inv \<lparr>srv = addStream ''a'' 7 (newPushServer 2 1024), routes = [7 \<mapsto> ''a'']\<rparr>"
proof (rule leader_invariant [where marshal = "\<lambda>_. Inr []" and w = None])
  let ?l = "\<lparr>srv = newPushServer 2 1024, routes = Map.empty\<rparr>"
  have "leader_step (\<lambda>_. Inr []) None ?l (?l\<lparr>srv := addStream ''a'' 7 (srv ?l), routes := (routes ?l)(7 \<mapsto> ''a'')\<rparr>)"
    by (rule leader_step.connect) simp_all
  then show "leader_reach (\<lambda>_. Inr []) None \<lparr>srv = addStream ''a'' 7 (newPushServer 2 1024), routes = [7 \<mapsto> ''a'']\<rparr>"
    using leader_reach.step [OF leader_reach.start] by simp
qed

text \<open>C22. \<^verbatim>\<open>kickoff\<close> sends every connected hub that owns sessions to kick off exactly one
  message with exactly those sessions, drops the streams that turn out to be gone, and
  marks the sessions of every connected hub as kicked off, even where the push failed.\<close>

theorem kickoff_exact:
  assumes "kick_map_ok K (heap (sessionStore s))" "kick_orders_ok env K s"
  shows "\<exists>s' hs ms. kickoff env K s = Ret s' \<and>
    distinct hs \<and> set hs = {h \<in> dom (hubStreams s). target_sids K (heap (sessionStore s)) h \<noteq> {} \<and> send_res env h = None} \<and>
    list_all2 (kick_to K s) hs ms \<and> sent s' = sent s @ ms \<and>
    hubStreams s' = (\<lambda>h. if target_sids K (heap (sessionStore s)) h \<noteq> {} \<and> lost (send_res env) h
      then None else hubStreams s h) \<and>
    kv (sessionStore s') = kv (sessionStore s) \<and>
    (\<forall>p < length (heap (sessionStore s)). heap (sessionStore s') ! p =
       (if p \<in> ran K \<and> ses_HubId (heap (sessionStore s) ! p) \<in> dom (hubStreams s)
        then (heap (sessionStore s) ! p)\<lparr>ses_KickoffTime := clock env (ses_HubId (heap (sessionStore s) ! p))\<rparr>
        else heap (sessionStore s) ! p))"
proof -
  let ?hp = "heap (sessionStore s)"
  let ?t = "targets_of env K ?hp" and ?m = "\<lambda>h. if h \<in> dom (targets_of env K ?hp) then hubStreams s h else None"
  let ?xs = "entries ?m (kick_streams env)"
  have go: "go_range K (kick_sids env)" "go_range ?m (kick_streams env)"
    using assms(2) by (simp_all add: kick_orders_ok_def Let_def)
  have dom: "?t h \<noteq> None \<longleftrightarrow> target_sids K ?hp h \<noteq> {}" for h
    using targets_of_dom [OF assms(1) go(1), of h] by simp
  have fst: "h \<in> fst ` set ?xs \<longleftrightarrow> target_sids K ?hp h \<noteq> {} \<and> h \<in> dom (hubStreams s)" for h
    unfolding fst_entries [OF go(2)] using dom [of h] by (auto split: if_splits)
  have hp: "kick_heap env K ?t ?xs ?hp ! p = (if p \<in> ran K \<and> ses_HubId (?hp ! p) \<in> dom (hubStreams s)
      then (?hp ! p)\<lparr>ses_KickoffTime := clock env (ses_HubId (?hp ! p))\<rparr> else ?hp ! p)" if "p < length ?hp" for p
    unfolding nth_kickoff [OF assms(1) go(1) that] fst by (auto simp: target_sids_def ran_def)
  have streams: "(\<lambda>h. if h \<in> fst ` set ?xs \<and> ?t h \<noteq> None \<and> lost (send_res env) h then None else hubStreams s h) =
      (\<lambda>h. if target_sids K ?hp h \<noteq> {} \<and> lost (send_res env) h then None else hubStreams s h)"
    using dom by (force simp: fst fun_eq_iff)
  obtain hs where "distinct hs"
    "set hs = {h \<in> dom (hubStreams s). target_sids K ?hp h \<noteq> {} \<and> send_res env h = None}"
    "list_all2 (kick_to K s) hs (kick_sent env ?t ?xs)"
    using kick_sent_spec [OF assms] by blast
  then show ?thesis
    unfolding kickoff_eq [OF assms] Let_def streams
    by (intro exI [of _ hs] exI [of _ "kick_sent env ?t ?xs"] exI conjI) (rule refl | assumption | simp add: hp cong: if_cong)+
qed

theorem kickoff_exact_witness:
  "\<exists>s' ms. kickoff sample_env [''y'' \<mapsto> 1] sample_srv = Ret s' \<and> length ms = 0 \<and> sent s' = ms \<and>
     hubStreams s' ''a'' = None \<and> ses_KickoffTime (heap (sessionStore s') ! 1) = 500"
proof -
  have K: "kick_map_ok [''y'' \<mapsto> 1] (heap (sessionStore sample_srv))"
    by (simp add: kick_map_ok_def sample_srv_def sample_ss_def)
  have targets: "targets_of sample_env [''y'' \<mapsto> 1] (heap (sessionStore sample_srv)) = [''a'' \<mapsto> [''y'']]"
    by (simp add: targets_of_def sample_env_def sample_srv_def sample_ss_def)
  have ord: "kick_orders_ok sample_env [''y'' \<mapsto> 1] sample_srv"
    unfolding kick_orders_ok_def targets
    by (auto simp: go_range_def sample_env_def sample_srv_def split: if_splits)
  have tgt: "target_sids [''y'' \<mapsto> 1] (heap (sessionStore sample_srv)) h = (if h = ''a'' then {''y''} else {})" for h
    by (auto simp: target_sids_def sample_srv_def sample_ss_def)
  from kickoff_exact [OF K ord] show ?thesis
    unfolding tgt
    by (elim exE conjE) (auto simp: sample_srv_def sample_env_def sample_ss_def lost_def gone_def split: if_splits)
qed

text \<open>A hub's stream is registered no longer than its \<^verbatim>\<open>Route\<close> call: whatever messages and
  errors arrive, and also when a handler panics, the stream is gone when the call ends; an
  orderly end of the connection is not reported as an error.\<close>

theorem Route_unregisters:
  assumes "Route marshal w md stream rs s = (r, s')" "hub_of_metadata md \<noteq> []" "r \<noteq> Receiving"
  shows "hubStreams s' (hub_of_metadata md) = None \<and> (\<forall>err. r = Returned (Some err) \<longrightarrow> \<not> gone err)"
proof -
  have loop: "route_loop marshal w (hub_of_metadata md) rs (addStream (hub_of_metadata md) stream s) = (r, s')"
    using assms(1,2) by (simp add: Route_def Let_def)
  have "route_loop marshal w h rs s = (Returned (Some err), s') \<Longrightarrow> \<not> gone err" for h s err
    by (induction marshal w h rs s rule: route_loop.induct)
      (auto split: outcome.splits bool.splits prod.splits if_splits)
  then show ?thesis using route_loop_ends [OF loop assms(3)] loop by blast
qed

theorem Route_unregisters_witness:
  "hubStreams (snd (Route (\<lambda>_. Inr []) None (Some [''a'']) 7 [Inl CodeUnavailable] (newPushServer 2 1024))) ''a'' = None"
  using Route_unregisters [of "\<lambda>_. Inr []" None "Some [''a'']" 7 "[Inl CodeUnavailable]" "newPushServer 2 1024"
      "Returned None" "removeStream ''a'' (addStream ''a'' 7 (newPushServer 2 1024))"]
  by (simp add: Route_def Let_def hub_of_metadata_def gone_def)

text \<open>A message of the leader reaches every connected hub once, unless sending it fails;
  exactly the streams whose failure shows that the peer is gone are dropped.\<close>

theorem broadcast_exact:
  assumes "go_range (hubStreams s) copy_order" "go_range (hubStreams s) order"
  shows "\<exists>hs. distinct hs \<and> set hs = {h \<in> dom (hubStreams s). sendRes h = None} \<and>
    run_msg copy_order order sendRes msg s =
      s\<lparr>hubStreams := (\<lambda>h. if lost sendRes h then None else hubStreams s h),
        sent := sent s @ map (\<lambda>h. (the (hubStreams s h), msg)) hs\<rparr>"
proof -
  let ?xs = "entries (hubStreams s) order" and ?ok = "\<lambda>(h, _). sendRes h = None"
  have xs: "set ?xs = {(h, st). hubStreams s h = Some st}" by (rule set_entries_range [OF assms(2)])
  have d: "distinct (map fst ?xs)" using assms(2) by (auto simp: go_range_def intro: distinct_fst_entries)
  have "map (\<lambda>(h, st). (st, msg)) (filter ?ok ?xs) = map (\<lambda>h. (the (hubStreams s h), msg)) (map fst (filter ?ok ?xs))"
    using xs by auto
  moreover have "set (map fst (filter ?ok ?xs)) = {h \<in> dom (hubStreams s). sendRes h = None}" using xs by force
  moreover have "(\<lambda>h. if h \<in> fst ` set ?xs \<and> lost sendRes h then None else hubStreams s h) =
      (\<lambda>h. if lost sendRes h then None else hubStreams s h)"
    unfolding fst_entries [OF assms(2)] by (auto simp: fun_eq_iff)
  moreover have "distinct (map fst (filter ?ok ?xs))" using d by (rule distinct_map_filter)
  ultimately show ?thesis
    unfolding run_msg_def copyStreams_eq [OF assms(1)] push_all_eq [OF d]
    by (intro exI [of _ "map fst (filter ?ok ?xs)"]) simp
qed

theorem broadcast_exact_witness:
  "\<exists>hs. set hs = {} \<and> run_msg [''a''] [''a''] (\<lambda>_. Some IoEOF) empty_LeaderMsg sample_srv =
     sample_srv\<lparr>hubStreams := (\<lambda>h. None), sent := []\<rparr>"
proof -
  have "go_range (hubStreams sample_srv) [''a'']" by (simp add: go_range_def sample_srv_def)
  from broadcast_exact [OF this this, of "\<lambda>_. Some IoEOF" empty_LeaderMsg] show ?thesis
    by (auto simp: lost_def gone_def sample_srv_def)
qed



end
