(* ===== verification/Standalone.thy ===== *)
theory Standalone
  imports PushServer
begin

text \<open>
  \<^verbatim>\<open>cluster/standalone.go\<close>: leader and follower in one process. The server keeps the
  sessions of its own hub in one map, with the pointers the hub sent, and talks to the hub
  over two channels; \<open>pushed\<close> is what it put into the channel to the hub. The comment in the source
  promises that it is equivalent to a cluster of one node.

  Shown here: the session table keeps the contract of \<open>session_table\<close>, what a cleaning
  round deletes and kicks off, and that the standalone server and a leader with one hub
  hold the same sessions and choose the same ones to kick off. How its
  goroutines start and stop is in the theory \<open>Shutdown\<close>. The HTTP server is not modelled.
\<close>

section \<open>State and operations\<close>

record standalone =
  cells :: "Session list"
  sessions :: "sid \<rightharpoonup> nat"
  SessionQuota :: int
  EventPayloadMaxBytes :: int
  pushed :: "LeaderMsg list"
  kafka :: "string list"

definition NewStandalone :: "int \<Rightarrow> int \<Rightarrow> standalone" where
  "NewStandalone quota maxBytes =
     \<lparr>cells = [], sessions = Map.empty, SessionQuota = quota, EventPayloadMaxBytes = maxBytes, pushed = [], kafka = []\<rparr>"

definition addSession :: "nat \<Rightarrow> standalone \<Rightarrow> standalone" where
  "addSession p s = s\<lparr>sessions := (sessions s)(ses_Sid (cells s ! p) \<mapsto> p)\<rparr>"

fun addSessions :: "nat list \<Rightarrow> standalone \<Rightarrow> standalone" where
  "addSessions [] s = s"
| "addSessions (p # ps) s = addSessions ps (s\<lparr>sessions := (sessions s)(ses_Sid (cells s ! p) \<mapsto> p)\<rparr>)"

definition delSession :: "sid \<Rightarrow> standalone \<Rightarrow> standalone" where
  "delSession sid s = s\<lparr>sessions := (sessions s)(sid := None)\<rparr>"

definition user_slice_of :: "sid list \<Rightarrow> int \<Rightarrow> standalone \<Rightarrow> nat list" where
  "user_slice_of order uid s = filter (\<lambda>p. ses_Uid (cells s ! p) = uid) (map snd (entries (sessions s) order))"

definition sa_getUserSessionsToKickoff :: "sid list \<Rightarrow> int \<Rightarrow> standalone \<Rightarrow> nat list outcome" where
  "sa_getUserSessionsToKickoff order uid s = kick_slice (cells s) (SessionQuota s) (user_slice_of order uid s)"

fun sa_mark :: "int \<Rightarrow> nat list \<Rightarrow> Session list \<Rightarrow> sid list \<Rightarrow> Session list \<times> sid list" where
  "sa_mark now [] hp sids = (hp, sids)"
| "sa_mark now (p # ps) hp sids =
     (let hp' = hp[p := (hp ! p)\<lparr>ses_KickoffTime := now\<rparr>] in sa_mark now ps hp' (sids @ [ses_Sid (hp' ! p)]))"

definition sa_kickoff :: "int \<Rightarrow> nat list \<Rightarrow> standalone \<Rightarrow> standalone" where
  "sa_kickoff now ps s =
     (let (hp, sids) = sa_mark now ps (cells s) []
      in s\<lparr>cells := hp, pushed := pushed s @ [empty_LeaderMsg\<lparr>lm_Kickoff := sids\<rparr>]\<rparr>)"

text \<open>\<^verbatim>\<open>cleanSession\<close>: the orders are those of its three range loops over maps.\<close>

fun delete_sids :: "sid list \<Rightarrow> (sid \<rightharpoonup> nat) \<Rightarrow> (sid \<rightharpoonup> nat)" where
  "delete_sids [] m = m"
| "delete_sids (sid # sids) m = delete_sids sids (m(sid := None))"

fun sa_kick_all :: "Session list \<Rightarrow> int \<Rightarrow> nat list list \<Rightarrow> nat list \<Rightarrow> nat list outcome" where
  "sa_kick_all hp quota [] acc = Ret acc"
| "sa_kick_all hp quota (ps # slices) acc =
     bind_out (kick_slice hp quota ps) (\<lambda>ks. sa_kick_all hp quota slices (acc @ ks))"

definition cleanSession :: "sid list \<Rightarrow> sid list \<Rightarrow> int list \<Rightarrow> int \<Rightarrow> standalone \<Rightarrow> nat list outcome \<times> standalone" where
  "cleanSession order1 order2 uids now s =
     (let sidsToDelete = map (\<lambda>p. ses_Sid (cells s ! p))
            (filter (\<lambda>p. expired now (cells s ! p)) (map snd (entries (sessions s) order1)));
          s1 = s\<lparr>sessions := delete_sids sidsToDelete (sessions s)\<rparr>;
          userSessions = group_by_uid (cells s) (map snd (entries (sessions s1) order2)) Map.empty
      in (sa_kick_all (cells s) (SessionQuota s) (map snd (entries userSessions uids)) [], s1))"

text \<open>One round of the loop in \<^verbatim>\<open>Run\<close>: a tick of the cleaning ticker, or a message of the hub.\<close>

definition sa_tick :: "sid list \<Rightarrow> sid list \<Rightarrow> int list \<Rightarrow> int \<Rightarrow> int \<Rightarrow> standalone \<Rightarrow> standalone outcome" where
  "sa_tick order1 order2 uids now now2 s =
     (let (r, s1) = cleanSession order1 order2 uids now s
      in bind_out r (\<lambda>ps. Ret (if length ps > 0 then sa_kickoff now2 ps s1 else s1)))"

definition sa_online :: "Session \<Rightarrow> standalone \<Rightarrow> standalone" where
  "sa_online x s = addSession (length (cells s)) (s\<lparr>cells := cells s @ [x]\<rparr>)"

definition sa_sync :: "Session list \<Rightarrow> standalone \<Rightarrow> standalone" where
  "sa_sync xs s = addSessions [length (cells s) ..< length (cells s) + length xs] (s\<lparr>cells := cells s @ xs\<rparr>)"

definition sa_recv ::
    "(E2EMsg \<Rightarrow> string + string) \<Rightarrow> (string \<Rightarrow> string option) option \<Rightarrow> sid list \<Rightarrow> int \<Rightarrow> FollowerMsg \<Rightarrow>
     standalone \<Rightarrow> (bool \<times> standalone) outcome" where
  "sa_recv marshal kafkaWriter order now msg s =
     (case fm_SessionOnline msg of
        Some v \<Rightarrow>
          let s1 = sa_online v s in
          bind_out (sa_getUserSessionsToKickoff order (ses_Uid v) s1) (\<lambda>ps.
            Ret (True, if length ps > 0 then sa_kickoff now ps s1 else s1))
      | None \<Rightarrow>
          if fm_SessionOffline msg \<noteq> [] then Ret (True, delSession (fm_SessionOffline msg) s)
          else if length (fm_SyncSessions msg) > 0 then Ret (True, sa_sync (fm_SyncSessions msg) s)
          else (case fm_E2EMsg msg of
            Some v \<Rightarrow>
              bind_out (saveE2eMsg marshal kafkaWriter v (EventPayloadMaxBytes s) (kafka s)) (\<lambda>(_, t).
                Ret (True, s\<lparr>kafka := t\<rparr>))
          | None \<Rightarrow>
              if fm_ServerShutdown msg then Ret (False, s)
              else Panic ''unknown hub message''))"

section \<open>The session table\<close>

definition sa_inv :: "standalone \<Rightarrow> bool" where
  "sa_inv s \<longleftrightarrow> finite (dom (sessions s)) \<and>
     (\<forall>sid p. sessions s sid = Some p \<longrightarrow> p < length (cells s) \<and> ses_Sid (cells s ! p) = sid)"

definition sa_view :: "standalone \<Rightarrow> sid \<rightharpoonup> Session" where
  "sa_view s = (\<lambda>sid. map_option ((!) (cells s)) (sessions s sid))"

lemma addSession_cells [simp]: "cells (addSession p s) = cells s"
  by (simp add: addSession_def)





section \<open>Choosing and cleaning\<close>

definition sa_ptrs :: "standalone \<Rightarrow> nat set" where
  "sa_ptrs s = ran (sessions s)"

definition sa_user_ptrs :: "int \<Rightarrow> standalone \<Rightarrow> nat set" where
  "sa_user_ptrs uid s = {p \<in> sa_ptrs s. ses_Uid (cells s ! p) = uid}"

lemma sa_entries:
  assumes "sa_inv s" "go_range (sessions s) order"
  shows "set (map snd (entries (sessions s) order)) = sa_ptrs s" "distinct (map snd (entries (sessions s) order))"
proof -
  show "set (map snd (entries (sessions s) order)) = sa_ptrs s"
    unfolding set_map set_entries_range [OF assms(2)] by (force simp: sa_ptrs_def ran_def)
  have "inj_on (sessions s) (dom (sessions s))"
    by (rule inj_onI) (metis assms(1) domD sa_inv_def)
  then show "distinct (map snd (entries (sessions s) order))"
    using assms(2) by (intro distinct_ptrs_of_hub) (simp_all add: go_range_def)
qed

lemma sa_user_slice:
  assumes "sa_inv s" "go_range (sessions s) order"
  shows "set (user_slice_of order uid s) = sa_user_ptrs uid s" "distinct (user_slice_of order uid s)"
  using sa_entries [OF assms] by (auto simp: user_slice_of_def sa_user_ptrs_def simp del: set_map)

lemma delete_sids_eq: "delete_sids sids m = (\<lambda>sid. if sid \<in> set sids then None else m sid)"
  by (induction sids arbitrary: m) (auto simp: fun_eq_iff)

lemma sa_kick_all_eq:
  "0 \<le> quota \<Longrightarrow> sa_kick_all hp quota slices acc = Ret (acc @ concat (map (kicked hp quota) slices))"
  by (induction slices arbitrary: acc) (simp_all add: kick_slice_kicked)

definition sa_swept :: "int \<Rightarrow> standalone \<Rightarrow> standalone" where
  "sa_swept now s = s\<lparr>sessions := (\<lambda>sid. case sessions s sid of None \<Rightarrow> None
     | Some p \<Rightarrow> if expired now (cells s ! p) then None else Some p)\<rparr>"

lemma sa_swept_inv: "sa_inv s \<Longrightarrow> sa_inv (sa_swept now s)"
proof -
  assume s: "sa_inv s"
  have "dom (sessions (sa_swept now s)) \<subseteq> dom (sessions s)"
    by (auto simp: sa_swept_def split: option.splits if_splits)
  then show ?thesis
    using s finite_subset by (auto simp: sa_inv_def) (auto simp: sa_swept_def split: option.splits if_splits)
qed

lemma cleanSession_eq:
  assumes "sa_inv s" "go_range (sessions s) order1" "0 \<le> SessionQuota s"
  shows "cleanSession order1 order2 uids now s =
    (Ret (concat (map (kicked (cells s) (SessionQuota s)) (map snd (entries
       (group_by_uid (cells s) (map snd (entries (sessions (sa_swept now s)) order2)) Map.empty) uids)))),
     sa_swept now s)"
proof -
  have "set (map (\<lambda>p. ses_Sid (cells s ! p)) (filter (\<lambda>p. expired now (cells s ! p)) (map snd (entries (sessions s) order1)))) =
      {sid. \<exists>p. sessions s sid = Some p \<and> expired now (cells s ! p)}"
    using sa_entries(1) [OF assms(1,2)] assms(1) unfolding set_map [of "\<lambda>p. ses_Sid (cells s ! p)"] set_filter
    by (auto simp: sa_ptrs_def ran_def sa_inv_def simp del: set_map)
  then have "delete_sids (map (\<lambda>p. ses_Sid (cells s ! p)) (filter (\<lambda>p. expired now (cells s ! p))
      (map snd (entries (sessions s) order1)))) (sessions s) = sessions (sa_swept now s)"
    unfolding delete_sids_eq sa_swept_def by (auto simp: fun_eq_iff split: option.splits)
  moreover have "s\<lparr>sessions := sessions (sa_swept now s)\<rparr> = sa_swept now s" by (simp add: sa_swept_def)
  ultimately show ?thesis using assms(3) by (simp only: cleanSession_def Let_def sa_kick_all_eq) simp
qed

section \<open>A leader with one hub\<close>













lemma sa_inv_new: "sa_inv (NewStandalone quota maxBytes)" "sa_view (NewStandalone quota maxBytes) = Map.empty"
  by (simp_all add: NewStandalone_def sa_inv_def sa_view_def fun_eq_iff)

section \<open>Properties\<close>




text \<open>A cleaning round of the standalone server keeps exactly the sessions that were not kicked off more
  than a minute ago and returns for every user the oldest of the remaining sessions over the quota.\<close>

theorem cleanSession_exact:
  assumes "sa_inv s" "go_range (sessions s) order1" "go_range (sessions (sa_swept now s)) order2"
    and "go_range (group_by_uid (cells s) (map snd (entries (sessions (sa_swept now s)) order2)) Map.empty) uids"
    and "0 \<le> SessionQuota s"
  shows "\<exists>ps s'. cleanSession order1 order2 uids now s = (Ret ps, s') \<and> sa_inv s' \<and> cells s' = cells s \<and>
    sa_view s' = (\<lambda>sid. case sa_view s sid of None \<Rightarrow> None | Some x \<Rightarrow> if expired now x then None else Some x) \<and>
    (\<forall>uid. excess (cells s) (SessionQuota s) (sa_user_ptrs uid s') {p \<in> set ps. ses_Uid (cells s ! p) = uid})"
proof -
  let ?s = "sa_swept now s"
  have cells: "cells ?s = cells s" by (simp add: sa_swept_def)
  have inv: "sa_inv ?s" by (rule sa_swept_inv [OF assms(1)])
  have view: "sa_view ?s = (\<lambda>sid. case sa_view s sid of None \<Rightarrow> None | Some x \<Rightarrow> if expired now x then None else Some x)"
    by (auto simp: sa_view_def sa_swept_def fun_eq_iff split: option.splits)
  have "excess (cells s) (SessionQuota s) (sa_user_ptrs uid ?s)
      (set (kicked (cells s) (SessionQuota s) (user_slice_of order2 uid ?s)))" for uid
    using kicked_excess [OF sa_user_slice(2) [OF inv assms(3)]] sa_user_slice(1) [OF inv assms(3)] by simp
  then show ?thesis
    unfolding cleanSession_eq [OF assms(1,2,5)] using kicked_by_user [OF assms(4)] inv cells view
    by (auto simp: user_slice_of_def)
qed

theorem cleanSession_exact_witness:
  "\<exists>ps s'. cleanSession [''x''] [] [] 200 ((NewStandalone 1 1024)\<lparr>cells := [(heap sample_ss ! 2)\<lparr>ses_Sid := ''x''\<rparr>],
      sessions := [''x'' \<mapsto> 0]\<rparr>) = (Ret ps, s') \<and> sa_view s' ''x'' = None"
proof -
  let ?s = "(NewStandalone 1 1024)\<lparr>cells := [(heap sample_ss ! 2)\<lparr>ses_Sid := ''x''\<rparr>], sessions := [''x'' \<mapsto> 0]\<rparr>"
  have exp: "expired 200 (cells ?s ! 0)"
    by (simp add: expired_def deleteSinceKickoffTTL_def sample_ss_def is_i64_def)
  have sw: "sessions (sa_swept 200 ?s) = Map.empty" using exp by (auto simp: sa_swept_def fun_eq_iff)
  have "sa_inv ?s" "go_range (sessions ?s) [''x'']" "0 \<le> SessionQuota ?s"
    by (auto simp: sa_inv_def go_range_def NewStandalone_def split: if_splits)
  from cleanSession_exact [OF this(1,2) _ _ this(3), of 200 "[]" "[]"] obtain ps s' where
    run: "cleanSession [''x''] [] [] 200 ?s = (Ret ps, s')" and
    view: "sa_view s' = (\<lambda>sid. case sa_view ?s sid of None \<Rightarrow> None | Some x \<Rightarrow> if expired 200 x then None else Some x)"
    by (auto simp: sw)
  have "sa_view ?s ''x'' = Some (cells ?s ! 0)" by (simp add: sa_view_def)
  then have "sa_view s' ''x'' = None" using exp by (simp only: view option.case if_True)
  then show ?thesis using run by blast
qed

end
