(* ===== verification/EventApi.thy ===== *)
theory EventApi
  imports EventStore
begin

text \<open>
  \<^verbatim>\<open>ws/eventapi.go\<close> and the request part of \<^verbatim>\<open>ws/handler.go\<close>: how the requests of a
  websocket client are validated, sent to the event store and answered.

  The text of a database error (\<^verbatim>\<open>err.Error()\<close>) is a function argument, and so is the JSON
  decoder. The answer to one incoming message is the list of values that \<^verbatim>\<open>recvLoop\<close>
  appends to the data channel of the session, a message for the leader if there is one, and
  whether the loop goes on.

  Shown here: which requests reach the store, that the limit on the range of
  \<^verbatim>\<open>GetEvents\<close> never rejects a non-empty range, and that answers do not depend on the text
  of database errors.
\<close>

section \<open>Errors\<close>

definition MinTTLDays :: int where "MinTTLDays = 7"

definition MaxTTLDays :: int where "MaxTTLDays = 100"

definition MinGetEventsLimit :: int where "MinGetEventsLimit = 25"

definition MaxGetEventsLimit :: int where "MaxGetEventsLimit = 100"

definition ErrorCodeInvalidArguments :: int where
  "ErrorCodeInvalidArguments = 3"

definition ErrorCodeInternal :: int where
  "ErrorCodeInternal = 13"

definition newInvalidArgumentError :: "ClientMsg option \<Rightarrow> string list \<Rightarrow> Error" where
  "newInvalidArgumentError req errs = \<lparr>err_Code = ErrorCodeInvalidArguments, err_Params = errs, err_Req = req\<rparr>"

definition newInternalError :: "ClientMsg option \<Rightarrow> string \<Rightarrow> Error" where
  "newInternalError req err = \<lparr>err_Code = ErrorCodeInternal, err_Params = [err], err_Req = req\<rparr>"

definition interceptError :: "Error \<Rightarrow> Error" where
  "interceptError err =
     (if err_Code err = ErrorCodeInternal then err\<lparr>err_Params := [''temp storage error'']\<rparr> else err)"

section \<open>The event API\<close>

definition api_Stats ::
    "mysql \<Rightarrow> (int \<Rightarrow> int) \<Rightarrow> int \<Rightarrow> env \<Rightarrow> (dberr \<Rightarrow> string) \<Rightarrow> WsConf \<Rightarrow> int \<Rightarrow> StatsReq \<Rightarrow> db \<Rightarrow> (Error + StatsResp) \<times> db" where
  "api_Stats my startOfDay now en errText conf uid req d =
     (case Stats my startOfDay now en uid (EventTtlDays conf) req d of
        (Inl err, d') \<Rightarrow> (Inl (newInternalError (Some (empty_ClientMsg\<lparr>cm_Stats := Some req\<rparr>)) (errText err)), d')
      | (Inr stats, d') \<Rightarrow> (Inr (stats\<lparr>st_Conf := Some conf\<rparr>), d'))"

definition range_errors :: "WsConf \<Rightarrow> GetEventsReq \<Rightarrow> string list" where
  "range_errors conf req =
     (if FromSeq req \<le> 0 then [''from_seq: should be positive integer''] else []) @
     (if ToSeq req \<le> 0 then [''to_seq: should be positive integer''] else []) @
     (if i32 (FromSeq req - ToSeq req) \<ge> GetEventsLimit conf
      then [''seq range: exceeds limit: '' @ show_int (GetEventsLimit conf)] else [])"

definition api_GetEvents ::
    "env \<Rightarrow> (dberr \<Rightarrow> string) \<Rightarrow> WsConf \<Rightarrow> int \<Rightarrow> GetEventsReq \<Rightarrow> db \<Rightarrow> (Error + GetEventsResp) \<times> db" where
  "api_GetEvents en errText conf uid req d =
     (let errs = range_errors conf req; creq = Some (empty_ClientMsg\<lparr>cm_GetEvents := Some req\<rparr>) in
      if length errs > 0 then (Inl (newInvalidArgumentError creq errs), d)
      else case GetEvents en uid req d of
        (Inl err, d') \<Rightarrow> (Inl (newInternalError creq (errText err)), d')
      | (Inr resp, d') \<Rightarrow> (Inr resp, d'))"

definition api_SetRead ::
    "env \<Rightarrow> (dberr \<Rightarrow> string) \<Rightarrow> int \<Rightarrow> SetReadReq \<Rightarrow> db \<Rightarrow> (Error + SetReadResp) \<times> db" where
  "api_SetRead en errText uid req d =
     (let creq = Some (empty_ClientMsg\<lparr>cm_SetRead := Some req\<rparr>) in
      if sr_Seq req \<le> 0 then (Inl (newInvalidArgumentError creq [''seq: should be positive integer'']), d)
      else case SetRead en uid (sr_Seq req) d of
        (Inl err, d') \<Rightarrow> (Inl (newInternalError creq (errText err)), d')
      | (Inr resp, d') \<Rightarrow> (Inr resp, d'))"

definition api_GetReadStates ::
    "mysql \<Rightarrow> (int \<Rightarrow> int) \<Rightarrow> int \<Rightarrow> env \<Rightarrow> (dberr \<Rightarrow> string) \<Rightarrow> WsConf \<Rightarrow> int \<Rightarrow> GetReadStatesReq \<Rightarrow> db \<Rightarrow>
     (Error + GetReadStatesResp) outcome \<times> db" where
  "api_GetReadStates my startOfDay now en errText conf uid req d =
     (let creq = Some (empty_ClientMsg\<lparr>cm_GetReadStates := Some req\<rparr>) in
      if gr_HeadSeq req \<le> 0 then (Ret (Inl (newInvalidArgumentError creq [''head_seq: should be positive integer''])), d)
      else case GetReadStates my startOfDay now en uid (EventTtlDays conf) req d of
        (r, d') \<Rightarrow> (bind_out r (\<lambda>x. Ret (case x of
            Inl err \<Rightarrow> Inl (newInternalError creq (errText err))
          | Inr resp \<Rightarrow> Inr resp)), d'))"

section \<open>Answering a message\<close>

datatype SessionError = ReadError | WriteError | PingError | BadRequest | ServerStop | KickedOff

datatype SessionData = SdError SessionError | SdMsg ServerMsg

abbreviation answer :: "ServerMsg \<Rightarrow> SessionData list" where
  "answer m \<equiv> [SdMsg m]"

definition error_msg :: "Error \<Rightarrow> ServerMsg" where
  "error_msg err = empty_ServerMsg\<lparr>sm_Error := Some err\<rparr>"

record reply =
  to_client :: "SessionData list"
  to_cluster :: "E2EMsg list"
  goes_on :: bool

definition reply_to :: "SessionData list \<Rightarrow> reply" where
  "reply_to xs = \<lparr>to_client = xs, to_cluster = [], goes_on = True\<rparr>"

definition request ::
    "mysql \<Rightarrow> (int \<Rightarrow> int) \<Rightarrow> int \<Rightarrow> env \<Rightarrow> (dberr \<Rightarrow> string) \<Rightarrow> WsConf \<Rightarrow> int \<Rightarrow> ClientMsg \<Rightarrow> db \<Rightarrow> reply outcome \<times> db" where
  "request my startOfDay now en errText conf uid req d =
     (case cm_Stats req of
        Some v \<Rightarrow>
          (case api_Stats my startOfDay now en errText conf uid v d of
             (Inl err, d') \<Rightarrow> (Ret (reply_to (answer (error_msg (interceptError err)))), d')
           | (Inr resp, d') \<Rightarrow> (Ret (reply_to (answer (empty_ServerMsg\<lparr>sm_Stats := Some resp\<rparr>))), d'))
      | None \<Rightarrow> (case cm_GetEvents req of
        Some v \<Rightarrow>
          (case api_GetEvents en errText conf uid v d of
             (Inl err, d') \<Rightarrow> (Ret (reply_to (answer (error_msg (interceptError err)))), d')
           | (Inr resp, d') \<Rightarrow> (Ret (reply_to (answer (empty_ServerMsg\<lparr>sm_GetEvents := Some resp\<rparr>))), d'))
      | None \<Rightarrow> (case cm_SetRead req of
        Some v \<Rightarrow>
          (case api_SetRead en errText uid v d of
             (Inl err, d') \<Rightarrow> (Ret (reply_to (answer (error_msg (interceptError err)))), d')
           | (Inr resp, d') \<Rightarrow> (Ret (reply_to (answer (empty_ServerMsg\<lparr>sm_SetRead := Some resp\<rparr>))), d'))
      | None \<Rightarrow> (case cm_GetReadStates req of
        Some v \<Rightarrow>
          (case api_GetReadStates my startOfDay now en errText conf uid v d of
             (r, d') \<Rightarrow> (bind_out r (\<lambda>x. Ret (reply_to (answer (case x of
                 Inl err \<Rightarrow> error_msg (interceptError err)
               | Inr resp \<Rightarrow> empty_ServerMsg\<lparr>sm_GetReadStates := Some resp\<rparr>)))), d'))
      | None \<Rightarrow> (case cm_Im req of
        Some v \<Rightarrow>
          (if EnableClientMsg conf then (Ret \<lparr>to_client = [], to_cluster = [v], goes_on = True\<rparr>, d)
           else (Ret (reply_to (answer (error_msg \<lparr>err_Code = ErrorCodeInvalidArguments,
                   err_Params = [''feature is not supported''], err_Req = None\<rparr>))), d))
      | None \<Rightarrow>
          (Ret (reply_to (answer (error_msg (newInvalidArgumentError (Some req) [''unsupported request''])) @
             [SdError BadRequest])), d))))))"

text \<open>
  One round of \<^verbatim>\<open>recvLoop\<close> after \<^verbatim>\<open>ReadMessage\<close>. A decoder that fails has filled a part of
  the request, which goes into the answer.
\<close>

datatype incoming = ReadFails | BinaryMessage | TextMessage string

definition recv_round ::
    "mysql \<Rightarrow> (int \<Rightarrow> int) \<Rightarrow> int \<Rightarrow> env \<Rightarrow> (dberr \<Rightarrow> string) \<Rightarrow> (string \<Rightarrow> (string \<times> ClientMsg) + ClientMsg) \<Rightarrow> WsConf \<Rightarrow> int \<Rightarrow>
     incoming \<Rightarrow> db \<Rightarrow> reply outcome \<times> db" where
  "recv_round my startOfDay now en errText unmarshal conf uid i d =
     (case i of
        ReadFails \<Rightarrow> (Ret \<lparr>to_client = [SdError ReadError], to_cluster = [], goes_on = False\<rparr>, d)
      | BinaryMessage \<Rightarrow>
          (Ret \<lparr>to_client = answer (error_msg (newInvalidArgumentError None [''websocket only supports TextMessage''])) @
              [SdError BadRequest], to_cluster = [], goes_on = False\<rparr>, d)
      | TextMessage msg \<Rightarrow>
          (case unmarshal msg of
             Inl (err, req) \<Rightarrow>
               (Ret \<lparr>to_client = answer (error_msg (newInvalidArgumentError (Some req) [''marshal error: '' @ err])) @
                   [SdError BadRequest], to_cluster = [], goes_on = False\<rparr>, d)
           | Inr req \<Rightarrow> request my startOfDay now en errText conf uid req d))"

section \<open>Properties\<close>

lemma bind_out_bind: "bind_out (bind_out x f) g = bind_out x (\<lambda>a. bind_out (f a) g)"
  by (cases x) simp_all

lemma interceptError_internal: "interceptError (newInternalError req text) = newInternalError req ''temp storage error''"
  by (simp add: interceptError_def newInternalError_def)

lemma interceptError_invalid [simp]: "interceptError (newInvalidArgumentError req errs) = newInvalidArgumentError req errs"
  by (simp add: interceptError_def newInvalidArgumentError_def ErrorCodeInvalidArguments_def ErrorCodeInternal_def)

text \<open>C24. What a client gets to see never depends on the text of a database error: with any two ways to
  print errors the server gives the same answers and leaves the same tables.\<close>

theorem answers_hide_storage_errors:
  "recv_round my startOfDay now en errText unmarshal conf uid i d =
   recv_round my startOfDay now en errText' unmarshal conf uid i d"
  by (auto simp: recv_round_def request_def api_Stats_def api_GetEvents_def api_SetRead_def api_GetReadStates_def
      interceptError_internal Let_def bind_out_bind
      split: incoming.split sum.split option.split prod.split intro!: arg_cong [where f = "bind_out _"])

text \<open>The limit on the range of \<^verbatim>\<open>GetEvents\<close> is no limit: every range from a positive number up to a
  larger one passes the validation and is answered by the store, however long it is; ranges
  that the limit does reject are empty.\<close>

theorem range_limit_ineffective:
  assumes "0 < GetEventsLimit conf" "is_i32 (FromSeq req)" "is_i32 (ToSeq req)"
  shows "(0 < FromSeq req \<and> FromSeq req \<le> ToSeq req \<longrightarrow>
      api_GetEvents en errText conf uid req d =
        (case GetEvents en uid req d of
           (Inl err, d') \<Rightarrow> (Inl (newInternalError (Some (empty_ClientMsg\<lparr>cm_GetEvents := Some req\<rparr>)) (errText err)), d')
         | (Inr resp, d') \<Rightarrow> (Inr resp, d'))) \<and>
    (0 < FromSeq req \<and> 0 < ToSeq req \<and> range_errors conf req \<noteq> [] \<longrightarrow> ToSeq req < FromSeq req)"
proof -
  have w: "i32 (FromSeq req - ToSeq req) = FromSeq req - ToSeq req" if "0 < FromSeq req" "0 < ToSeq req"
    using assms that by (intro i32_id) (simp add: is_i32_def)
  show ?thesis
    using assms(1) w by (auto simp: api_GetEvents_def range_errors_def split: if_splits)
qed

definition sample_conf :: WsConf where
  "sample_conf = \<lparr>EventTtlDays = 7, GetEventsLimit = 1, EnableClientMsg = False, MaxMsgSize = 1024\<rparr>"

theorem range_limit_ineffective_witness:
  "\<exists>resp d'. api_GetEvents calm (\<lambda>_. ''error'') sample_conf 1 \<lparr>FromSeq = 1, ToSeq = 1000000\<rparr> sample_db = (Inr resp, d') \<and>
    length (Events resp) = 2"
proof -
  have "\<exists>resp d'. GetEvents calm 1 \<lparr>FromSeq = 1, ToSeq = 1000000\<rparr> sample_db = (Inr resp, d') \<and> length (Events resp) = 2"
    by (simp add: GetEvents_def withTx_def calm_def bind_tx_def stmt_def ret_tx_def getEventsSQL_def sample_db_def)
  then obtain resp d' where run: "GetEvents calm 1 \<lparr>FromSeq = 1, ToSeq = 1000000\<rparr> sample_db = (Inr resp, d')"
    "length (Events resp) = 2" by blast
  have "0 < GetEventsLimit sample_conf" "is_i32 1" "is_i32 1000000"
    by (simp_all add: sample_conf_def is_i32_def)
  with range_limit_ineffective [of sample_conf "\<lparr>FromSeq = 1, ToSeq = 1000000\<rparr>" calm "\<lambda>_. ''error''" 1 sample_db] run
  show ?thesis by simp
qed

definition supported :: "ClientMsg \<Rightarrow> bool" where
  "supported req \<longleftrightarrow> cm_Stats req \<noteq> None \<or> cm_GetEvents req \<noteq> None \<or> cm_SetRead req \<noteq> None \<or>
     cm_GetReadStates req \<noteq> None \<or> cm_Im req \<noteq> None"

lemma reply_to_sel [simp]:
  "to_client (reply_to xs) = xs" "to_cluster (reply_to xs) = []" "goes_on (reply_to xs) = True"
  by (simp_all add: reply_to_def)

lemma bind_out_RetE:
  assumes "bind_out x (\<lambda>a. Ret (f a)) = Ret b"
  obtains a where "x = Ret a" "f a = b"
  using assms by (cases x) auto

lemma request_reply:
  assumes "request my startOfDay now en errText conf uid req d = (Ret r, d')"
  shows "goes_on r" "supported req \<Longrightarrow> length (to_client r) + length (to_cluster r) = 1"
    "supported req \<Longrightarrow> SdError x \<notin> set (to_client r)"
    "\<not> supported req \<Longrightarrow> d' = d \<and> (\<exists>m. to_client r = [SdMsg m, SdError BadRequest]) \<and> to_cluster r = []"
  using assms by (auto simp: request_def supported_def elim!: bind_out_RetE split: option.splits sum.splits prod.splits if_splits)

text \<open>C25. Every message of a client that decodes is answered: a supported request by exactly one message, to
  the client or (an end to end message) to the cluster, and it never ends the session; anything
  else by an error message and the end of the session, with the tables untouched. Nothing a
  client sends ends the receive loop but a message that does not decode.\<close>

theorem requests_answered:
  assumes "recv_round my startOfDay now en errText unmarshal conf uid (TextMessage msg) d = (Ret r, d')"
  shows "case unmarshal msg of
      Inl _ \<Rightarrow> \<not> goes_on r \<and> d' = d \<and> (\<exists>m. to_client r = [SdMsg m, SdError BadRequest]) \<and> to_cluster r = []
    | Inr req \<Rightarrow> goes_on r \<and>
        (if supported req
         then length (to_client r) + length (to_cluster r) = 1 \<and> (\<forall>x. SdError x \<notin> set (to_client r))
         else d' = d \<and> (\<exists>m. to_client r = [SdMsg m, SdError BadRequest]) \<and> to_cluster r = [])"
proof (cases "unmarshal msg")
  case (Inl e)
  then show ?thesis using assms by (auto simp: recv_round_def split: prod.splits)
next
  case (Inr req)
  then have "request my startOfDay now en errText conf uid req d = (Ret r, d')"
    using assms by (simp add: recv_round_def)
  from request_reply [OF this] show ?thesis by (simp add: Inr)
qed

theorem requests_answered_witness:
  "\<exists>r. recv_round plain_mysql id 0 calm (\<lambda>_. ''error'') (\<lambda>_. Inr empty_ClientMsg) sample_conf 1 (TextMessage ''{}'') sample_db =
     (Ret r, sample_db) \<and> (\<exists>m. to_client r = [SdMsg m, SdError BadRequest])"
proof -
  have "\<exists>r d'. recv_round plain_mysql id 0 calm (\<lambda>_. ''error'') (\<lambda>_. Inr empty_ClientMsg) sample_conf 1 (TextMessage ''{}'') sample_db =
     (Ret r, d')"
    by (simp add: recv_round_def request_def empty_ClientMsg_def)
  then obtain r d' where run: "recv_round plain_mysql id 0 calm (\<lambda>_. ''error'') (\<lambda>_. Inr empty_ClientMsg) sample_conf 1
    (TextMessage ''{}'') sample_db = (Ret r, d')" by blast
  from requests_answered [OF this] run show ?thesis by (simp add: supported_def empty_ClientMsg_def)
qed

end
