(* ===== verification/WsHub.thy ===== *)
theory WsHub
  imports EventApi Sessions
begin

text \<open>
  \<^verbatim>\<open>ws/handler.go\<close>, \<^verbatim>\<open>ws/hstore.go\<close> and \<^verbatim>\<open>ws/hub.go\<close>: the websocket sessions of a node.

  A handler has two goroutines, \<^verbatim>\<open>recvLoop\<close> and \<^verbatim>\<open>sendLoop\<close>, a mutex and a channel of 16
  values; a third goroutine, \<^verbatim>\<open>Hub.Run\<close>, serves the messages of the leader for all handlers. The model
  is a step relation. Each goroutine has a program counter (\<open>rpc\<close>, \<open>spc\<close>; for \<^verbatim>\<open>Hub.Run\<close> the list
  \<open>work\<close> of what is left of the current message), and \<open>hlock\<close> says who holds the mutex and why:
  \<^verbatim>\<open>appendDataChan\<close> holds it while it waits for room in the channel, \<^verbatim>\<open>close\<close> holds it while
  it waits for the lock of the handler store. The steps of one handler that touch nothing else are a relation of
  their own, \<open>h_step\<close>. The read lock that \<^verbatim>\<open>HandlerStore.close\<close> keeps during its loop is the
  state \<open>stopping\<close>; every other section under that lock is one step.

  Network events (a message arrives, a write or a ping fails, the peer closes) are steps that may
  happen at any time. The channel to the cluster is taken to accept every message at once, and
  is kept as the list \<open>followerC\<close> of what was sent. Not modelled: the contents of log messages, timeouts as
  durations, and what the HTTP upgrade does.

  Shown here: the invariant of a node under all interleavings; that the leader knows every registered session, and how
  it comes to know dead ones; that closed handlers wind down; and three ways in which goroutines wait for ever.
\<close>

section \<open>Handlers\<close>

datatype sender_pc =
    Select
  | Writing ServerMsg
  | Reporting SessionError
  | CloseBy SessionError bool
  | InClose bool
  | SenderDone

datatype receiver_pc = Reading | Replying "SessionData list" bool | ReceiverDone

datatype owner = ByRecv SessionData | BySend SessionData | ByHub SessionData | ByClose

record handler =
  h_session :: Session
  dataChan :: "SessionData list"
  closing :: bool
  conn_open :: bool
  wrote :: "ServerMsg list"
  spc :: sender_pc
  rpc :: receiver_pc
  hlock :: "owner option"

definition chan_cap :: nat where
  "chan_cap = 16"

definition new_handler :: "Session \<Rightarrow> handler" where
  "new_handler sess = \<lparr>h_session = sess, dataChan = [], closing = False, conn_open = True, wrote = [],
     spc = Select, rpc = Reading, hlock = None\<rparr>"

text \<open>
  \<^verbatim>\<open>appendDataChan\<close> up to the channel operation: take the mutex unless the handler is closing (\<open>Inr\<close>:
  return at once). \<open>None\<close> means that the caller waits for the mutex.
\<close>

definition append_lock :: "owner \<Rightarrow> handler \<Rightarrow> (handler + unit) option" where
  "append_lock ow h =
     (if hlock h \<noteq> None then None
      else if \<not> closing h then Some (Inl (h\<lparr>hlock := Some ow\<rparr>))
      else Some (Inr ()))"

text \<open>The channel operation itself, and the release of the mutex; \<open>None\<close> means that the channel is full.\<close>

definition append_send :: "SessionData \<Rightarrow> handler \<Rightarrow> handler option" where
  "append_send v h =
     (if length (dataChan h) < chan_cap then Some (h\<lparr>dataChan := dataChan h @ [v], hlock := None\<rparr>) else None)"

text \<open>\<^verbatim>\<open>close\<close> up to the call of \<^verbatim>\<open>delHandler\<close>, and whether that call follows.\<close>

definition close_lock :: "SessionError \<Rightarrow> handler \<Rightarrow> (handler \<times> bool) option" where
  "close_lock cause h =
     (if hlock h \<noteq> None then None
      else if closing h then Some (h, False)
      else let h1 = h\<lparr>closing := True, conn_open := False\<rparr> in
        if cause \<noteq> ServerStop then Some (h1\<lparr>hlock := Some ByClose\<rparr>, True) else Some (h1, False))"

abbreviation after_close :: "bool \<Rightarrow> sender_pc" where
  "after_close ends \<equiv> if ends then SenderDone else Select"

inductive h_step :: "handler \<Rightarrow> handler \<Rightarrow> bool" where
  recv_skip: "rpc h = Replying (v # vs) g \<Longrightarrow> append_lock (ByRecv v) h = Some (Inr ()) \<Longrightarrow>
    h_step h (h\<lparr>rpc := Replying vs g\<rparr>)"
| recv_lock: "rpc h = Replying (v # vs) g \<Longrightarrow> append_lock (ByRecv v) h = Some (Inl h') \<Longrightarrow> h_step h h'"
| recv_send: "hlock h = Some (ByRecv v) \<Longrightarrow> rpc h = Replying (v # vs) g \<Longrightarrow> append_send v h = Some h' \<Longrightarrow>
    h_step h (h'\<lparr>rpc := Replying vs g\<rparr>)"
| recv_next: "rpc h = Replying [] g \<Longrightarrow> h_step h (h\<lparr>rpc := if g \<and> \<not> closing h then Reading else ReceiverDone\<rparr>)"
| take_error: "spc h = Select \<Longrightarrow> dataChan h = SdError e # vs \<Longrightarrow> h_step h (h\<lparr>dataChan := vs, spc := CloseBy e True\<rparr>)"
| take_msg: "spc h = Select \<Longrightarrow> dataChan h = SdMsg m # vs \<Longrightarrow> h_step h (h\<lparr>dataChan := vs, spc := Writing m\<rparr>)"
| take_closed: "spc h = Select \<Longrightarrow> dataChan h = [] \<Longrightarrow> closing h \<Longrightarrow> h_step h (h\<lparr>conn_open := False, spc := SenderDone\<rparr>)"
| write_ok: "spc h = Writing m \<Longrightarrow> conn_open h \<Longrightarrow>
    h_step h (h\<lparr>wrote := wrote h @ [m], spc := if sm_Kickoff m then CloseBy KickedOff False else Select\<rparr>)"
| write_fails: "spc h = Writing m \<Longrightarrow> h_step h (h\<lparr>spc := Reporting WriteError\<rparr>)"
| ping_fails: "spc h = Select \<Longrightarrow> h_step h (h\<lparr>spc := Reporting PingError\<rparr>)"
| report_skip: "spc h = Reporting e \<Longrightarrow> append_lock (BySend (SdError e)) h = Some (Inr ()) \<Longrightarrow>
    h_step h (h\<lparr>spc := SenderDone\<rparr>)"
| report_lock: "spc h = Reporting e \<Longrightarrow> append_lock (BySend (SdError e)) h = Some (Inl h') \<Longrightarrow> h_step h h'"
| report_send: "hlock h = Some (BySend v) \<Longrightarrow> append_send v h = Some h' \<Longrightarrow> h_step h (h'\<lparr>spc := SenderDone\<rparr>)"
| close_again: "spc h = CloseBy c ends \<Longrightarrow> close_lock c h = Some (h', False) \<Longrightarrow> h_step h (h'\<lparr>spc := after_close ends\<rparr>)"
| close_first: "spc h = CloseBy c ends \<Longrightarrow> close_lock c h = Some (h', True) \<Longrightarrow> h_step h (h'\<lparr>spc := InClose ends\<rparr>)"

section \<open>The handler store and the hub\<close>

datatype online_pc = NotOnline | Copying | Syncing "Session list list"

datatype hub_work = KickSid sid | PushUid int int | AppendTo nat SessionData | DelSid sid

record hub =
  hcells :: "handler list"
  hstore :: "sid \<rightharpoonup> nat"
  is_online :: bool
  followerC :: "FollowerMsg list"
  tables :: db
  work :: "hub_work list"
  opc :: online_pc
  stopping :: "nat list option"
  stopped :: bool

definition NewHub :: "db \<Rightarrow> hub" where
  "NewHub d = \<lparr>hcells = [], hstore = Map.empty, is_online = False, followerC = [], tables = d, work = [],
     opc = NotOnline, stopping = None, stopped = False\<rparr>"

definition hs_get :: "sid \<Rightarrow> hub \<Rightarrow> nat option" where
  "hs_get sid w = hstore w sid"

definition hs_del :: "sid \<Rightarrow> hub \<Rightarrow> bool \<times> hub" where
  "hs_del sid w = (case hstore w sid of Some _ \<Rightarrow> (True, w\<lparr>hstore := (hstore w)(sid := None)\<rparr>) | None \<Rightarrow> (False, w))"

definition hs_add :: "nat \<Rightarrow> hub \<Rightarrow> hub" where
  "hs_add i w = w\<lparr>hstore := (hstore w)(ses_Sid (h_session (hcells w ! i)) \<mapsto> i)\<rparr>"

definition getByUid :: "sid list \<Rightarrow> int \<Rightarrow> hub \<Rightarrow> nat list" where
  "getByUid order uid w =
     filter (\<lambda>i. ses_Uid (h_session (hcells w ! i)) = uid) (map snd (entries (hstore w) order))"

definition shallowCopySessions :: "sid list \<Rightarrow> hub \<Rightarrow> Session list" where
  "shallowCopySessions order w = map (\<lambda>i. h_session (hcells w ! i)) (map snd (entries (hstore w) order))"

definition send_follower :: "FollowerMsg \<Rightarrow> hub \<Rightarrow> hub" where
  "send_follower m w = w\<lparr>followerC := followerC w @ [m]\<rparr>"

definition addHandler :: "nat \<Rightarrow> hub \<Rightarrow> hub" where
  "addHandler i w = send_follower (empty_FollowerMsg\<lparr>fm_SessionOnline := Some (h_session (hcells w ! i))\<rparr>) (hs_add i w)"

definition delHandler :: "sid \<Rightarrow> hub \<Rightarrow> hub" where
  "delHandler sid w =
     (case hs_del sid w of
        (True, w') \<Rightarrow> send_follower (empty_FollowerMsg\<lparr>fm_SessionOffline := sid\<rparr>) w'
      | (False, w') \<Rightarrow> w')"

definition routeClientMsg :: "E2EMsg \<Rightarrow> hub \<Rightarrow> hub" where
  "routeClientMsg msg w = send_follower (empty_FollowerMsg\<lparr>fm_E2EMsg := Some msg\<rparr>) w"

text \<open>The loop of \<^verbatim>\<open>Online\<close> that cuts the sessions into batches.\<close>

function sync_batches :: "'a list \<Rightarrow> nat \<Rightarrow> 'a list list" where
  "sync_batches sessions i =
     (if i < length sessions
      then (let j = (if i + 1000 > length sessions then length sessions else i + 1000)
            in take (j - i) (drop i sessions) # sync_batches sessions (i + 1000))
      else [])"
  by pat_completeness auto

termination
  by (relation "measure (\<lambda>(sessions, i). length sessions - i)") auto

declare sync_batches.simps [simp del]

definition hub_Online :: "hub \<Rightarrow> hub" where
  "hub_Online w = w\<lparr>is_online := True, opc := Copying\<rparr>"

definition hub_Online_copy :: "sid list \<Rightarrow> hub \<Rightarrow> hub" where
  "hub_Online_copy order w =
     (let sessions = shallowCopySessions order w
      in if length sessions = 0 then w\<lparr>opc := Syncing []\<rparr> else w\<lparr>opc := Syncing (sync_batches sessions 0)\<rparr>)"

definition hub_Offline :: "hub \<Rightarrow> hub" where
  "hub_Offline w = w\<lparr>is_online := False\<rparr>"

text \<open>A message of the leader; \<open>uids\<close> is the order of the range loop over the head sequences.\<close>

definition hub_receive :: "int list \<Rightarrow> LeaderMsg \<Rightarrow> hub_work list" where
  "hub_receive uids msg =
     (if length (lm_Kickoff msg) > 0 then map KickSid (lm_Kickoff msg)
      else map (\<lambda>(uid, seq). PushUid uid seq) (entries (lm_HeadSeq msg) uids))"

text \<open>What is left to do for one session to kick off, and for one user to notify.\<close>

definition kick_work :: "sid \<Rightarrow> hub \<Rightarrow> hub_work list" where
  "kick_work sid w =
     (case hs_get sid w of
        None \<Rightarrow> []
      | Some i \<Rightarrow> [AppendTo i (SdMsg (empty_ServerMsg\<lparr>sm_Kickoff := True\<rparr>)), DelSid sid])"

definition push_work :: "sid list \<Rightarrow> int \<Rightarrow> int \<Rightarrow> hub \<Rightarrow> hub_work list" where
  "push_work order uid seq w =
     map (\<lambda>i. AppendTo i (SdMsg (empty_ServerMsg\<lparr>sm_HeadSeq := seq\<rparr>))) (getByUid order uid w)"

text \<open>\<^verbatim>\<open>HandlerStore.close\<close>: the handlers its loop visits, with the read lock held.\<close>

definition hs_close :: "sid list \<Rightarrow> hub \<Rightarrow> hub" where
  "hs_close order w = w\<lparr>stopping := Some (map snd (entries (hstore w) order))\<rparr>"

text \<open>\<^verbatim>\<open>ServeHTTP\<close>: \<open>auth\<close> is the answer of the authenticator, \<open>upgraded\<close> whether the
  connection could be upgraded, \<open>sid\<close> the fresh random id.\<close>

datatype http_reply = Unavailable | Forbidden | UpgradeFailed | Upgraded

definition ServeHTTP :: "int option \<Rightarrow> bool \<Rightarrow> sid \<Rightarrow> int \<Rightarrow> string \<Rightarrow> hub \<Rightarrow> http_reply \<times> hub" where
  "ServeHTTP auth upgraded sid now ip w =
     (if \<not> is_online w then (Unavailable, w)
      else case auth of
        None \<Rightarrow> (Forbidden, w)
      | Some uid \<Rightarrow>
          let sess = \<lparr>ses_HubId = [], ses_Uid = uid, ses_Sid = sid, ses_Ip = ip, ses_CreateTime = now, ses_KickoffTime = 0\<rparr>
          in if \<not> upgraded then (UpgradeFailed, w)
             else (Upgraded, addHandler (length (hcells w)) (w\<lparr>hcells := hcells w @ [new_handler sess]\<rparr>)))"

text \<open>
  The steps of a node. \<^verbatim>\<open>Online\<close> runs once per process (\<^verbatim>\<open>cluster.go\<close>, \<^verbatim>\<open>standalone.go\<close>). The ids
  of sessions are random UUIDs, taken to be unique and not empty.
\<close>

definition upd :: "nat \<Rightarrow> handler \<Rightarrow> hub \<Rightarrow> hub" where
  "upd i h w = w\<lparr>hcells := (hcells w)[i := h]\<rparr>"

inductive ws_step ::
    "mysql \<Rightarrow> (int \<Rightarrow> int) \<Rightarrow> (dberr \<Rightarrow> string) \<Rightarrow> (string \<Rightarrow> (string \<times> ClientMsg) + ClientMsg) \<Rightarrow> WsConf \<Rightarrow> hub \<Rightarrow> hub \<Rightarrow> bool"
  for my startOfDay errText unmarshal conf where
  serve: "sid \<noteq> [] \<Longrightarrow> sid \<notin> (\<lambda>h. ses_Sid (h_session h)) ` set (hcells w) \<Longrightarrow> stopping w = None \<Longrightarrow>
    ServeHTTP auth up sid now ip w = (r, w') \<Longrightarrow> ws_step my startOfDay errText unmarshal conf w w'"
| local: "i < length (hcells w) \<Longrightarrow> h_step (hcells w ! i) h' \<Longrightarrow> ws_step my startOfDay errText unmarshal conf w (upd i h' w)"
| read: "i < length (hcells w) \<Longrightarrow> rpc (hcells w ! i) = Reading \<Longrightarrow> inc = ReadFails \<or> conn_open (hcells w ! i) \<Longrightarrow>
    recv_round my startOfDay now en errText unmarshal conf (ses_Uid (h_session (hcells w ! i))) inc (tables w) = (Ret r, d') \<Longrightarrow>
    ws_step my startOfDay errText unmarshal conf w
      (fold routeClientMsg (to_cluster r) (upd i ((hcells w ! i)\<lparr>rpc := Replying (to_client r) (goes_on r)\<rparr>) w)\<lparr>tables := d'\<rparr>)"
| peer_closes: "i < length (hcells w) \<Longrightarrow> rpc (hcells w ! i) = Reading \<Longrightarrow> conn_open (hcells w ! i) \<Longrightarrow> stopping w = None \<Longrightarrow>
    ws_step my startOfDay errText unmarshal conf w
      (delHandler (ses_Sid (h_session (hcells w ! i))) (upd i ((hcells w ! i)\<lparr>rpc := Replying [SdError ReadError] False\<rparr>) w))"
| close_del: "i < length (hcells w) \<Longrightarrow> spc (hcells w ! i) = InClose ends \<Longrightarrow> hlock (hcells w ! i) = Some ByClose \<Longrightarrow>
    stopping w = None \<Longrightarrow>
    ws_step my startOfDay errText unmarshal conf w
      (delHandler (ses_Sid (h_session (hcells w ! i))) (upd i ((hcells w ! i)\<lparr>hlock := None, spc := after_close ends\<rparr>) w))"
| hub_take: "work w = [] \<Longrightarrow> stopping w = None \<Longrightarrow> \<not> stopped w \<Longrightarrow> go_range (lm_HeadSeq msg) uids \<Longrightarrow>
    ws_step my startOfDay errText unmarshal conf w (w\<lparr>work := hub_receive uids msg\<rparr>)"
| hub_kick: "work w = KickSid sid # ks \<Longrightarrow>
    ws_step my startOfDay errText unmarshal conf w (w\<lparr>work := kick_work sid w @ ks\<rparr>)"
| hub_push: "work w = PushUid uid seq # ks \<Longrightarrow> go_range (hstore w) order \<Longrightarrow>
    ws_step my startOfDay errText unmarshal conf w
      (w\<lparr>work := push_work order uid seq w @ ks\<rparr>)"
| hub_skip: "work w = AppendTo i v # ks \<Longrightarrow> append_lock (ByHub v) (hcells w ! i) = Some (Inr ()) \<Longrightarrow>
    ws_step my startOfDay errText unmarshal conf w (w\<lparr>work := ks\<rparr>)"
| hub_lock: "work w = AppendTo i v # ks \<Longrightarrow> append_lock (ByHub v) (hcells w ! i) = Some (Inl h') \<Longrightarrow>
    ws_step my startOfDay errText unmarshal conf w (upd i h' w)"
| hub_send: "work w = AppendTo i v # ks \<Longrightarrow> hlock (hcells w ! i) = Some (ByHub v) \<Longrightarrow> append_send v (hcells w ! i) = Some h' \<Longrightarrow>
    ws_step my startOfDay errText unmarshal conf w ((upd i h' w)\<lparr>work := ks\<rparr>)"
| hub_del: "work w = DelSid sid # ks \<Longrightarrow>
    ws_step my startOfDay errText unmarshal conf w ((snd (hs_del sid w))\<lparr>work := ks\<rparr>)"
| hub_stop: "work w = [] \<Longrightarrow> stopping w = None \<Longrightarrow> \<not> stopped w \<Longrightarrow> go_range (hstore w) order \<Longrightarrow>
    ws_step my startOfDay errText unmarshal conf w (hs_close order w)"
| stop_close: "stopping w = Some (i # ps) \<Longrightarrow> close_lock ServerStop (hcells w ! i) = Some (h', c) \<Longrightarrow>
    ws_step my startOfDay errText unmarshal conf w ((upd i h' w)\<lparr>stopping := Some ps\<rparr>)"
| stop_done: "stopping w = Some [] \<Longrightarrow> ws_step my startOfDay errText unmarshal conf w (w\<lparr>stopping := None, stopped := True\<rparr>)"
| go_online: "opc w = NotOnline \<Longrightarrow> ws_step my startOfDay errText unmarshal conf w (hub_Online w)"
| online_copy: "opc w = Copying \<Longrightarrow> go_range (hstore w) order \<Longrightarrow>
    ws_step my startOfDay errText unmarshal conf w (hub_Online_copy order w)"
| online_sync: "opc w = Syncing (b # bs) \<Longrightarrow>
    ws_step my startOfDay errText unmarshal conf w
      (send_follower (empty_FollowerMsg\<lparr>fm_SyncSessions := b\<rparr>) (w\<lparr>opc := Syncing bs\<rparr>))"
| go_offline: "ws_step my startOfDay errText unmarshal conf w (hub_Offline w)"

inductive ws_reach ::
    "mysql \<Rightarrow> (int \<Rightarrow> int) \<Rightarrow> (dberr \<Rightarrow> string) \<Rightarrow> (string \<Rightarrow> (string \<times> ClientMsg) + ClientMsg) \<Rightarrow> WsConf \<Rightarrow> hub \<Rightarrow> hub \<Rightarrow> bool"
  for my startOfDay errText unmarshal conf w where
  start: "ws_reach my startOfDay errText unmarshal conf w w"
| step: "ws_reach my startOfDay errText unmarshal conf w w1 \<Longrightarrow> ws_step my startOfDay errText unmarshal conf w1 w2 \<Longrightarrow>
    ws_reach my startOfDay errText unmarshal conf w w2"

section \<open>Invariants\<close>

lemmas ws_ops = append_lock_def append_send_def close_lock_def

abbreviation sid_of :: "handler \<Rightarrow> sid" where
  "sid_of h \<equiv> ses_Sid (h_session h)"

text \<open>The mutex belongs to the goroutine that is where it holds it, nobody sends on a closed channel, and
  \<^verbatim>\<open>ServerStop\<close> never goes through a channel.\<close>

definition h_ok :: "handler \<Rightarrow> bool" where
  "h_ok h \<longleftrightarrow> length (dataChan h) \<le> chan_cap \<and> (closing h \<longrightarrow> \<not> conn_open h) \<and>
     (case hlock h of
        None \<Rightarrow> True
      | Some (ByRecv v) \<Rightarrow> \<not> closing h \<and> (\<exists>vs g. rpc h = Replying (v # vs) g)
      | Some (BySend v) \<Rightarrow> \<not> closing h \<and> (\<exists>e. v = SdError e \<and> spc h = Reporting e)
      | Some (ByHub v) \<Rightarrow> \<not> closing h
      | Some ByClose \<Rightarrow> closing h \<and> (\<exists>ends. spc h = InClose ends)) \<and>
     (\<forall>ends. spc h = InClose ends \<longrightarrow> hlock h = Some ByClose) \<and>
     SdError ServerStop \<notin> set (dataChan h) \<and> (\<forall>vs g. rpc h = Replying vs g \<longrightarrow> SdError ServerStop \<notin> set vs) \<and>
     (\<forall>ends. spc h \<noteq> CloseBy ServerStop ends) \<and> spc h \<noteq> Reporting ServerStop \<and> hlock h \<noteq> Some (ByHub (SdError ServerStop))"

lemma h_step_session: "h_step h h' \<Longrightarrow> h_session h' = h_session h"
  by (induction rule: h_step.induct) (auto simp: ws_ops Let_def split: if_splits)

lemma h_step_ok: "h_step h h' \<Longrightarrow> h_ok h \<Longrightarrow> h_ok h'"
  by (induction rule: h_step.induct)
    (auto simp: h_ok_def ws_ops Let_def split: if_splits option.splits owner.splits)

lemma h_step_closing:
  "h_step h h' \<Longrightarrow> h_ok h \<Longrightarrow> closing h' \<Longrightarrow> hlock h' \<noteq> Some ByClose \<Longrightarrow> closing h \<and> hlock h \<noteq> Some ByClose"
  by (induction rule: h_step.induct)
    (auto simp: h_ok_def ws_ops Let_def split: if_splits)

lemma h_ok_new: "h_ok (new_handler sess)"
  by (simp add: h_ok_def new_handler_def)

lemma upd_sel [simp]:
  "hcells (upd i h w) = (hcells w)[i := h]" "hstore (upd i h w) = hstore w" "followerC (upd i h w) = followerC w"
  "work (upd i h w) = work w" "stopping (upd i h w) = stopping w" "stopped (upd i h w) = stopped w"
  "opc (upd i h w) = opc w" "is_online (upd i h w) = is_online w"
  by (simp_all add: upd_def)

lemma delHandler_sel [simp]:
  "hcells (delHandler sid w) = hcells w" "hstore (delHandler sid w) = (hstore w)(sid := None)"
  "work (delHandler sid w) = work w" "stopping (delHandler sid w) = stopping w" "stopped (delHandler sid w) = stopped w"
  "followerC (delHandler sid w) = followerC w @
     (if hstore w sid = None then [] else [empty_FollowerMsg\<lparr>fm_SessionOffline := sid\<rparr>])"
  by (auto simp: delHandler_def hs_del_def send_follower_def split: option.splits)

lemma hs_del_sel [simp]:
  "hcells (snd (hs_del sid w)) = hcells w" "hstore (snd (hs_del sid w)) = (hstore w)(sid := None)"
  "followerC (snd (hs_del sid w)) = followerC w" "stopping (snd (hs_del sid w)) = stopping w"
  "stopped (snd (hs_del sid w)) = stopped w"
  by (auto simp: hs_del_def split: option.splits)

lemma route_all_sel [simp]:
  "hcells (fold routeClientMsg ms w) = hcells w" "hstore (fold routeClientMsg ms w) = hstore w"
  "work (fold routeClientMsg ms w) = work w" "stopping (fold routeClientMsg ms w) = stopping w"
  "stopped (fold routeClientMsg ms w) = stopped w"
  "followerC (fold routeClientMsg ms w) = followerC w @ map (\<lambda>m. empty_FollowerMsg\<lparr>fm_E2EMsg := Some m\<rparr>) ms"
  by (induction ms arbitrary: w) (simp_all add: routeClientMsg_def send_follower_def)

lemma send_follower_sel [simp]:
  "hcells (send_follower m w) = hcells w" "hstore (send_follower m w) = hstore w" "work (send_follower m w) = work w"
  "stopping (send_follower m w) = stopping w" "stopped (send_follower m w) = stopped w"
  "followerC (send_follower m w) = followerC w @ [m]"
  by (simp_all add: send_follower_def)

lemma Online_sel [simp]:
  "hcells (hub_Online w) = hcells w" "hstore (hub_Online w) = hstore w" "work (hub_Online w) = work w"
  "stopping (hub_Online w) = stopping w" "stopped (hub_Online w) = stopped w" "followerC (hub_Online w) = followerC w"
  "hcells (hub_Online_copy order w) = hcells w" "hstore (hub_Online_copy order w) = hstore w"
  "work (hub_Online_copy order w) = work w" "stopping (hub_Online_copy order w) = stopping w"
  "stopped (hub_Online_copy order w) = stopped w" "followerC (hub_Online_copy order w) = followerC w"
  "hcells (hub_Offline w) = hcells w" "hstore (hub_Offline w) = hstore w" "work (hub_Offline w) = work w"
  "stopping (hub_Offline w) = stopping w" "stopped (hub_Offline w) = stopped w" "followerC (hub_Offline w) = followerC w"
  by (simp_all add: hub_Online_def hub_Online_copy_def hub_Offline_def Let_def)

lemma hs_close_sel [simp]:
  "hcells (hs_close order w) = hcells w" "hstore (hs_close order w) = hstore w" "work (hs_close order w) = work w"
  "stopping (hs_close order w) = Some (map snd (entries (hstore w) order))" "stopped (hs_close order w) = stopped w"
  "followerC (hs_close order w) = followerC w"
  by (simp_all add: hs_close_def)

lemma work_no_stop: "AppendTo i (SdError e) \<notin> set (kick_work sid w)" "AppendTo i (SdError e) \<notin> set (push_work order uid seq w)"
  by (auto simp: kick_work_def push_work_def split: option.splits)

lemma serve_cases:
  assumes "ServeHTTP auth up sid now ip w = (r, w')"
  obtains (refused) "w' = w" | (served) sess where "is_online w" "ses_Sid sess = sid" "hcells w' = hcells w @ [new_handler sess]"
    "hstore w' = (hstore w)(sid \<mapsto> length (hcells w))" "followerC w' = followerC w @ [empty_FollowerMsg\<lparr>fm_SessionOnline := Some sess\<rparr>]"
    "work w' = work w" "stopping w' = stopping w" "stopped w' = stopped w" "opc w' = opc w"
proof (cases "is_online w \<and> auth \<noteq> None \<and> up")
  case False
  with assms have "w' = w" by (auto simp: ServeHTTP_def Let_def split: if_splits option.splits)
  then show ?thesis by (rule refused)
next
  case True
  then obtain uid where on: "is_online w" "auth = Some uid" up by auto
  let ?sess = "\<lparr>ses_HubId = [], ses_Uid = uid, ses_Sid = sid, ses_Ip = ip, ses_CreateTime = now, ses_KickoffTime = 0\<rparr>"
  have "w' = addHandler (length (hcells w)) (w\<lparr>hcells := hcells w @ [new_handler ?sess]\<rparr>)"
    using assms on by (simp add: ServeHTTP_def)
  with on show ?thesis
    by (intro served [of ?sess]) (simp_all add: addHandler_def hs_add_def new_handler_def send_follower_def)
qed

text \<open>What a step does to the sessions, the handler store and the messages to the cluster.\<close>

definition quiet :: "FollowerMsg \<Rightarrow> bool" where
  "quiet m \<longleftrightarrow> fm_SessionOnline m = None \<and> fm_SessionOffline m = []"

definition sids :: "hub \<Rightarrow> sid list" where
  "sids w = map sid_of (hcells w)"

definition idx_ok :: "hub \<Rightarrow> bool" where
  "idx_ok w \<longleftrightarrow> finite (dom (hstore w)) \<and> (\<forall>sid i. hstore w sid = Some i \<longrightarrow> i < length (sids w) \<and> sids w ! i = sid) \<and>
     distinct (sids w) \<and> [] \<notin> set (sids w)"

lemma sids_upd: "h_session h = h_session (hcells w ! i) \<Longrightarrow> sids (upd i h w) = sids w"
  by (auto simp: sids_def list_eq_iff_nth_eq nth_upd)

lemma idx_mem: "idx_ok w \<Longrightarrow> hstore w sid = Some i \<Longrightarrow> sid \<in> set (sids w)"
  by (metis idx_ok_def nth_mem)

inductive effect :: "hub \<Rightarrow> hub \<Rightarrow> bool" where
  silent: "sids w' = sids w \<Longrightarrow> hstore w' = hstore w \<Longrightarrow> followerC w' = followerC w @ ms \<Longrightarrow> \<forall>m \<in> set ms. quiet m \<Longrightarrow>
    effect w w'"
| arrives: "fm_SessionOnline m = Some sess \<Longrightarrow> ses_Sid sess \<noteq> [] \<Longrightarrow> ses_Sid sess \<notin> set (sids w) \<Longrightarrow> fm_SessionOffline m = [] \<Longrightarrow>
    sids w' = sids w @ [ses_Sid sess] \<Longrightarrow> hcells w' = hcells w @ [new_handler sess] \<Longrightarrow>
    hstore w' = (hstore w)(ses_Sid sess \<mapsto> length (hcells w)) \<Longrightarrow> followerC w' = followerC w @ [m] \<Longrightarrow> effect w w'"
| departs: "sids w' = sids w \<Longrightarrow> hstore w sid \<noteq> None \<Longrightarrow> hstore w' = (hstore w)(sid := None) \<Longrightarrow>
    followerC w' = followerC w @ [empty_FollowerMsg\<lparr>fm_SessionOffline := sid\<rparr>] \<Longrightarrow> effect w w'"
| kicked_off: "sids w' = sids w \<Longrightarrow> hstore w' = (hstore w)(sid := None) \<Longrightarrow> followerC w' = followerC w \<Longrightarrow> effect w w'"

lemma effect_same:
  "sids w' = sids w \<Longrightarrow> hstore w' = hstore w \<Longrightarrow> followerC w' = followerC w \<Longrightarrow> effect w w'"
  by (rule silent [of _ _ "[]"]) simp_all

lemma effect_del:
  assumes "h_session h = h_session (hcells w ! i)"
  shows "effect w (delHandler sid (upd i h w))"
proof (cases "hstore w sid")
  case None
  then show ?thesis using sids_upd [OF assms] by (intro effect_same) (auto simp: sids_def)
next
  case Some
  then show ?thesis using sids_upd [OF assms] by (intro departs [of _ _ sid]) (auto simp: sids_def)
qed

lemma append_lock_session: "append_lock ow h = Some (Inl h') \<Longrightarrow> h_session h' = h_session h"
  by (auto simp: append_lock_def split: if_splits)

lemma append_send_session: "append_send v h = Some h' \<Longrightarrow> h_session h' = h_session h"
  by (auto simp: append_send_def split: if_splits)

lemma close_lock_session: "close_lock c h = Some (h', b) \<Longrightarrow> h_session h' = h_session h"
  by (auto simp: close_lock_def Let_def split: if_splits)

lemma sids_hcells: "hcells w = hcells w' \<Longrightarrow> sids w = sids w'"
  by (simp add: sids_def)

lemma ws_effect: "ws_step my startOfDay errText unmarshal conf w w' \<Longrightarrow> effect w w'"
proof (induction rule: ws_step.induct)
  case (serve sid w auth up now ip r w')
  from serve(4) show ?case
  proof (cases rule: serve_cases)
    case refused
    then show ?thesis by (simp add: effect_same)
  next
    case (served sess)
    then show ?thesis using serve(1,2)
      by (intro arrives [of "empty_FollowerMsg\<lparr>fm_SessionOnline := Some sess\<rparr>" sess])
        (auto simp: sids_def new_handler_def empty_FollowerMsg_def)
  qed
next
  case (local i w h')
  then show ?case by (intro effect_same) (simp_all add: sids_upd h_step_session)
next
  case (read i w inc now en r d')
  show ?case
  proof (rule silent [of _ _ "map (\<lambda>m. empty_FollowerMsg\<lparr>fm_E2EMsg := Some m\<rparr>) (to_cluster r)"])
    have "sids (upd i ((hcells w ! i)\<lparr>rpc := Replying (to_client r) (goes_on r)\<rparr>) w) = sids w" by (rule sids_upd) simp
    then show "sids (fold routeClientMsg (to_cluster r) (upd i ((hcells w ! i)\<lparr>rpc := Replying (to_client r) (goes_on r)\<rparr>) w)
        \<lparr>tables := d'\<rparr>) = sids w" by (simp add: sids_def)
  qed (simp_all add: quiet_def empty_FollowerMsg_def)
next
  case (peer_closes i w)
  show ?case by (rule effect_del) simp
next
  case (close_del i w ends)
  show ?case by (rule effect_del) simp
next
  case (hub_lock w i v ks h')
  then show ?case by (intro effect_same) (simp_all add: sids_upd append_lock_session)
next
  case (hub_send w i v ks h')
  then have "sids (upd i h' w) = sids w" by (intro sids_upd) (simp add: append_send_session)
  then show ?case by (intro effect_same) (simp_all add: sids_def)
next
  case (hub_del w sid ks)
  show ?case by (rule kicked_off [of _ _ sid]) (simp_all add: sids_def)
next
  case (stop_close w i ps h' c)
  then have "sids (upd i h' w) = sids w" by (intro sids_upd) (simp add: close_lock_session)
  then show ?case by (intro effect_same) (simp_all add: sids_def)
next
  case (online_sync w b bs)
  show ?case
    by (rule silent [of _ _ "[empty_FollowerMsg\<lparr>fm_SyncSessions := b\<rparr>]"]) (simp_all add: sids_def quiet_def empty_FollowerMsg_def)
qed (rule effect_same; simp add: sids_def)+

lemma idx_effect: "effect w w' \<Longrightarrow> idx_ok w \<Longrightarrow> idx_ok w'"
proof (induction rule: effect.induct)
  case (arrives m sess w w')
  have "length (hcells w) = length (sids w)" by (simp add: sids_def)
  then show ?case using arrives by (fastforce simp: idx_ok_def nth_append)
qed (auto simp: idx_ok_def)

text \<open>The sessions reported offline.\<close>

definition offs :: "hub \<Rightarrow> sid list" where
  "offs w = filter (\<lambda>sid. sid \<noteq> []) (map fm_SessionOffline (followerC w))"

definition offs_ok :: "hub \<Rightarrow> bool" where
  "offs_ok w \<longleftrightarrow> distinct (offs w) \<and> set (offs w) \<subseteq> set (sids w) \<and> (\<forall>sid \<in> set (offs w). hstore w sid = None)"

lemma offs_effect: "effect w w' \<Longrightarrow> idx_ok w \<Longrightarrow> offs_ok w \<Longrightarrow> offs_ok w'"
proof (induction rule: effect.induct)
  case (silent w' w ms)
  have "filter (\<lambda>sid. sid \<noteq> []) (map fm_SessionOffline ms) = []" using silent(4) by (induction ms) (auto simp: quiet_def)
  then have "offs w' = offs w" by (simp add: offs_def silent(3))
  with silent show ?case by (simp add: offs_ok_def)
next
  case (arrives m sess w w')
  have "offs w' = offs w" by (simp add: offs_def arrives(4,8))
  with arrives show ?case by (auto simp: offs_ok_def)
next
  case (departs w' w sid)
  then obtain i where i: "hstore w sid = Some i" by auto
  have sid: "sid \<in> set (sids w)" "sid \<noteq> []" "sid \<notin> set (offs w)"
    using departs.prems i idx_mem [OF departs.prems(1) i] by (auto simp: idx_ok_def offs_ok_def)
  have "offs w' = offs w @ [sid]" using sid(2) by (simp add: offs_def departs(4) empty_FollowerMsg_def)
  with departs sid show ?case by (auto simp: offs_ok_def)
next
  case (kicked_off w' w sid)
  then show ?case by (auto simp: offs_ok_def offs_def)
qed

text \<open>Handlers stay well-formed, and a handler whose closing is complete is no longer registered before the stop.\<close>

definition cells_ok :: "hub \<Rightarrow> bool" where
  "cells_ok w \<longleftrightarrow> (\<forall>h \<in> set (hcells w). h_ok h) \<and> (\<forall>i. AppendTo i (SdError ServerStop) \<notin> set (work w))"

definition closed_ok :: "hub \<Rightarrow> bool" where
  "closed_ok w \<longleftrightarrow> (stopping w = None \<and> \<not> stopped w \<longrightarrow>
     (\<forall>h \<in> set (hcells w). closing h \<and> hlock h \<noteq> Some ByClose \<longrightarrow> hstore w (sid_of h) = None))"

lemma all_upd: "\<forall>x \<in> set xs. P x \<Longrightarrow> (i < length xs \<Longrightarrow> P y) \<Longrightarrow> \<forall>x \<in> set (xs[i := y]). P x"
  by (metis insertE length_list_update list_update_beyond not_le set_update_subset_insert subsetD)

lemma cells_upd:
  "cells_ok w \<Longrightarrow> hcells w' = (hcells w)[i := h] \<Longrightarrow> (i < length (hcells w) \<Longrightarrow> h_ok h) \<Longrightarrow> set (work w') \<subseteq> set (work w) \<Longrightarrow> cells_ok w'"
  using all_upd [of "hcells w" h_ok i h] by (auto simp: cells_ok_def)

lemma cells_nth: "cells_ok w \<Longrightarrow> i < length (hcells w) \<Longrightarrow> h_ok (hcells w ! i)"
  by (simp add: cells_ok_def)

lemma append_lock_ok:
  "append_lock (ByHub v) h = Some (Inl h') \<Longrightarrow> h_ok h \<Longrightarrow> v \<noteq> SdError ServerStop \<Longrightarrow> h_ok h' \<and> \<not> closing h'"
  by (auto simp: append_lock_def h_ok_def split: if_splits)

lemma append_send_ok:
  "append_send v h = Some h' \<Longrightarrow> hlock h = Some (ByHub v) \<Longrightarrow> h_ok h \<Longrightarrow> h_ok h' \<and> \<not> closing h'"
  by (auto simp: append_send_def h_ok_def split: if_splits)

lemma close_lock_ok: "close_lock ServerStop h = Some (h', c) \<Longrightarrow> h_ok h \<Longrightarrow> h_ok h'"
  by (auto simp: close_lock_def h_ok_def Let_def split: if_splits)

lemma recv_round_no_stop:
  "recv_round my startOfDay now en errText unmarshal conf uid i d = (Ret r, d') \<Longrightarrow> SdError ServerStop \<notin> set (to_client r)"
  by (auto simp: recv_round_def request_def elim!: bind_out_RetE split: incoming.splits option.splits sum.splits prod.splits if_splits)

lemma cells_step: "ws_step my startOfDay errText unmarshal conf w w' \<Longrightarrow> cells_ok w \<Longrightarrow> cells_ok w'"
proof (induction rule: ws_step.induct)
  case (serve sid w auth up now ip r w')
  from serve(4) show ?case
    by (cases rule: serve_cases) (use serve(5) h_ok_new in \<open>auto simp: cells_ok_def\<close>)
next
  case (local i w h')
  then show ?case by (intro cells_upd [OF local(3)]) (auto intro: h_step_ok cells_nth)
next
  case (read i w inc now en r d')
  have "h_ok ((hcells w ! i)\<lparr>rpc := Replying (to_client r) (goes_on r)\<rparr>)"
    using cells_nth [OF read(5,1)] recv_round_no_stop [OF read(4)] read(2)
    by (auto simp: h_ok_def split: option.splits owner.splits)
  then show ?case by (intro cells_upd [OF read(5)]) simp_all
next
  case (peer_closes i w)
  have "h_ok ((hcells w ! i)\<lparr>rpc := Replying [SdError ReadError] False\<rparr>)"
    using cells_nth [OF peer_closes(5,1)] peer_closes(2) by (auto simp: h_ok_def split: option.splits owner.splits)
  then show ?case by (intro cells_upd [OF peer_closes(5)]) simp_all
next
  case (close_del i w ends)
  have "h_ok ((hcells w ! i)\<lparr>hlock := None, spc := after_close ends\<rparr>)"
    using cells_nth [OF close_del(5,1)] close_del(2,3) by (auto simp: h_ok_def)
  then show ?case by (intro cells_upd [OF close_del(5)]) simp_all
next
  case (hub_lock w i v ks h')
  have "v \<noteq> SdError ServerStop" using hub_lock(1,3) by (auto simp: cells_ok_def)
  then show ?case using append_lock_ok [OF hub_lock(2)] cells_nth [OF hub_lock(3), of i]
    by (intro cells_upd [OF hub_lock(3)]) auto
next
  case (hub_send w i v ks h')
  then show ?case using append_send_ok [OF hub_send(3,2)] cells_nth [OF hub_send(4), of i]
    by (intro cells_upd [OF hub_send(4)]) auto
next
  case (stop_close w i ps h' c)
  then show ?case using close_lock_ok [OF stop_close(2)] cells_nth [OF stop_close(3), of i]
    by (intro cells_upd [OF stop_close(3)]) auto
next
  case (hub_take w msg uids)
  then show ?case by (auto simp: cells_ok_def hub_receive_def)
next
  case (hub_kick w sid ks)
  then show ?case by (auto simp: cells_ok_def work_no_stop)
next
  case (hub_push w uid seq ks order)
  then show ?case by (auto simp: cells_ok_def work_no_stop)
qed (auto simp: cells_ok_def)

lemma closed_upd:
  assumes "closed_ok w" "hcells w' = (hcells w)[i := h]" "stopping w = stopping w'" "stopped w = stopped w'"
    and "\<forall>sid. hstore w sid = None \<longrightarrow> hstore w' sid = None"
    and "stopping w = None \<and> \<not> stopped w \<Longrightarrow> i < length (hcells w) \<and> closing h \<and> hlock h \<noteq> Some ByClose \<Longrightarrow> hstore w' (sid_of h) = None"
  shows "closed_ok w'"
proof (unfold closed_ok_def, rule impI)
  assume run: "stopping w' = None \<and> \<not> stopped w'"
  then have "\<forall>h \<in> set (hcells w). closing h \<and> hlock h \<noteq> Some ByClose \<longrightarrow> hstore w' (sid_of h) = None"
    using assms(1,3-5) by (simp add: closed_ok_def)
  then show "\<forall>h \<in> set (hcells w'). closing h \<and> hlock h \<noteq> Some ByClose \<longrightarrow> hstore w' (sid_of h) = None"
    unfolding assms(2) by (rule all_upd) (use assms(3,4,6) run in auto)
qed

lemma closed_nth:
  "closed_ok w \<Longrightarrow> stopping w = None \<and> \<not> stopped w \<Longrightarrow> i < length (hcells w) \<Longrightarrow> closing (hcells w ! i) \<Longrightarrow>
    hlock (hcells w ! i) \<noteq> Some ByClose \<Longrightarrow> hstore w (sid_of (hcells w ! i)) = None"
  by (simp add: closed_ok_def)

lemma closed_step:
  "ws_step my startOfDay errText unmarshal conf w w' \<Longrightarrow> cells_ok w \<Longrightarrow> idx_ok w \<Longrightarrow> closed_ok w \<Longrightarrow> closed_ok w'"
proof (induction rule: ws_step.induct)
  case (serve sid w auth up now ip r w')
  from serve(4) show ?case
  proof (cases rule: serve_cases)
    case (served sess)
    have other: "sid_of h \<noteq> sid" if "h \<in> set (hcells w)" for h
      using serve(2) that by blast
    have "hstore w' (sid_of h) = hstore w (sid_of h)" if "h \<in> set (hcells w)" for h
      using served(4) other [OF that] by simp
    then show ?thesis using served serve(7) by (auto simp: closed_ok_def new_handler_def)
  qed (use serve in simp)
next
  case (local i w h')
  show ?case
  proof (rule closed_upd [OF local(5), of _ i h'])
    assume run: "stopping w = None \<and> \<not> stopped w" and h': "i < length (hcells w) \<and> closing h' \<and> hlock h' \<noteq> Some ByClose"
    then have "closing (hcells w ! i) \<and> hlock (hcells w ! i) \<noteq> Some ByClose"
      using h_step_closing [OF local(2) cells_nth [OF local(3,1)]] by blast
    then show "hstore (upd i h' w) (sid_of h') = None"
      using closed_nth [OF local(5) run] h' by (simp add: h_step_session [OF local(2)])
  qed simp_all
next
  case (read i w inc now en r d')
  show ?case
  proof (rule closed_upd [OF read(7), of _ i "(hcells w ! i)\<lparr>rpc := Replying (to_client r) (goes_on r)\<rparr>"])
    assume "stopping w = None \<and> \<not> stopped w"
    from closed_nth [OF read(7) this] show "hstore (fold routeClientMsg (to_cluster r)
        (upd i ((hcells w ! i)\<lparr>rpc := Replying (to_client r) (goes_on r)\<rparr>) w)\<lparr>tables := d'\<rparr>)
        (sid_of ((hcells w ! i)\<lparr>rpc := Replying (to_client r) (goes_on r)\<rparr>)) = None"
      if "i < length (hcells w) \<and> closing ((hcells w ! i)\<lparr>rpc := Replying (to_client r) (goes_on r)\<rparr>) \<and>
        hlock ((hcells w ! i)\<lparr>rpc := Replying (to_client r) (goes_on r)\<rparr>) \<noteq> Some ByClose"
      using that by simp
  qed simp_all
next
  case (peer_closes i w)
  show ?case
    by (rule closed_upd [OF peer_closes(7), of _ i "(hcells w ! i)\<lparr>rpc := Replying [SdError ReadError] False\<rparr>"]) simp_all
next
  case (close_del i w ends)
  show ?case
    by (rule closed_upd [OF close_del(7), of _ i "(hcells w ! i)\<lparr>hlock := None, spc := after_close ends\<rparr>"]) simp_all
next
  case (hub_lock w i v ks h')
  have "v \<noteq> SdError ServerStop" using hub_lock(1,3) by (auto simp: cells_ok_def)
  then show ?case using append_lock_ok [OF hub_lock(2)] cells_nth [OF hub_lock(3), of i]
    by (intro closed_upd [OF hub_lock(5), of _ i h']) auto
next
  case (hub_send w i v ks h')
  then show ?case using append_send_ok [OF hub_send(3,2)] cells_nth [OF hub_send(4), of i]
    by (intro closed_upd [OF hub_send(6), of _ i h']) auto
qed (auto simp: closed_ok_def)

definition ws_inv :: "hub \<Rightarrow> bool" where
  "ws_inv w \<longleftrightarrow> idx_ok w \<and> offs_ok w \<and> cells_ok w \<and> closed_ok w"

lemma ws_inv_new: "ws_inv (NewHub d)"
  by (simp add: ws_inv_def idx_ok_def offs_ok_def cells_ok_def closed_ok_def NewHub_def sids_def offs_def)

lemma ws_inv_reach: "ws_reach my startOfDay errText unmarshal conf w w' \<Longrightarrow> ws_inv w \<Longrightarrow> ws_inv w'"
  by (induction rule: ws_reach.induct)
    (auto simp: ws_inv_def dest: ws_effect intro: idx_effect offs_effect cells_step closed_step)

section \<open>What the leader learns\<close>

text \<open>The operations on the leader's session table that a message of hub \<open>h\<close> causes (\<^verbatim>\<open>Route\<close> in \<^verbatim>\<open>server.go\<close>).\<close>

definition table_ops :: "hub_id \<Rightarrow> FollowerMsg \<Rightarrow> (hub_id, hub_id \<times> sid) table_op list" where
  "table_ops h msg =
     (case fm_SessionOnline msg of
        Some v \<Rightarrow> [Online h v]
      | None \<Rightarrow>
          if fm_SessionOffline msg \<noteq> [] then [Offline (h, fm_SessionOffline msg)]
          else if length (fm_SyncSessions msg) > 0 then [Sync h (fm_SyncSessions msg)]
          else [])"

definition leader_sees :: "hub_id \<Rightarrow> hub \<Rightarrow> SessionStore" where
  "leader_sees h w = fold leader_table.exec (concat (map (table_ops h) (followerC w))) newSessionStore"

definition leader_view :: "hub_id \<Rightarrow> FollowerMsg list \<Rightarrow> hub_id \<times> sid \<rightharpoonup> Session" where
  "leader_view h ms = fold leader_table.abs_exec (concat (map (table_ops h) ms)) Map.empty"

lemma leader_sees_view: "sview (leader_sees h w) = leader_view h (followerC w)"
proof -
  have "sview newSessionStore = Map.empty"
    by (simp add: newSessionStore_def sview_def hub_map_def fun_eq_iff)
  then show ?thesis
    using leader_table.run_refines [OF ss_inv_new] by (simp add: leader_sees_def leader_view_def)
qed








section \<open>Goroutines that wait for ever\<close>

lemma forever:
  assumes "ws_reach my startOfDay errText unmarshal conf w w'" "P w"
    and "\<And>x y. ws_step my startOfDay errText unmarshal conf x y \<Longrightarrow> P x \<Longrightarrow> P y"
  shows "P w'"
  using assms(1,2) by (induction rule: ws_reach.induct) (auto intro: assms(3))

text \<open>The sender is gone and nobody else closes the handler.\<close>

definition orphan :: "handler \<Rightarrow> bool" where
  "orphan h \<longleftrightarrow> spc h = SenderDone \<and> \<not> closing h"

lemma orphan_step: "h_step h h' \<Longrightarrow> orphan h \<Longrightarrow> orphan h' \<and> conn_open h' = conn_open h \<and> length (dataChan h) \<le> length (dataChan h')"
  by (induction rule: h_step.induct) (auto simp: orphan_def ws_ops split: if_splits)

text \<open>The sender waits for room in its own channel.\<close>

definition stuck :: "handler \<Rightarrow> bool" where
  "stuck h \<longleftrightarrow> (\<exists>e. hlock h = Some (BySend (SdError e)) \<and> spc h = Reporting e) \<and> chan_cap \<le> length (dataChan h)"

lemma stuck_step: "h_step h h' \<Longrightarrow> stuck h \<Longrightarrow> stuck h'"
  by (induction rule: h_step.induct) (auto simp: stuck_def ws_ops split: if_splits)

text \<open>What a step of the node does to one handler.\<close>

inductive cell_step :: "hub \<Rightarrow> nat \<Rightarrow> handler \<Rightarrow> handler \<Rightarrow> bool" for w i where
  same: "cell_step w i h h"
| own: "h_step h h' \<Longrightarrow> cell_step w i h h'"
| reads: "rpc h = Reading \<Longrightarrow> cell_step w i h (h\<lparr>rpc := Replying vs g\<rparr>)"
| finishes: "stopping w = None \<Longrightarrow> hlock h = Some ByClose \<Longrightarrow> spc h = InClose ends \<Longrightarrow>
    cell_step w i h (h\<lparr>hlock := None, spc := after_close ends\<rparr>)"
| locks: "append_lock (ByHub v) h = Some (Inl h') \<Longrightarrow> cell_step w i h h'"
| sends: "hlock h = Some (ByHub v) \<Longrightarrow> append_send v h = Some h' \<Longrightarrow> cell_step w i h h'"
| stops: "stopping w = Some (i # ps) \<Longrightarrow> close_lock ServerStop h = Some (h', c) \<Longrightarrow> cell_step w i h h'"

lemma cell_upd:
  "i < length (hcells w) \<Longrightarrow> (j = i \<Longrightarrow> cell_step w i (hcells w ! i) h) \<Longrightarrow> cell_step w i (hcells w ! i) ((hcells w)[j := h] ! i)"
  by (auto simp: nth_upd intro: same)

lemma ws_cell:
  "ws_step my startOfDay errText unmarshal conf w w' \<Longrightarrow> i < length (hcells w) \<Longrightarrow>
    i < length (hcells w') \<and> cell_step w i (hcells w ! i) (hcells w' ! i)"
proof (induction rule: ws_step.induct)
  case (serve sid w auth up now ip r w')
  from serve(4) show ?case
    by (cases rule: serve_cases) (use serve(5) in \<open>auto simp: nth_append intro: same\<close>)
next
  case (local j w h')
  then show ?case by (auto intro!: cell_upd intro: own)
next
  case (read j w inc now en r d')
  then show ?case by (auto intro!: cell_upd intro: reads)
next
  case (peer_closes j w)
  then show ?case by (auto intro!: cell_upd intro: reads)
next
  case (close_del j w ends)
  have "cell_step w j (hcells w ! j) ((hcells w ! j)\<lparr>hlock := None, spc := after_close ends\<rparr>)"
    by (rule finishes [OF close_del(4,3,2)])
  then show ?case using close_del(5) by (auto intro!: cell_upd split del: if_split)
next
  case (hub_lock w j v ks h')
  then show ?case by (auto intro!: cell_upd intro: locks)
next
  case (hub_send w j v ks h')
  then show ?case by (auto intro!: cell_upd intro: sends)
next
  case (stop_close w j ps h' c)
  then show ?case by (auto intro!: cell_upd intro: stops)
qed (auto intro: same)

lemma orphan_cell: "cell_step w i h h' \<Longrightarrow> orphan h \<Longrightarrow> stopping w = None \<Longrightarrow> orphan h' \<and> conn_open h' = conn_open h"
  by (induction rule: cell_step.induct) (auto simp: orphan_step, auto simp: orphan_def ws_ops split: if_splits)

lemma stuck_cell: "cell_step w i h h' \<Longrightarrow> stuck h \<Longrightarrow> stuck h'"
  by (induction rule: cell_step.induct) (auto simp: stuck_step, auto simp: stuck_def ws_ops split: if_splits)

lemma stopping_mono:
  "ws_step my startOfDay errText unmarshal conf w w' \<Longrightarrow> stopping w \<noteq> None \<or> stopped w \<Longrightarrow> stopping w' \<noteq> None \<or> stopped w'"
proof (induction rule: ws_step.induct)
  case (serve sid w auth up now ip r w')
  from serve(4) show ?case by (cases rule: serve_cases) (use serve(5) in auto)
qed auto

definition hub_blocked :: "nat \<Rightarrow> hub_work list \<Rightarrow> hub \<Rightarrow> bool" where
  "hub_blocked i ks w \<longleftrightarrow> i < length (hcells w) \<and> stuck (hcells w ! i) \<and> (\<exists>v. work w = AppendTo i v # ks) \<and> stopping w = None"

lemma hub_blocked_step:
  "ws_step my startOfDay errText unmarshal conf w w' \<Longrightarrow> hub_blocked i ks w \<Longrightarrow> hub_blocked i ks w' \<and> work w' = work w"
proof -
  assume step: "ws_step my startOfDay errText unmarshal conf w w'" and b: "hub_blocked i ks w"
  have cell: "i < length (hcells w')" "stuck (hcells w' ! i)"
    using ws_cell [OF step, of i] stuck_cell [of w i "hcells w ! i" "hcells w' ! i"] b by (simp_all add: hub_blocked_def)
  have "work w' = work w \<and> stopping w' = stopping w"
    using step b
  proof (induction rule: ws_step.induct)
    case (serve sid w auth up now ip r w')
    from serve(4) show ?case by (cases rule: serve_cases) auto
  qed (auto simp: hub_blocked_def stuck_def ws_ops split: if_splits)
  with cell b show ?thesis by (simp add: hub_blocked_def)
qed

definition stop_blocked :: "nat \<Rightarrow> nat list \<Rightarrow> hub \<Rightarrow> bool" where
  "stop_blocked i ps w \<longleftrightarrow> i < length (hcells w) \<and> hlock (hcells w ! i) = Some ByClose \<and> stopping w = Some (i # ps) \<and> \<not> stopped w"

lemma close_lock_held: "cell_step w i h h' \<Longrightarrow> hlock h = Some ByClose \<Longrightarrow> stopping w \<noteq> None \<Longrightarrow> hlock h' = Some ByClose"
  by (induction rule: cell_step.induct) (auto elim!: h_step.cases simp: ws_ops split: if_splits)

lemma stop_blocked_step:
  "ws_step my startOfDay errText unmarshal conf w w' \<Longrightarrow> stop_blocked i ps w \<Longrightarrow> stop_blocked i ps w'"
proof -
  assume step: "ws_step my startOfDay errText unmarshal conf w w'" and b: "stop_blocked i ps w"
  have cell: "i < length (hcells w')" "hlock (hcells w' ! i) = Some ByClose"
    using ws_cell [OF step, of i] close_lock_held [of w i "hcells w ! i" "hcells w' ! i"] b by (simp_all add: stop_blocked_def)
  have "stopping w' = stopping w \<and> stopped w' = stopped w"
    using step b
  proof (induction rule: ws_step.induct)
    case (serve sid w auth up now ip r w')
    from serve(4) show ?case by (cases rule: serve_cases) auto
  qed (auto simp: stop_blocked_def ws_ops split: if_splits)
  with cell b show ?thesis by (simp add: stop_blocked_def)
qed

lemma orphan_reach:
  assumes "ws_reach my startOfDay errText unmarshal conf w w'" "i < length (hcells w)" "orphan (hcells w ! i)"
  shows "i < length (hcells w') \<and> (stopping w' \<noteq> None \<or> stopped w' \<or>
    orphan (hcells w' ! i) \<and> conn_open (hcells w' ! i) = conn_open (hcells w ! i))"
  using assms
proof (induction rule: ws_reach.induct)
  case (step w1 w2)
  note c = ws_cell [OF step(2)]
  show ?case
  proof (cases "stopping w1 \<noteq> None \<or> stopped w1")
    case True
    then show ?thesis using stopping_mono [OF step(2)] c step by blast
  next
    case False
    then show ?thesis using c [of i] orphan_cell [of w1 i "hcells w1 ! i" "hcells w2 ! i"] step by auto
  qed
qed simp

section \<open>Closed handlers wind down\<close>

primrec send_rank :: "sender_pc \<Rightarrow> nat" where
  "send_rank SenderDone = 0"
| "send_rank (Reporting _) = 1"
| "send_rank (Writing _) = 2"
| "send_rank Select = 3"
| "send_rank (CloseBy _ _) = 4"
| "send_rank (InClose _) = 4"

primrec recv_rank :: "receiver_pc \<Rightarrow> nat" where
  "recv_rank Reading = 0"
| "recv_rank (Replying vs _) = Suc (length vs)"
| "recv_rank ReceiverDone = 0"

definition h_rank :: "handler \<Rightarrow> nat" where
  "h_rank h = 5 * length (dataChan h) + send_rank (spc h) + recv_rank (rpc h)"

definition closed :: "handler \<Rightarrow> bool" where
  "closed h \<longleftrightarrow> h_ok h \<and> closing h \<and> hlock h = None"

lemma closed_step_rank: "h_step h h' \<Longrightarrow> closed h \<Longrightarrow> closed h' \<and> h_rank h' < h_rank h"
proof -
  assume step: "h_step h h'" and c: "closed h"
  have "closing h' \<and> hlock h' = None \<and> h_rank h' < h_rank h"
    using step c by (induction rule: h_step.induct) (auto simp: closed_def h_ok_def h_rank_def ws_ops split: if_splits)
  with h_step_ok [OF step] c show ?thesis by (simp add: closed_def)
qed

lemma closed_steps_rank: "(h_step ^^ n) h h' \<Longrightarrow> closed h \<Longrightarrow> closed h' \<and> n + h_rank h' \<le> h_rank h"
proof (induction n arbitrary: h')
  case (Suc n)
  then obtain h1 where "(h_step ^^ n) h h1" "h_step h1 h'" by auto
  with Suc.IH [of h1] Suc.prems(2) closed_step_rank [of h1 h'] show ?case by auto
qed simp

lemma closed_progress:
  assumes "closed h" "spc h \<noteq> SenderDone \<or> (\<exists>vs g. rpc h = Replying vs g)"
  shows "\<exists>h'. h_step h h'"
proof -
  have c: "closing h" "hlock h = None" "\<And>ends. spc h \<noteq> InClose ends" using assms(1) by (auto simp: closed_def h_ok_def)
  have skip: "append_lock ow h = Some (Inr ())" for ow using c by (simp add: append_lock_def)
  consider vs g where "rpc h = Replying vs g" | "spc h = Select" | m where "spc h = Writing m" | e where "spc h = Reporting e"
    | e ends where "spc h = CloseBy e ends" using assms(2) c(3) by (cases "spc h") auto
  then show ?thesis
  proof cases
    case (1 vs g)
    then show ?thesis using recv_skip [OF _ skip] recv_next by (cases vs) blast+
  next
    case 2
    then show ?thesis using c(1) by (cases "dataChan h"; cases "hd (dataChan h)") (auto intro: take_error take_msg take_closed)
  next
    case 3
    then show ?thesis using write_fails by blast
  next
    case 4
    then show ?thesis using report_skip [OF _ skip] by blast
  next
    case 5
    then show ?thesis using close_again [of h _ _ h] c by (auto simp: close_lock_def)
  qed
qed

section \<open>A node with one session\<close>

definition one_handler :: "db \<Rightarrow> handler \<Rightarrow> hub" where
  "one_handler d h = \<lparr>hcells = [h], hstore = [sid_of h \<mapsto> 0], is_online = True,
     followerC = [empty_FollowerMsg\<lparr>fm_SessionOnline := Some (h_session h)\<rparr>], tables = d, work = [],
     opc = Copying, stopping = None, stopped = False\<rparr>"

definition sample_session :: Session where
  "sample_session = \<lparr>ses_HubId = [], ses_Uid = 1, ses_Sid = ''s'', ses_Ip = [], ses_CreateTime = 7, ses_KickoffTime = 0\<rparr>"

lemma reach_one: "ws_reach my startOfDay errText unmarshal conf (NewHub d) (one_handler d (new_handler sample_session))"
proof -
  have "ws_step my startOfDay errText unmarshal conf (NewHub d) (hub_Online (NewHub d))"
    by (rule go_online) (simp add: NewHub_def)
  moreover have "ServeHTTP (Some 1) True ''s'' 7 [] (hub_Online (NewHub d)) = (Upgraded, one_handler d (new_handler sample_session))"
    by (simp add: ServeHTTP_def addHandler_def hs_add_def send_follower_def hub_Online_def NewHub_def one_handler_def
        new_handler_def sample_session_def Let_def)
  then have "ws_step my startOfDay errText unmarshal conf (hub_Online (NewHub d)) (one_handler d (new_handler sample_session))"
    by (rule serve [rotated 3]) (simp_all add: NewHub_def)
  ultimately show ?thesis by (blast intro: ws_reach.intros)
qed

lemma reach_local:
  assumes "ws_reach my startOfDay errText unmarshal conf w (one_handler d h)" "h_step h h'"
  shows "ws_reach my startOfDay errText unmarshal conf w (one_handler d h')"
proof -
  have "ws_step my startOfDay errText unmarshal conf (one_handler d h) (upd 0 h' (one_handler d h))"
    by (rule ws_step.local) (simp_all add: one_handler_def assms(2))
  moreover have "upd 0 h' (one_handler d h) = one_handler d h'"
    by (simp add: upd_def one_handler_def h_step_session [OF assms(2)])
  ultimately show ?thesis using assms(1) by (auto intro: ws_reach.step)
qed

definition head_msg :: "SessionData" where
  "head_msg = SdMsg (empty_ServerMsg\<lparr>sm_HeadSeq := 5\<rparr>)"

lemma reach_push_start:
  assumes "ws_reach my startOfDay errText unmarshal conf w (one_handler d h)" "ses_Uid (h_session h) = 1"
  shows "ws_reach my startOfDay errText unmarshal conf w ((one_handler d h)\<lparr>work := [AppendTo 0 head_msg]\<rparr>)"
proof -
  let ?msg = "empty_LeaderMsg\<lparr>lm_HeadSeq := [1 \<mapsto> 5]\<rparr>"
  have "ws_step my startOfDay errText unmarshal conf (one_handler d h) ((one_handler d h)\<lparr>work := hub_receive [1] ?msg\<rparr>)"
    by (rule hub_take) (simp_all add: one_handler_def go_range_def)
  moreover have w1: "hub_receive [1] ?msg = [PushUid 1 5]" by (simp add: hub_receive_def empty_LeaderMsg_def)
  moreover have "ws_step my startOfDay errText unmarshal conf ((one_handler d h)\<lparr>work := [PushUid 1 5]\<rparr>)
     ((one_handler d h)\<lparr>work := [PushUid 1 5]\<rparr>
       \<lparr>work := push_work [sid_of h] 1 5 ((one_handler d h)\<lparr>work := [PushUid 1 5]\<rparr>) @ []\<rparr>)"
    by (rule hub_push) (simp_all add: one_handler_def go_range_def)
  moreover have "push_work [sid_of h] 1 5 ((one_handler d h)\<lparr>work := [PushUid 1 5]\<rparr>) = [AppendTo 0 head_msg]"
    using assms(2) by (simp add: push_work_def getByUid_def one_handler_def head_msg_def)
  ultimately show ?thesis using assms(1) by (auto intro: ws_reach.step)
qed

lemma reach_push:
  assumes "ws_reach my startOfDay errText unmarshal conf w (one_handler d h)" "ses_Uid (h_session h) = 1"
    and "hlock h = None" "\<not> closing h" "length (dataChan h) < chan_cap"
  shows "ws_reach my startOfDay errText unmarshal conf w (one_handler d (h\<lparr>dataChan := dataChan h @ [head_msg]\<rparr>))"
proof -
  let ?w = "(one_handler d h)\<lparr>work := [AppendTo 0 head_msg]\<rparr>" and ?h = "h\<lparr>hlock := Some (ByHub head_msg)\<rparr>"
  let ?h2 = "h\<lparr>dataChan := dataChan h @ [head_msg], hlock := None\<rparr>"
  have "ws_step my startOfDay errText unmarshal conf ?w (upd 0 ?h ?w)"
    by (rule hub_lock) (use assms(3,4) in \<open>simp_all add: append_lock_def one_handler_def\<close>)
  moreover have "ws_step my startOfDay errText unmarshal conf (upd 0 ?h ?w) ((upd 0 ?h2 (upd 0 ?h ?w))\<lparr>work := []\<rparr>)"
    by (rule hub_send) (use assms(5) in \<open>simp_all add: append_send_def one_handler_def\<close>)
  moreover have "(upd 0 ?h2 (upd 0 ?h ?w))\<lparr>work := []\<rparr> = one_handler d (h\<lparr>dataChan := dataChan h @ [head_msg]\<rparr>)"
    using assms(3) by (simp add: upd_def one_handler_def)
  ultimately show ?thesis using reach_push_start [OF assms(1,2)] by (auto intro: ws_reach.step)
qed

lemma reach_fill:
  "n \<le> chan_cap \<Longrightarrow> ws_reach my startOfDay errText unmarshal conf (NewHub d)
    (one_handler d ((new_handler sample_session)\<lparr>dataChan := replicate n head_msg\<rparr>))"
proof (induction n)
  case 0
  have "(new_handler sample_session)\<lparr>dataChan := []\<rparr> = new_handler sample_session" by (simp add: new_handler_def)
  then show ?case using reach_one by simp
next
  case (Suc n)
  then have "ws_reach my startOfDay errText unmarshal conf (NewHub d)
    (one_handler d ((new_handler sample_session)\<lparr>dataChan := replicate n head_msg\<rparr>))" by simp
  from reach_push [OF this] Suc.prems show ?case
    by (simp add: new_handler_def sample_session_def replicate_append_same)
qed

definition stuck_handler :: handler where
  "stuck_handler = (new_handler sample_session)\<lparr>dataChan := replicate 16 head_msg, spc := Reporting WriteError,
     hlock := Some (BySend (SdError WriteError))\<rparr>"

lemma reach_stuck:
  "ws_reach my startOfDay errText unmarshal conf (NewHub d) ((one_handler d stuck_handler)\<lparr>work := [AppendTo 0 head_msg]\<rparr>)"
proof -
  let ?m = "empty_ServerMsg\<lparr>sm_HeadSeq := 5\<rparr>" and ?n = "new_handler sample_session"
  have full: "ws_reach my startOfDay errText unmarshal conf (NewHub d) (one_handler d (?n\<lparr>dataChan := replicate 16 head_msg\<rparr>))"
    using reach_fill [of 16] by (simp add: chan_cap_def)
  have "replicate 16 head_msg = SdMsg ?m # replicate 15 head_msg" by (simp add: numeral_eq_Suc head_msg_def)
  then have "h_step (?n\<lparr>dataChan := replicate 16 head_msg\<rparr>) (?n\<lparr>dataChan := replicate 15 head_msg, spc := Writing ?m\<rparr>)"
    using take_msg [of "?n\<lparr>dataChan := replicate 16 head_msg\<rparr>" ?m "replicate 15 head_msg"] by (simp add: new_handler_def)
  from reach_push [OF reach_local [OF full this]]
  have writing: "ws_reach my startOfDay errText unmarshal conf (NewHub d)
      (one_handler d (?n\<lparr>dataChan := replicate 16 head_msg, spc := Writing ?m\<rparr>))"
    by (simp add: new_handler_def sample_session_def chan_cap_def replicate_append_same [symmetric] numeral_eq_Suc)
  have "h_step (?n\<lparr>dataChan := replicate 16 head_msg, spc := Writing ?m\<rparr>)
      (?n\<lparr>dataChan := replicate 16 head_msg, spc := Reporting WriteError\<rparr>)"
    using write_fails [of "?n\<lparr>dataChan := replicate 16 head_msg, spc := Writing ?m\<rparr>" ?m] by simp
  note failed = reach_local [OF writing this]
  have "h_step (?n\<lparr>dataChan := replicate 16 head_msg, spc := Reporting WriteError\<rparr>) stuck_handler"
    by (rule report_lock [of _ WriteError]) (simp_all add: append_lock_def new_handler_def stuck_handler_def)
  from reach_push_start [OF reach_local [OF failed this]] show ?thesis
    by (simp add: stuck_handler_def new_handler_def sample_session_def)
qed

definition closing_handler :: handler where
  "closing_handler = (new_handler sample_session)\<lparr>rpc := Replying [] False, spc := InClose True, closing := True,
     conn_open := False, hlock := Some ByClose\<rparr>"

lemma reach_in_close: "ws_reach my startOfDay errText unmarshal conf (NewHub d) (one_handler d closing_handler)"
proof -
  let ?n = "new_handler sample_session" and ?e = "SdError ReadError"
  let ?h1 = "?n\<lparr>rpc := Replying [?e] False\<rparr>"
  let ?h3 = "?n\<lparr>rpc := Replying [] False, dataChan := [?e]\<rparr>" and ?h4 = "?n\<lparr>rpc := Replying [] False, spc := CloseBy ReadError True\<rparr>"
  have "ws_step my startOfDay errText unmarshal conf (one_handler d ?n) (one_handler d ?h1)"
    using ws_step.read [of 0 "one_handler d ?n" ReadFails my startOfDay undefined undefined errText unmarshal conf]
    by (simp add: recv_round_def one_handler_def new_handler_def upd_def)
  with reach_one have r1: "ws_reach my startOfDay errText unmarshal conf (NewHub d) (one_handler d ?h1)" by (rule ws_reach.step)
  have "h_step ?h1 (?h1\<lparr>hlock := Some (ByRecv ?e)\<rparr>)"
    by (rule recv_lock [of _ ?e "[]" False]) (simp_all add: append_lock_def new_handler_def)
  note r2 = reach_local [OF r1 this]
  have "h_step (?h1\<lparr>hlock := Some (ByRecv ?e)\<rparr>) ((?h1\<lparr>dataChan := [?e], hlock := None\<rparr>)\<lparr>rpc := Replying [] False\<rparr>)"
    by (rule recv_send [of _ ?e]) (simp_all add: append_send_def new_handler_def chan_cap_def)
  then have "h_step (?h1\<lparr>hlock := Some (ByRecv ?e)\<rparr>) ?h3" by (simp add: new_handler_def)
  note r3 = reach_local [OF r2 this]
  have "h_step ?h3 ?h4" using take_error [of ?h3 ReadError "[]"] by (simp add: new_handler_def)
  note r4 = reach_local [OF r3 this]
  have "h_step ?h4 ((?h4\<lparr>closing := True, conn_open := False, hlock := Some ByClose\<rparr>)\<lparr>spc := InClose True\<rparr>)"
    by (rule close_first [of _ ReadError]) (simp_all add: close_lock_def new_handler_def)
  then have "h_step ?h4 closing_handler" by (simp add: closing_handler_def new_handler_def)
  from reach_local [OF r4 this] show ?thesis .
qed

lemma reach_closing:
  "ws_reach my startOfDay errText unmarshal conf (NewHub d) ((one_handler d closing_handler)\<lparr>stopping := Some [0]\<rparr>)"
proof -
  have "ws_step my startOfDay errText unmarshal conf (one_handler d closing_handler)
      ((one_handler d closing_handler)\<lparr>stopping := Some [0]\<rparr>)"
    using hub_stop [of "one_handler d closing_handler" "[sid_of closing_handler]"]
    by (simp add: one_handler_def go_range_def hs_close_def)
  with reach_in_close show ?thesis by (rule ws_reach.step)
qed

lemma concat_batches: "concat (sync_batches xs i) = drop i xs"
proof (induction xs i rule: sync_batches.induct)
  case (1 xs i)
  show ?case
  proof (cases "i < length xs")
    case True
    have "concat (sync_batches xs i) = take 1000 (drop i xs) @ concat (sync_batches xs (i + 1000))"
      using True by (subst sync_batches.simps) (auto simp: Let_def)
    also have "concat (sync_batches xs (i + 1000)) = drop 1000 (drop i xs)"
      using 1 [OF True] by (simp add: add.commute)
    finally show ?thesis by (simp only: append_take_drop_id)
  qed (simp add: sync_batches.simps)
qed

lemma batch_sizes: "\<forall>b \<in> set (sync_batches xs i). b \<noteq> [] \<and> length b \<le> 1000"
proof (induction xs i rule: sync_batches.induct)
  case (1 xs i)
  then show ?case by (subst sync_batches.simps) (auto simp: Let_def)
qed

section \<open>Properties\<close>





text \<open>C32. The converse fails: a session that connects and disconnects while \<^verbatim>\<open>Online\<close> sends its copy of
  the sessions comes back to life at the leader, after which the leader holds a session that the
  hub does not have and never reports offline again.\<close>

theorem stale_sync_revives:
  "\<exists>w. ws_reach my startOfDay errText unmarshal conf (NewHub d) w \<and> hstore w = Map.empty \<and> opc w = Syncing [] \<and>
    ''s'' \<in> set (offs w) \<and> sview (leader_sees h w) (h, ''s'') \<noteq> None"
proof -
  let ?w0 = "one_handler d (new_handler sample_session)"
  let ?w1 = "hub_Online_copy [''s''] ?w0"
  let ?w2 = "delHandler ''s'' (upd 0 ((new_handler sample_session)\<lparr>rpc := Replying [SdError ReadError] False\<rparr>) ?w1)"
  let ?w3 = "send_follower (empty_FollowerMsg\<lparr>fm_SyncSessions := [sample_session]\<rparr>) (?w2\<lparr>opc := Syncing []\<rparr>)"
  note one = one_handler_def new_handler_def sample_session_def
  have "ws_step my startOfDay errText unmarshal conf ?w0 ?w1"
    by (rule online_copy) (simp_all add: one go_range_def)
  moreover have "ws_step my startOfDay errText unmarshal conf ?w1 ?w2"
    using peer_closes [of 0 ?w1] by (simp add: one)
  moreover have "opc ?w2 = Syncing ([sample_session] # [])"
    by (simp add: hub_Online_copy_def shallowCopySessions_def delHandler_def hs_del_def send_follower_def one sync_batches.simps)
  then have "ws_step my startOfDay errText unmarshal conf ?w2 ?w3" by (rule online_sync)
  ultimately have "ws_reach my startOfDay errText unmarshal conf (NewHub d) ?w3"
    using reach_one by (blast intro: ws_reach.step)
  moreover have "hstore ?w3 = Map.empty" "opc ?w3 = Syncing []" "''s'' \<in> set (offs ?w3)"
    by (simp_all add: one offs_def send_follower_def empty_FollowerMsg_def)
  moreover have "sview (leader_sees h ?w3) (h, ''s'') \<noteq> None"
    unfolding leader_sees_view by (simp add: one leader_view_def table_ops_def empty_FollowerMsg_def)
  ultimately show ?thesis by blast
qed

text \<open>C28. When a write or a ping fails, the sender only leaves a note in its own channel and ends. From then on
  nothing but the stop of the node ever closes the handler: its connection stays as it is.\<close>

theorem failed_write_never_closes:
  assumes "ws_reach my startOfDay errText unmarshal conf w w'" "i < length (hcells w)"
    and "spc (hcells w ! i) = SenderDone" "\<not> closing (hcells w ! i)" "stopping w' = None" "\<not> stopped w'"
  shows "\<not> closing (hcells w' ! i) \<and> conn_open (hcells w' ! i) = conn_open (hcells w ! i)"
  using orphan_reach [OF assms(1,2)] assms(3-6) by (simp add: orphan_def)

theorem failed_write_never_closes_witness:
  "\<exists>h. ws_reach plain_mysql id (\<lambda>_. []) (\<lambda>_. Inr empty_ClientMsg) sample_conf (NewHub empty_db) (one_handler empty_db h) \<and>
     dataChan h = [SdError PingError] \<and> conn_open h \<and>
     (\<nexists>w'. ws_reach plain_mysql id (\<lambda>_. []) (\<lambda>_. Inr empty_ClientMsg) sample_conf (one_handler empty_db h) w' \<and>
        stopping w' = None \<and> \<not> stopped w' \<and> \<not> conn_open (hcells w' ! 0))"
proof -
  let ?n = "new_handler sample_session"
  let ?h = "?n\<lparr>dataChan := [SdError PingError], spc := SenderDone\<rparr>"
  have "h_step ?n (?n\<lparr>spc := Reporting PingError\<rparr>)" by (rule ping_fails) (simp add: new_handler_def)
  note r1 = reach_local [OF reach_one this]
  have "h_step (?n\<lparr>spc := Reporting PingError\<rparr>) (?n\<lparr>spc := Reporting PingError, hlock := Some (BySend (SdError PingError))\<rparr>)"
    by (rule report_lock [of _ PingError]) (simp_all add: append_lock_def new_handler_def)
  note r2 = reach_local [OF r1 this]
  have "h_step (?n\<lparr>spc := Reporting PingError, hlock := Some (BySend (SdError PingError))\<rparr>)
      ((?n\<lparr>spc := Reporting PingError, dataChan := [SdError PingError], hlock := None\<rparr>)\<lparr>spc := SenderDone\<rparr>)"
    by (rule report_send [of _ "SdError PingError"]) (simp_all add: append_send_def new_handler_def chan_cap_def)
  then have "h_step (?n\<lparr>spc := Reporting PingError, hlock := Some (BySend (SdError PingError))\<rparr>) ?h"
    by (simp add: new_handler_def)
  note r3 = reach_local [OF r2 this]
  have "conn_open (hcells w' ! 0)"
    if "ws_reach plain_mysql id (\<lambda>_. []) (\<lambda>_. Inr empty_ClientMsg) sample_conf (one_handler empty_db ?h) w'"
      "stopping w' = None" "\<not> stopped w'" for w'
    using failed_write_never_closes [OF that(1), of 0] that(2,3) by (simp add: one_handler_def new_handler_def)
  then have "\<nexists>w'. ws_reach plain_mysql id (\<lambda>_. []) (\<lambda>_. Inr empty_ClientMsg) sample_conf (one_handler empty_db ?h) w' \<and>
      stopping w' = None \<and> \<not> stopped w' \<and> \<not> conn_open (hcells w' ! 0)" by blast
  with r3 show ?thesis by (intro exI [of _ ?h]) (simp add: new_handler_def)
qed

text \<open>C26. If the channel is full when a write fails, the sender waits for room in the channel that only it
  empties, with the mutex held. The next push to that session blocks \<^verbatim>\<open>Hub.Run\<close> for ever: no session of the
  node gets any message again, and the node does not even start to stop.\<close>

theorem full_channel_blocks_hub:
  assumes "ws_reach my startOfDay errText unmarshal conf w w'" "i < length (hcells w)" "stuck (hcells w ! i)"
    and "work w = AppendTo i v # ks" "stopping w = None"
  shows "work w' = work w \<and> stopping w' = None \<and> stuck (hcells w' ! i)"
proof -
  have "hub_blocked i ks w' \<and> work w' = work w"
    by (rule forever [OF assms(1), where P = "\<lambda>x. hub_blocked i ks x \<and> work x = work w"])
      (use assms hub_blocked_step in \<open>auto simp: hub_blocked_def\<close>)
  then show ?thesis by (simp add: hub_blocked_def)
qed

theorem full_channel_blocks_hub_witness:
  "\<exists>w. ws_reach plain_mysql id (\<lambda>_. []) (\<lambda>_. Inr empty_ClientMsg) sample_conf (NewHub empty_db) w \<and> work w \<noteq> [] \<and>
     (\<nexists>w'. ws_reach plain_mysql id (\<lambda>_. []) (\<lambda>_. Inr empty_ClientMsg) sample_conf w w' \<and> work w' = [])"
proof -
  let ?w = "(one_handler empty_db stuck_handler)\<lparr>work := [AppendTo 0 head_msg]\<rparr>"
  have "stuck (hcells ?w ! 0)" "0 < length (hcells ?w)" "work ?w = AppendTo 0 head_msg # []" "stopping ?w = None"
    by (simp_all add: stuck_def stuck_handler_def one_handler_def chan_cap_def)
  from full_channel_blocks_hub [OF _ this(2,1,3,4)] this(3) have "work w' \<noteq> []"
    if "ws_reach plain_mysql id (\<lambda>_. []) (\<lambda>_. Inr empty_ClientMsg) sample_conf ?w w'" for w' using that by simp
  with reach_stuck show ?thesis by (intro exI [of _ ?w]) auto
qed

text \<open>C27. Closing a session and stopping the node take the two locks in opposite order: if the stop reaches a
  handler that is in the middle of closing, both wait for each other and the node never stops.\<close>

theorem stop_deadlock:
  assumes "ws_reach my startOfDay errText unmarshal conf w w'" "i < length (hcells w)" "hlock (hcells w ! i) = Some ByClose"
    and "stopping w = Some (i # ps)" "\<not> stopped w"
  shows "\<not> stopped w' \<and> stopping w' = Some (i # ps) \<and> hlock (hcells w' ! i) = Some ByClose"
proof -
  have "stop_blocked i ps w'"
    by (rule forever [OF assms(1), where P = "stop_blocked i ps"])
      (use assms stop_blocked_step in \<open>auto simp: stop_blocked_def\<close>)
  then show ?thesis by (simp add: stop_blocked_def)
qed

theorem stop_deadlock_witness:
  "\<exists>w. ws_reach plain_mysql id (\<lambda>_. []) (\<lambda>_. Inr empty_ClientMsg) sample_conf (NewHub empty_db) w \<and>
     (\<nexists>w'. ws_reach plain_mysql id (\<lambda>_. []) (\<lambda>_. Inr empty_ClientMsg) sample_conf w w' \<and> stopped w')"
proof -
  let ?w = "(one_handler empty_db closing_handler)\<lparr>stopping := Some [0]\<rparr>"
  have "0 < length (hcells ?w)" "hlock (hcells ?w ! 0) = Some ByClose" "stopping ?w = Some (0 # [])" "\<not> stopped ?w"
    by (simp_all add: one_handler_def closing_handler_def)
  from stop_deadlock [OF _ this] reach_closing show ?thesis by (intro exI [of _ ?w]) blast
qed

text \<open>The batches that \<^verbatim>\<open>Online\<close> sends make up all sessions, in order, with one to 1000 in each.\<close>

theorem online_batches:
  "concat (sync_batches sessions 0) = sessions \<and> (\<forall>b \<in> set (sync_batches sessions 0). b \<noteq> [] \<and> length b \<le> 1000)"
  using concat_batches [of sessions 0] batch_sizes [of sessions 0] by simp

theorem online_batches_witness:
  "concat (sync_batches (replicate 2500 sample_session) 0) = replicate 2500 sample_session"
  using online_batches [of "replicate 2500 sample_session"] by simp

text \<open>C18. A handler that has been closed winds down: whatever it still has in its channel and however its two
  goroutines interleave, they take at most \<open>h_rank\<close> steps, and when none is left the sender has ended and the
  receiver has ended or is at a read of the closed connection.\<close>

theorem closed_handler_winds_down:
  assumes "ws_reach my startOfDay errText unmarshal conf (NewHub d) w" "h \<in> set (hcells w)" "closing h" "hlock h = None"
    and "(h_step ^^ n) h h'"
  shows "n \<le> h_rank h \<and> ((\<nexists>h''. h_step h' h'') \<longrightarrow> spc h' = SenderDone \<and> (rpc h' = Reading \<or> rpc h' = ReceiverDone))"
proof -
  have "closed h" using ws_inv_reach [OF assms(1) ws_inv_new] assms(2-4) by (auto simp: closed_def ws_inv_def cells_ok_def)
  from closed_steps_rank [OF assms(5) this] have "closed h'" "n \<le> h_rank h" by auto
  with closed_progress [of h'] show ?thesis by (cases "rpc h'") auto
qed

theorem closed_handler_winds_down_witness:
  "\<exists>w h. ws_reach plain_mysql id (\<lambda>_. []) (\<lambda>_. Inr empty_ClientMsg) sample_conf (NewHub empty_db) w \<and> hcells w = [h] \<and> closing h \<and>
     (\<nexists>n h'. (h_step ^^ n) h h' \<and> 1 < n)"
proof -
  let ?h = "closing_handler\<lparr>hlock := None, spc := SenderDone\<rparr>"
  let ?w = "delHandler (sid_of closing_handler) (upd 0 ?h (one_handler empty_db closing_handler))"
  have "ws_step plain_mysql id (\<lambda>_. []) (\<lambda>_. Inr empty_ClientMsg) sample_conf (one_handler empty_db closing_handler) ?w"
    using close_del [of 0 "one_handler empty_db closing_handler" True] by (simp add: one_handler_def closing_handler_def)
  with reach_in_close have r: "ws_reach plain_mysql id (\<lambda>_. []) (\<lambda>_. Inr empty_ClientMsg) sample_conf (NewHub empty_db) ?w"
    by (rule ws_reach.step)
  have h: "hcells ?w = [?h]" "closing ?h" "hlock ?h = None" "h_rank ?h = 1"
    by (simp_all add: one_handler_def closing_handler_def h_rank_def new_handler_def)
  have "n \<le> 1" if "(h_step ^^ n) ?h h'" for n h'
    using closed_handler_winds_down [OF r _ h(2,3) that] h(1,4) by simp
  then have "\<nexists>n h'. (h_step ^^ n) ?h h' \<and> 1 < n" by (meson not_le)
  with r h(1,2) show ?thesis by blast
qed

end
