(* ===== verification/Cluster.thy ===== *)
theory Cluster
  imports PushServer WsHub
begin

text \<open>
  \<^verbatim>\<open>cluster/cluster.go\<close> and \<^verbatim>\<open>cluster/client.go\<close>: how a node of a cluster is wired.

  A node runs as leader, as follower, or as both. Its channel \<^verbatim>\<open>sendMsgChan\<close> (room for eight
  messages) is written by the storage of a leader and by the client of a follower, and read by
  the push loop of a leader and by the hub of a follower. The state of a node is that channel,
  the leader's gRPC server with the log of what it sent on each stream, how many messages the node's own client has
  received on its stream, and logs of what went in and out. The gRPC connection delivers the messages of a stream in order.

  Shown here: a node with one role hands on every message once and in order; a node with both
  roles can keep an announcement from all other hubs, and can repeat one without end; the hub id tells
  nodes apart; when the client of a follower connects and when it ends. How a node starts and stops is in the
  theory \<open>Shutdown\<close>. The HTTP and gRPC servers themselves are not modelled.
\<close>

section \<open>Configuration\<close>

text \<open>The fields \<^verbatim>\<open>Hub\<close>, \<^verbatim>\<open>Mux\<close> and \<^verbatim>\<open>EventManager\<close>, which hold objects, are left out.\<close>

record ClusterCfg =
  cfg_Pid :: int
  cfg_Addr :: string
  RunLeader :: bool
  RunFollower :: bool
  LeaderAddr :: string
  cfg_KafkaBrokers :: "string list"
  cfg_KafkaTopic :: string
  cfg_KafkaGroupId :: string
  cfg_EnableClientMsg :: bool
  cfg_CleanEvents :: bool
  cfg_EventTTLDays :: int
  cfg_EventPayloadMaxBytes :: int
  cfg_SessionQuota :: int



datatype http_target = GrpcServer | ServiceUnavailable | MuxServer

definition has_prefix :: "string \<Rightarrow> string \<Rightarrow> bool" where
  "has_prefix s p \<longleftrightarrow> take (length p) s = p"

definition cluster_ServeHTTP :: "ClusterCfg \<Rightarrow> int \<Rightarrow> string \<Rightarrow> http_target" where
  "cluster_ServeHTTP conf protoMajor contentType =
     (if protoMajor = 2 \<and> has_prefix contentType ''application/grpc''
      then (if RunLeader conf then GrpcServer else ServiceUnavailable)
      else MuxServer)"

section \<open>The client\<close>




text \<open>What the receive loop of \<^verbatim>\<open>start\<close> does with one result of \<^verbatim>\<open>Recv\<close>.\<close>

datatype client_next = ClientEnds | ClientStops | ClientSleeps | Forward LeaderMsg

definition client_recv :: "stream_err + LeaderMsg \<Rightarrow> client_next" where
  "client_recv r =
     (case r of
        Inl err \<Rightarrow> if err = IoEOF \<or> err = CodeCanceled \<or> err = CodeUnavailable then ClientEnds else ClientSleeps
      | Inr msg \<Rightarrow> if lm_ServerShutdown msg then ClientStops else Forward msg)"

text \<open>The receive loop on a list of results: what it forwards, and whether it has ended.\<close>

fun client_start :: "(stream_err + LeaderMsg) list \<Rightarrow> LeaderMsg list \<times> bool" where
  "client_start [] = ([], False)"
| "client_start (r # rs) =
     (case client_recv r of
        ClientEnds \<Rightarrow> ([], True)
      | ClientStops \<Rightarrow> ([], True)
      | ClientSleeps \<Rightarrow> client_start rs
      | Forward msg \<Rightarrow> let (out, ended) = client_start rs in (msg # out, ended))"

text \<open>
  The send loop: every message of the hub is sent once; an error of \<^verbatim>\<open>SendMsg\<close> is logged and the
  message is gone. The result is what the leader receives.
\<close>

fun client_sendLoop :: "(FollowerMsg \<Rightarrow> string option) \<Rightarrow> FollowerMsg list \<Rightarrow> FollowerMsg list" where
  "client_sendLoop sendMsg [] = []"
| "client_sendLoop sendMsg (m # ms) =
     (case sendMsg m of None \<Rightarrow> m # client_sendLoop sendMsg ms | Some _ \<Rightarrow> client_sendLoop sendMsg ms)"

section \<open>A node\<close>

record node =
  chan :: "LeaderMsg list"
  srv :: pushServer
  got :: nat
  announced :: "LeaderMsg list"
  forwarded :: "LeaderMsg list"
  pushed_out :: "LeaderMsg list"
  hub_in :: "LeaderMsg list"

definition node_cap :: nat where
  "node_cap = 8"

definition NewCluster :: "ClusterCfg \<Rightarrow> node" where
  "NewCluster conf = \<lparr>chan = [], srv = newPushServer (cfg_SessionQuota conf) (cfg_EventPayloadMaxBytes conf), got = 0, announced = [], forwarded = [],
     pushed_out = [], hub_in = []\<rparr>"

definition stream_log :: "nat \<Rightarrow> pushServer \<Rightarrow> LeaderMsg list" where
  "stream_log k s = map snd (filter (\<lambda>(st, _). st = k) (sent s))"

text \<open>The argument \<open>k\<close> is the stream of the node's own client at its own server.\<close>

inductive node_step :: "ClusterCfg \<Rightarrow> nat \<Rightarrow> node \<Rightarrow> node \<Rightarrow> bool" for conf k where
  connect: "RunLeader conf \<Longrightarrow> hubStreams (srv s) h = None \<Longrightarrow> node_step conf k s (s\<lparr>srv := addStream h st (srv s)\<rparr>)"
| announce: "RunLeader conf \<Longrightarrow> length (chan s) < node_cap \<Longrightarrow>
    node_step conf k s (s\<lparr>chan := chan s @ [m], announced := announced s @ [m]\<rparr>)"
| push_loop: "RunLeader conf \<Longrightarrow> chan s = m # c \<Longrightarrow> go_range (hubStreams (srv s)) o1 \<Longrightarrow> go_range (hubStreams (srv s)) o2 \<Longrightarrow>
    node_step conf k s (s\<lparr>chan := c, srv := run_msg o1 o2 sendRes m (srv s), pushed_out := pushed_out s @ [m]\<rparr>)"
| hub_run: "RunFollower conf \<Longrightarrow> chan s = m # c \<Longrightarrow> node_step conf k s (s\<lparr>chan := c, hub_in := hub_in s @ [m]\<rparr>)"
| client_forwards: "RunFollower conf \<Longrightarrow> client_recv (Inr m) = Forward m' \<Longrightarrow> length (chan s) < node_cap \<Longrightarrow>
    RunLeader conf \<longrightarrow> got s < length (stream_log k (srv s)) \<and> stream_log k (srv s) ! got s = m \<Longrightarrow>
    node_step conf k s (s\<lparr>chan := chan s @ [m'], got := Suc (got s), forwarded := forwarded s @ [m']\<rparr>)"

inductive node_reach :: "ClusterCfg \<Rightarrow> nat \<Rightarrow> node \<Rightarrow> node \<Rightarrow> bool" for conf k s where
  node_start: "node_reach conf k s s"
| node_next: "node_reach conf k s s1 \<Longrightarrow> node_step conf k s1 s2 \<Longrightarrow> node_reach conf k s s2"

section \<open>Properties\<close>




definition both_roles :: ClusterCfg where
  "both_roles = \<lparr>cfg_Pid = 1, cfg_Addr = ''127.0.0.1:8000'', RunLeader = True, RunFollower = True, LeaderAddr = [],
     cfg_KafkaBrokers = [''k''], cfg_KafkaTopic = ''minipush-events'', cfg_KafkaGroupId = ''minipush'', cfg_EnableClientMsg = False,
     cfg_CleanEvents = True, cfg_EventTTLDays = 30, cfg_EventPayloadMaxBytes = 4096, cfg_SessionQuota = 5\<rparr>"

definition two_hubs :: "pushServer" where
  "two_hubs = addStream ''b'' 2 (addStream ''a'' 1 (newPushServer 5 4096))"

definition echo_state :: "LeaderMsg \<Rightarrow> nat \<Rightarrow> node" where
  "echo_state m n = \<lparr>chan = [m], srv = two_hubs\<lparr>sent := concat (replicate n [(1, m), (2, m)])\<rparr>, got = n, announced = [m],
     forwarded = replicate n m, pushed_out = replicate n m, hub_in = []\<rparr>"


lemma two_hubs_reach:
  "node_reach both_roles 1 (NewCluster both_roles) ((NewCluster both_roles)\<lparr>srv := two_hubs\<rparr>)"
proof -
  let ?n = "NewCluster both_roles"
  have "node_step both_roles 1 ?n (?n\<lparr>srv := addStream ''a'' 1 (srv ?n)\<rparr>)"
    by (rule connect) (simp_all add: both_roles_def NewCluster_def newPushServer_def)
  note r1 = node_next [OF node_start this]
  have "node_step both_roles 1 (?n\<lparr>srv := addStream ''a'' 1 (srv ?n)\<rparr>)
      ((?n\<lparr>srv := addStream ''a'' 1 (srv ?n)\<rparr>)\<lparr>srv := addStream ''b'' 2 (srv (?n\<lparr>srv := addStream ''a'' 1 (srv ?n)\<rparr>))\<rparr>)"
    by (rule connect) (simp_all add: both_roles_def NewCluster_def newPushServer_def addStream_def)
  from node_next [OF r1 this] show ?thesis by (simp add: NewCluster_def two_hubs_def both_roles_def)
qed

lemma two_hubs_announce: "node_reach both_roles 1 (NewCluster both_roles) (echo_state m 0)"
proof -
  let ?n = "(NewCluster both_roles)\<lparr>srv := two_hubs\<rparr>"
  have "node_step both_roles 1 ?n (?n\<lparr>chan := chan ?n @ [m], announced := announced ?n @ [m]\<rparr>)"
    by (rule announce) (simp_all add: both_roles_def NewCluster_def node_cap_def)
  from node_next [OF two_hubs_reach this] show ?thesis
    by (simp add: NewCluster_def echo_state_def two_hubs_def addStream_def newPushServer_def)
qed

lemma stream_log_echo: "stream_log 1 (srv (echo_state m n)) = replicate n m" "stream_log 2 (srv (echo_state m n)) = replicate n m"
  by (induction n) (simp_all add: stream_log_def echo_state_def)

lemma replicate_concat_snoc: "concat (replicate n xs) @ xs = concat (replicate (Suc n) xs)"
  by (induction n) simp_all

lemma echo_again:
  assumes "\<not> lm_ServerShutdown m" "node_reach both_roles 1 s0 (echo_state m n)"
  shows "node_reach both_roles 1 s0 (echo_state m (Suc n))"
proof -
  let ?e = "echo_state m n" and ?o = "[''a'', ''b'']"
  have range: "go_range (hubStreams (srv ?e)) ?o"
    by (auto simp: go_range_def echo_state_def two_hubs_def addStream_def newPushServer_def)
  have run: "run_msg ?o ?o (\<lambda>_. None) m (srv ?e) = two_hubs\<lparr>sent := concat (replicate (Suc n) [(1, m), (2, m)])\<rparr>"
    by (simp add: run_msg_def copyStreams_def pushToFollower_def echo_state_def two_hubs_def addStream_def newPushServer_def
        replicate_concat_snoc del: replicate_Suc)
  let ?s = "?e\<lparr>chan := [], srv := two_hubs\<lparr>sent := concat (replicate (Suc n) [(1, m), (2, m)])\<rparr>, pushed_out := pushed_out ?e @ [m]\<rparr>"
  have "node_step both_roles 1 ?e (?e\<lparr>chan := [], srv := run_msg ?o ?o (\<lambda>_. None) m (srv ?e), pushed_out := pushed_out ?e @ [m]\<rparr>)"
    by (rule push_loop [OF _ _ range range]) (simp_all add: both_roles_def echo_state_def)
  then have "node_step both_roles 1 ?e ?s" unfolding run .
  note r = node_next [OF assms(2) this]
  have log: "stream_log 1 (srv ?s) = replicate (Suc n) m"
    using stream_log_echo(1) [of m "Suc n"] by (simp add: echo_state_def)
  have "got ?s = n" by (simp add: echo_state_def)
  then have "got ?s < length (stream_log 1 (srv ?s)) \<and> stream_log 1 (srv ?s) ! got ?s = m"
    unfolding log by (simp del: replicate_Suc)
  then have "node_step both_roles 1 ?s (?s\<lparr>chan := chan ?s @ [m], got := Suc (got ?s), forwarded := forwarded ?s @ [m]\<rparr>)"
    by (intro client_forwards) (use assms(1) in \<open>simp_all add: both_roles_def client_recv_def node_cap_def\<close>)
  moreover have "?s\<lparr>chan := chan ?s @ [m], got := Suc (got ?s), forwarded := forwarded ?s @ [m]\<rparr> = echo_state m (Suc n)"
    by (simp add: echo_state_def replicate_append_same)
  ultimately show ?thesis using node_next [OF r] by simp
qed

text \<open>C31. A node that is leader and follower misroutes: its hub may take an announcement out of the
  channel that no other hub then ever receives, and its client feeds what the leader pushed back
  into the channel, so that a single announcement can be pushed to all hubs any number of times.\<close>

theorem both_roles_misroute:
  assumes "\<not> lm_ServerShutdown m"
  shows "(\<exists>s. node_reach both_roles 1 (NewCluster both_roles) s \<and> announced s = [m] \<and> chan s = [] \<and>
      hubStreams (srv s) ''b'' = Some 2 \<and> sent (srv s) = []) \<and>
    (\<exists>s. node_reach both_roles 1 (NewCluster both_roles) s \<and> announced s = [m] \<and> hubStreams (srv s) ''b'' = Some 2 \<and>
      stream_log 2 (srv s) = replicate n m)"
proof
  let ?e = "echo_state m 0"
  have "node_step both_roles 1 ?e (?e\<lparr>chan := [], hub_in := hub_in ?e @ [m]\<rparr>)"
    by (rule hub_run) (simp_all add: both_roles_def echo_state_def)
  from node_next [OF two_hubs_announce this]
  show "\<exists>s. node_reach both_roles 1 (NewCluster both_roles) s \<and> announced s = [m] \<and> chan s = [] \<and>
      hubStreams (srv s) ''b'' = Some 2 \<and> sent (srv s) = []"
    by (intro exI [of _ "?e\<lparr>chan := [], hub_in := hub_in ?e @ [m]\<rparr>"])
      (simp add: echo_state_def two_hubs_def addStream_def newPushServer_def)
next
  have "node_reach both_roles 1 (NewCluster both_roles) (echo_state m n)"
    by (induction n) (rule two_hubs_announce, rule echo_again [OF assms])
  then show "\<exists>s. node_reach both_roles 1 (NewCluster both_roles) s \<and> announced s = [m] \<and> hubStreams (srv s) ''b'' = Some 2 \<and>
      stream_log 2 (srv s) = replicate n m"
    using stream_log_echo(2) [of m n]
    by (intro exI [of _ "echo_state m n"]) (simp add: echo_state_def two_hubs_def addStream_def)
qed

theorem both_roles_misroute_witness:
  "\<exists>s. node_reach both_roles 1 (NewCluster both_roles) s \<and> announced s = [empty_LeaderMsg] \<and> chan s = [] \<and>
     hubStreams (srv s) ''b'' = Some 2 \<and> sent (srv s) = []"
  using both_roles_misroute [of empty_LeaderMsg] by (simp add: empty_LeaderMsg_def)

text \<open>The client forwards exactly the messages before the first one that ends it.\<close>

definition ends_client :: "stream_err + LeaderMsg \<Rightarrow> bool" where
  "ends_client r \<longleftrightarrow> client_recv r = ClientEnds \<or> client_recv r = ClientStops"

lemma client_start_exact:
  "client_start rs = (concat (map (\<lambda>r. case client_recv r of Forward m \<Rightarrow> [m] | _ \<Rightarrow> []) (takeWhile (\<lambda>r. \<not> ends_client r) rs)),
     \<exists>r \<in> set rs. ends_client r)"
  by (induction rs) (auto simp: ends_client_def split: client_next.splits)





end
