(* ===== verification/Profiler.thy ===== *)
theory Profiler
  imports Prelude
begin

text \<open>
  \<^verbatim>\<open>profile.go\<close>: profiling sessions. The state of the Go runtime that profiling touches is a
  record: the sampling rates, whether CPU profiling and tracing run, and the files held open. A profiler
  remembers for every profile it could start a closer; the closures of the source are the constructors of
  a datatype, the one for the memory profile with the rate it restores. Whether a file can be created and a trace
  can be started are arguments. What is written into the files is not modelled.

  Shown here: what a session leaves behind when it is stopped.
\<close>

record runtime =
  block_rate :: int
  mutex_fraction :: int
  mem_rate :: int
  cpu_profiling :: bool
  tracing :: bool
  open_files :: "string list"

datatype closer = CloseBlock | CloseCpu | CloseMem int | CloseMutex | CloseThreadCreate | CloseTrace

record Profiler =
  dataDir :: string
  closers :: "closer list"
  prof_stopped :: bool

definition DefaultMemProfileRate :: int where
  "DefaultMemProfileRate = 4096"

definition add_closer :: "closer \<Rightarrow> Profiler \<Rightarrow> Profiler" where
  "add_closer c p = p\<lparr>closers := closers p @ [c]\<rparr>"

definition open_file :: "string \<Rightarrow> runtime \<Rightarrow> runtime" where
  "open_file f rt = rt\<lparr>open_files := f # open_files rt\<rparr>"

definition close_file :: "string \<Rightarrow> runtime \<Rightarrow> runtime" where
  "close_file f rt = rt\<lparr>open_files := remove1 f (open_files rt)\<rparr>"

definition startBlockProfile :: "(string \<Rightarrow> bool) \<Rightarrow> Profiler \<times> runtime \<Rightarrow> Profiler \<times> runtime" where
  "startBlockProfile create st = (case st of (p, rt) \<Rightarrow>
     if \<not> create ''block'' then (p, rt)
     else (add_closer CloseBlock p, (open_file ''block'' rt)\<lparr>block_rate := 1\<rparr>))"

definition startCpuProfile :: "(string \<Rightarrow> bool) \<Rightarrow> Profiler \<times> runtime \<Rightarrow> Profiler \<times> runtime" where
  "startCpuProfile create st = (case st of (p, rt) \<Rightarrow>
     if \<not> create ''cpu'' then (p, rt)
     else (add_closer CloseCpu p, (open_file ''cpu'' rt)\<lparr>cpu_profiling := True\<rparr>))"

definition startMemProfile :: "(string \<Rightarrow> bool) \<Rightarrow> Profiler \<times> runtime \<Rightarrow> Profiler \<times> runtime" where
  "startMemProfile create st = (case st of (p, rt) \<Rightarrow>
     if \<not> create ''mem'' then (p, rt)
     else (add_closer (CloseMem (mem_rate rt)) p, (open_file ''mem'' rt)\<lparr>mem_rate := DefaultMemProfileRate\<rparr>))"

definition startMutexProfile :: "(string \<Rightarrow> bool) \<Rightarrow> Profiler \<times> runtime \<Rightarrow> Profiler \<times> runtime" where
  "startMutexProfile create st = (case st of (p, rt) \<Rightarrow>
     if \<not> create ''mutex'' then (p, rt)
     else (add_closer CloseMutex p, (open_file ''mutex'' rt)\<lparr>mutex_fraction := 1\<rparr>))"

definition startThreadCreateProfile :: "(string \<Rightarrow> bool) \<Rightarrow> Profiler \<times> runtime \<Rightarrow> Profiler \<times> runtime" where
  "startThreadCreateProfile create st = (case st of (p, rt) \<Rightarrow>
     if \<not> create ''threadcreate'' then (p, rt)
     else (add_closer CloseThreadCreate p, open_file ''threadcreate'' rt))"

text \<open>\<^verbatim>\<open>trace.Start\<close> fails, among other reasons, when a trace is already running.\<close>

definition startTraceProfile :: "(string \<Rightarrow> bool) \<Rightarrow> bool \<Rightarrow> Profiler \<times> runtime \<Rightarrow> Profiler \<times> runtime" where
  "startTraceProfile create traceOk st = (case st of (p, rt) \<Rightarrow>
     if \<not> create ''trace'' then (p, rt)
     else if \<not> traceOk then (p, open_file ''trace'' rt)
     else (add_closer CloseTrace p, (open_file ''trace'' rt)\<lparr>tracing := True\<rparr>))"

primrec run_closer :: "closer \<Rightarrow> runtime \<Rightarrow> runtime" where
  "run_closer CloseBlock rt = (close_file ''block'' rt)\<lparr>block_rate := 0\<rparr>"
| "run_closer CloseCpu rt = (close_file ''cpu'' rt)\<lparr>cpu_profiling := False\<rparr>"
| "run_closer (CloseMem old) rt = (close_file ''mem'' rt)\<lparr>mem_rate := old\<rparr>"
| "run_closer CloseMutex rt = (close_file ''mutex'' rt)\<lparr>mutex_fraction := 0\<rparr>"
| "run_closer CloseThreadCreate rt = close_file ''threadcreate'' rt"
| "run_closer CloseTrace rt = rt\<lparr>tracing := False\<rparr>"

definition prof_close :: "Profiler \<Rightarrow> runtime \<Rightarrow> runtime" where
  "prof_close p rt = fold run_closer (closers p) rt"

text \<open>\<^verbatim>\<open>Stop\<close>; the global flag \<^verbatim>\<open>started\<close>, which it resets, is never set or read anywhere.\<close>

definition prof_Stop :: "Profiler \<times> runtime \<Rightarrow> Profiler \<times> runtime" where
  "prof_Stop st = (case st of (p, rt) \<Rightarrow>
     if prof_stopped p then (p, rt) else (p\<lparr>prof_stopped := True\<rparr>, prof_close p rt))"

definition StartProfiler :: "(string \<Rightarrow> bool) \<Rightarrow> bool \<Rightarrow> string \<Rightarrow> runtime \<Rightarrow> Profiler \<times> runtime" where
  "StartProfiler create traceOk dir rt =
     startThreadCreateProfile create (startTraceProfile create traceOk (startBlockProfile create
       (startMutexProfile create (startMemProfile create (startCpuProfile create
         (\<lparr>dataDir = dir, closers = [], prof_stopped = False\<rparr>, rt))))))"

section \<open>Properties\<close>

lemmas profiler_defs = StartProfiler_def startCpuProfile_def startMemProfile_def startMutexProfile_def
  startBlockProfile_def startTraceProfile_def startThreadCreateProfile_def prof_Stop_def prof_close_def
  add_closer_def open_file_def close_file_def

definition idle :: "runtime \<Rightarrow> bool" where
  "idle rt \<longleftrightarrow> block_rate rt = 0 \<and> mutex_fraction rt = 0 \<and> \<not> cpu_profiling rt \<and> \<not> tracing rt"

definition leaked :: "(string \<Rightarrow> bool) \<Rightarrow> string list" where
  "leaked create = (if create ''trace'' then [''trace''] else [])"

lemma start_stop:
  assumes "idle rt"
  shows "snd (prof_Stop (StartProfiler create traceOk dir rt)) = rt\<lparr>open_files := leaked create @ open_files rt\<rparr>"
  using assms unfolding profiler_defs idle_def leaked_def
  by (cases "create ''cpu''"; cases "create ''mem''"; cases "create ''mutex''"; cases "create ''block''";
      cases "create ''trace''"; cases traceOk; cases "create ''threadcreate''"; cases rt) (simp_all add: close_file_def)

lemma StartProfiler_running: "\<not> prof_stopped (fst (StartProfiler create traceOk dir rt))"
  by (simp add: profiler_defs)

lemma stop_twice: "prof_Stop (prof_Stop st) = prof_Stop st"
  by (simp add: prof_Stop_def split: prod.splits)

text \<open>Whatever could be started, stopping a profiling session that began on an idle runtime restores every
  setting of the runtime and closes every file it opened, except the trace file, which stays open; stopping it
  again changes nothing.\<close>

theorem profiler_restores:
  assumes "idle rt" "StartProfiler create traceOk dir rt = st"
  shows "snd (prof_Stop st) = rt\<lparr>open_files := (if create ''trace'' then ''trace'' # open_files rt else open_files rt)\<rparr> \<and>
    prof_Stop (prof_Stop st) = prof_Stop st"
  using start_stop [OF assms(1), of create traceOk dir] stop_twice assms(2) by (auto simp: leaked_def)

theorem profiler_restores_witness:
  "snd (prof_Stop (StartProfiler (\<lambda>_. True) True ''pprof''
     \<lparr>block_rate = 0, mutex_fraction = 0, mem_rate = 524288, cpu_profiling = False, tracing = False, open_files = []\<rparr>)) =
   \<lparr>block_rate = 0, mutex_fraction = 0, mem_rate = 524288, cpu_profiling = False, tracing = False, open_files = [''trace'']\<rparr>"
  using profiler_restores [OF _ refl, of "\<lparr>block_rate = 0, mutex_fraction = 0, mem_rate = 524288, cpu_profiling = False,
    tracing = False, open_files = []\<rparr>" "\<lambda>_. True" True "''pprof''"]
  by (simp add: idle_def)

end
