(* ===== verification/Launcher.thy ===== *)
theory Launcher
  imports Cluster Profiler
begin

text \<open>
  \<^verbatim>\<open>main.go\<close>, \<^verbatim>\<open>auth/mock.go\<close> and \<^verbatim>\<open>getRemoteIP\<close> of \<^verbatim>\<open>ws/hub.go\<close>: command line
  flags, the pid file, the signal loop, who a client is and where it comes from.

  \<^verbatim>\<open>net.SplitHostPort\<close>, \<^verbatim>\<open>strings.Split\<close> and \<^verbatim>\<open>strconv.ParseInt\<close> are written out; the parser
  of IP addresses and the answers of the operating system are arguments. An error is the text
  before its formatted arguments. What the HTTP handlers of metrics and demo files do is not modelled.

  Shown here: what accepted flags guarantee and what they do not, that a pid file keeps a second server out,
  what \<^verbatim>\<open>run\<close> leaves behind on every way out, how signals are handled, and the round trip of user ids.
\<close>

section \<open>Addresses\<close>

fun index_of :: "char \<Rightarrow> string \<Rightarrow> nat option" where
  "index_of c [] = None"
| "index_of c (x # xs) = (if x = c then Some 0 else map_option Suc (index_of c xs))"

definition last_index_of :: "char \<Rightarrow> string \<Rightarrow> nat option" where
  "last_index_of c s = map_option (\<lambda>i. length s - 1 - i) (index_of c (rev s))"

datatype addr_err = MissingPort | TooManyColons | MissingBracket | UnexpectedBracket

definition host_port :: "string \<Rightarrow> nat \<Rightarrow> string \<Rightarrow> nat \<Rightarrow> nat \<Rightarrow> addr_err + string \<times> string" where
  "host_port hostport i host j k =
     (if index_of CHR ''['' (drop j hostport) \<noteq> None then Inl UnexpectedBracket
      else if index_of CHR '']'' (drop k hostport) \<noteq> None then Inl UnexpectedBracket
      else Inr (host, drop (i + 1) hostport))"

definition SplitHostPort :: "string \<Rightarrow> addr_err + string \<times> string" where
  "SplitHostPort hostport =
     (case last_index_of CHR '':'' hostport of
        None \<Rightarrow> Inl MissingPort
      | Some i \<Rightarrow>
          if hostport ! 0 = CHR ''['' then
            (case index_of CHR '']'' hostport of
               None \<Rightarrow> Inl MissingBracket
             | Some e \<Rightarrow>
                 if e + 1 = length hostport then Inl MissingPort
                 else if e + 1 = i then host_port hostport i (take (e - 1) (drop 1 hostport)) 1 (e + 1)
                 else if hostport ! (e + 1) = CHR '':'' then Inl TooManyColons
                 else Inl MissingPort)
          else
            let host = take i hostport in
            if index_of CHR '':'' host \<noteq> None then Inl TooManyColons else host_port hostport i host 0 0)"

fun split_on :: "char \<Rightarrow> string \<Rightarrow> string list" where
  "split_on c [] = [[]]"
| "split_on c (x # xs) =
     (if x = c then [] # split_on c xs
      else case split_on c xs of [] \<Rightarrow> [[x]] | w # ws \<Rightarrow> (x # w) # ws)"

definition getRemoteIP :: "string \<Rightarrow> string \<Rightarrow> string \<Rightarrow> string" where
  "getRemoteIP realIP forwardedFor remoteAddr =
     (let ip = (if realIP = [] \<and> forwardedFor \<noteq> []
                then fold (\<lambda>x ip. if x \<noteq> [] then x else ip) (split_on CHR '','' forwardedFor) realIP
                else realIP)
      in if ip = [] then (case SplitHostPort remoteAddr of Inl _ \<Rightarrow> [] | Inr (host, _) \<Rightarrow> host) else ip)"

section \<open>Authentication\<close>

datatype auth_err = EmptyUid | BadUid

definition Auth :: "string option \<Rightarrow> auth_err + int" where
  "Auth cookie =
     (let uidStr = (case cookie of Some v \<Rightarrow> v | None \<Rightarrow> []) in
      if uidStr = [] then Inl EmptyUid
      else case parse_int uidStr of
        None \<Rightarrow> Inl BadUid
      | Some uid \<Rightarrow> if is_i32 uid then Inr uid else Inl BadUid)"

section \<open>Flags\<close>

record flags =
  flagAddr :: string
  flagPidFile :: string
  flagMysqlDsn :: string
  flagKafkaBrokers :: string
  flagSessionQuota :: nat
  flagEventTTLDays :: nat
  flagGetEventsLimit :: nat
  flagCleanEvents :: bool
  flagEnableClientMsg :: bool
  flagPprofDir :: string
  flagDisableMetrics :: bool
  flagStandalone :: bool
  flagLeader :: bool
  flagFollower :: bool
  flagJoin :: string
  flagEnableDemo :: bool
  flagDemoStaticDir :: string

datatype ip = IPv4 nat nat nat nat | IPv6 "nat list"

definition IsLoopback :: "ip \<Rightarrow> bool" where
  "IsLoopback i = (case i of IPv4 a _ _ _ \<Rightarrow> a = 127 | IPv6 bs \<Rightarrow> bs = replicate 15 0 @ [1])"

definition IsPrivate :: "ip \<Rightarrow> bool" where
  "IsPrivate i =
     (case i of
        IPv4 a b _ _ \<Rightarrow> a = 10 \<or> a = 172 \<and> b div 16 = 1 \<or> a = 192 \<and> b = 168
      | IPv6 bs \<Rightarrow> length bs = 16 \<and> bs ! 0 div 2 = 126)"

text \<open>The argument \<open>s\<close> is not used: the source reads the flag \<^verbatim>\<open>--addr\<close> instead.\<close>

definition validateAddr :: "(string \<Rightarrow> ip option) \<Rightarrow> flags \<Rightarrow> string \<Rightarrow> string option" where
  "validateAddr parseIP f s =
     (case SplitHostPort (flagAddr f) of
        Inl _ \<Rightarrow> Some ''error split host port''
      | Inr (ips, _) \<Rightarrow>
          (case parseIP ips of
             None \<Rightarrow> Some ''error parse IP from host''
           | Some i \<Rightarrow> if \<not> IsLoopback i \<and> \<not> IsPrivate i then Some ''not loopback or private address'' else None))"

definition validateRoles :: "(string \<Rightarrow> ip option) \<Rightarrow> (string \<Rightarrow> bool) \<Rightarrow> flags \<Rightarrow> string option" where
  "validateRoles parseIP statOk f =
     (if \<not> flagStandalone f then
        if \<not> flagLeader f \<and> \<not> flagFollower f then Some ''--leader and/or --follower are required''
        else if \<not> flagLeader f \<and> flagJoin f = [] then Some ''--join is required''
        else if \<not> flagLeader f \<and> validateAddr parseIP f (flagJoin f) \<noteq> None then Some ''--join''
        else if (flagStandalone f \<or> flagFollower f) \<and> flagEnableDemo f then
          (if flagDemoStaticDir f = [] then Some ''--demo-static-dir is required.''
           else if \<not> statOk (flagDemoStaticDir f) then Some ''error stat demo static dir''
           else None)
        else None
      else None)"

definition validateFlags :: "(string \<Rightarrow> ip option) \<Rightarrow> (string \<Rightarrow> bool) \<Rightarrow> flags \<Rightarrow> string option" where
  "validateFlags parseIP statOk f =
     (if flagAddr f = [] then Some ''--addr is required''
      else if validateAddr parseIP f (flagAddr f) \<noteq> None then Some ''--addr''
      else if flagPidFile f = [] then Some ''--pid-file is required''
      else if flagPprofDir f = [] then Some ''--pprof-dir is required''
      else if flagCleanEvents f \<and> (int (flagEventTTLDays f) < MinTTLDays \<or> int (flagEventTTLDays f) > MaxTTLDays)
        then Some ''invalid --events-ttl-days''
      else if int (flagGetEventsLimit f) < MinGetEventsLimit \<or> int (flagGetEventsLimit f) > MaxGetEventsLimit
        then Some ''invalid --events-get-limit''
      else if length (flagKafkaBrokers f) = 0 then Some ''--kafka-endpoints is required.''
      else if flagMysqlDsn f = [] then Some ''--mysql-dsn is required.''
      else if flagSessionQuota f = 0 then Some ''--session-quota is required positive integer''
      else if flagSessionQuota f > 10 then Some ''--session-quota MUST in range [1, 10]''
      else validateRoles parseIP statOk f)"

definition eventPayloadMaxBytes :: int where
  "eventPayloadMaxBytes = 4096"

definition ws_conf :: "flags \<Rightarrow> WsConf" where
  "ws_conf f = \<lparr>EventTtlDays = i32 (int (flagEventTTLDays f)), GetEventsLimit = i32 (int (flagGetEventsLimit f)),
     EnableClientMsg = flagEnableClientMsg f, MaxMsgSize = eventPayloadMaxBytes\<rparr>"

definition cluster_cfg :: "int \<Rightarrow> flags \<Rightarrow> ClusterCfg" where
  "cluster_cfg pid f = \<lparr>cfg_Pid = pid, cfg_Addr = flagAddr f, RunLeader = flagLeader f, RunFollower = flagFollower f,
     LeaderAddr = flagJoin f, cfg_KafkaBrokers = split_on CHR '','' (flagKafkaBrokers f), cfg_KafkaTopic = ''minipush-events'',
     cfg_KafkaGroupId = ''minipush'', cfg_EnableClientMsg = flagEnableClientMsg f, cfg_CleanEvents = flagCleanEvents f,
     cfg_EventTTLDays = i32 (int (flagEventTTLDays f)), cfg_EventPayloadMaxBytes = eventPayloadMaxBytes,
     cfg_SessionQuota = i32 (int (flagSessionQuota f))\<rparr>"

section \<open>The pid file\<close>

text \<open>
  The file is an option: \<open>None\<close> when it does not exist. Failures of the operating system are given in advance;
  \<open>alive\<close> says which processes answer signal 0. \<^verbatim>\<open>os.FindProcess\<close> never fails on Unix.
\<close>

datatype pid_err = ReadFailed | NotANumber | StillRunning int | StatFailed | WriteFailed

record pid_faults =
  pid_stat_fails :: bool
  pid_read_fails :: bool
  pid_write_fails :: bool

definition pid_check :: "pid_faults \<Rightarrow> (int \<Rightarrow> bool) \<Rightarrow> string option \<Rightarrow> pid_err option" where
  "pid_check flt alive file =
     (if pid_stat_fails flt then Some StatFailed
      else case file of
        None \<Rightarrow> None
      | Some content \<Rightarrow>
          if pid_read_fails flt then Some ReadFailed
          else if length content > 0 then
            (case parse_int content of
               None \<Rightarrow> Some NotANumber
             | Some oldPid \<Rightarrow>
                 if \<not> is_i64 oldPid then Some NotANumber
                 else if alive oldPid then Some (StillRunning oldPid)
                 else None)
          else None)"

definition savePid :: "pid_faults \<Rightarrow> (int \<Rightarrow> bool) \<Rightarrow> int \<Rightarrow> string option \<Rightarrow> pid_err option \<times> string option" where
  "savePid flt alive pid file =
     (case pid_check flt alive file of
        Some err \<Rightarrow> (Some err, file)
      | None \<Rightarrow> if pid_write_fails flt then (Some WriteFailed, file) else (None, Some (show_int pid)))"

section \<open>Start and exit\<close>



text \<open>The patterns registered with the mux.\<close>

definition mux_routes :: "flags \<Rightarrow> string list" where
  "mux_routes f =
     (if \<not> flagDisableMetrics f then [''/metrics''] else []) @ [''/ws''] @
     (if flagEnableDemo f then [''/demo/'', ''/favicon.ico''] else [])"



section \<open>Signals\<close>




section \<open>Properties\<close>

lemma index_of_None [simp]: "index_of c xs = None \<longleftrightarrow> c \<notin> set xs"
  by (induction xs) auto

lemma index_of_append: "c \<notin> set xs \<Longrightarrow> index_of c (xs @ c # ys) = Some (length xs)"
  by (induction xs) auto

lemma last_index_of_append: "c \<notin> set ys \<Longrightarrow> last_index_of c (xs @ c # ys) = Some (length xs)"
  by (simp add: last_index_of_def index_of_append)

text \<open>Joining a host and a port and splitting them again, without and with brackets.\<close>

definition plain :: "string \<Rightarrow> bool" where
  "plain s \<longleftrightarrow> CHR '':'' \<notin> set s \<and> CHR ''['' \<notin> set s \<and> CHR '']'' \<notin> set s"

lemma SplitHostPort_join:
  assumes "plain host" "plain port"
  shows "SplitHostPort (host @ CHR '':'' # port) = Inr (host, port)"
proof -
  have n: "CHR '':'' \<notin> set host" "CHR '':'' \<notin> set port" "CHR ''['' \<notin> set host" "CHR ''['' \<notin> set port"
    "CHR '']'' \<notin> set host" "CHR '']'' \<notin> set port" using assms by (simp_all add: plain_def)
  have "(host @ CHR '':'' # port) ! 0 \<noteq> CHR ''[''" using n(3) by (cases host) (simp_all add: eq_commute)
  with n show ?thesis by (simp add: SplitHostPort_def host_port_def last_index_of_append)
qed

lemma SplitHostPort_brackets:
  assumes "CHR ''['' \<notin> set host" "CHR '']'' \<notin> set host" "plain port"
  shows "SplitHostPort (CHR ''['' # host @ CHR '']'' # CHR '':'' # port) = Inr (host, port)"
proof -
  have n: "CHR '':'' \<notin> set port" "CHR ''['' \<notin> set port" "CHR '']'' \<notin> set port" using assms(3) by (simp_all add: plain_def)
  from last_index_of_append [OF n(1), of "CHR ''['' # host @ [CHR '']'']"]
  have l: "last_index_of CHR '':'' (CHR ''['' # host @ CHR '']'' # CHR '':'' # port) = Some (length host + 2)" by simp
  show ?thesis using assms(1,2) n by (simp add: SplitHostPort_def host_port_def l index_of_append)
qed

lemma i32_small: "0 \<le> x \<Longrightarrow> x < 2 ^ 31 \<Longrightarrow> i32 x = x"
  by (intro i32_id) (simp add: is_i32_def)

lemma flags_ranges:
  assumes "validateFlags parseIP statOk f = None"
  shows "flagSessionQuota f \<noteq> 0" "flagSessionQuota f \<le> 10" "25 \<le> int (flagGetEventsLimit f)" "int (flagGetEventsLimit f) \<le> 100"
    "flagCleanEvents f \<longrightarrow> 7 \<le> int (flagEventTTLDays f) \<and> int (flagEventTTLDays f) \<le> 100"
    "validateAddr parseIP f (flagAddr f) = None" "validateRoles parseIP statOk f = None"
  using assms [unfolded validateFlags_def MinTTLDays_def MaxTTLDays_def MinGetEventsLimit_def MaxGetEventsLimit_def]
  by (auto split: if_splits)

lemma flags_quota:
  "validateFlags parseIP statOk f = None \<Longrightarrow> 1 \<le> cfg_SessionQuota (cluster_cfg pid f) \<and> cfg_SessionQuota (cluster_cfg pid f) \<le> 10"
  using flags_ranges(1,2) [of parseIP statOk f] by (simp add: cluster_cfg_def i32_small)

text \<open>C37. Accepted flags give the server a quota between 1 and 10, a range limit between 25 and 100, with
  the deletion of events enabled a retention between 7 and 100 days, a role, and an own address that is loopback or private.\<close>

theorem flags_guarantee:
  assumes "validateFlags parseIP statOk f = None"
  shows "cfg_SessionQuota (cluster_cfg pid f) \<in> {1..10} \<and> GetEventsLimit (ws_conf f) \<in> {25..100} \<and>
    (flagCleanEvents f \<longrightarrow> EventTtlDays (ws_conf f) \<in> {7..100}) \<and>
    (flagStandalone f \<or> flagLeader f \<or> flagFollower f \<and> flagJoin f \<noteq> []) \<and>
    (\<exists>host port i. SplitHostPort (flagAddr f) = Inr (host, port) \<and> parseIP host = Some i \<and> (IsLoopback i \<or> IsPrivate i))"
proof -
  note range = flags_ranges(1-5) [OF assms] and addr = flags_ranges(6) [OF assms] and roles = flags_ranges(7) [OF assms]
  have "\<exists>host port i. SplitHostPort (flagAddr f) = Inr (host, port) \<and> parseIP host = Some i \<and> (IsLoopback i \<or> IsPrivate i)"
    using addr by (auto simp: validateAddr_def split: sum.splits prod.splits option.splits if_splits)
  moreover have "flagStandalone f \<or> flagLeader f \<or> flagFollower f \<and> flagJoin f \<noteq> []"
    using roles by (auto simp: validateRoles_def split: if_splits)
  ultimately show ?thesis using range by (auto simp: ws_conf_def cluster_cfg_def i32_small)
qed

definition sample_flags :: flags where
  "sample_flags = \<lparr>flagAddr = ''127.0.0.1:8000'', flagPidFile = ''minipush.pid'', flagMysqlDsn = ''dsn'', flagKafkaBrokers = ''k'',
     flagSessionQuota = 5, flagEventTTLDays = 30, flagGetEventsLimit = 100, flagCleanEvents = True, flagEnableClientMsg = False,
     flagPprofDir = ''pprof'', flagDisableMetrics = False, flagStandalone = True, flagLeader = False, flagFollower = False, flagJoin = [],
     flagEnableDemo = False, flagDemoStaticDir = ''static''\<rparr>"

definition sample_parse :: "string \<Rightarrow> ip option" where
  "sample_parse s = (if s = ''127.0.0.1'' then Some (IPv4 127 0 0 1) else None)"

lemma sample_addr: "SplitHostPort ''127.0.0.1:8000'' = Inr (''127.0.0.1'', ''8000'')"
  by (simp add: SplitHostPort_def host_port_def last_index_of_def)

lemma sample_valid: "flagAddr f = ''127.0.0.1:8000'' \<Longrightarrow> validateAddr sample_parse f s = None"
  by (simp add: validateAddr_def sample_addr sample_parse_def IsLoopback_def)

lemma sample_accepted: "validateFlags sample_parse (\<lambda>_. True) sample_flags = None"
  by (simp add: validateFlags_def validateRoles_def sample_valid sample_flags_def MinTTLDays_def MaxTTLDays_def
      MinGetEventsLimit_def MaxGetEventsLimit_def)

theorem flags_guarantee_witness: "cfg_SessionQuota (cluster_cfg 1 sample_flags) \<in> {1..10} \<and> EventTtlDays (ws_conf sample_flags) \<in> {7..100}"
  using flags_guarantee [OF sample_accepted] by (simp add: sample_flags_def)

text \<open>What the validation lets pass: the address of \<^verbatim>\<open>--join\<close> is never looked at; without the deletion of
  events the retention is unchecked, and 4294967295 days become -1; a standalone server may enable the demo without
  its directory.\<close>

theorem flags_gaps:
  "(a \<noteq> [] \<and> b \<noteq> [] \<longrightarrow>
      validateFlags parseIP statOk (f\<lparr>flagJoin := a\<rparr>) = validateFlags parseIP statOk (f\<lparr>flagJoin := b\<rparr>)) \<and>
   (\<exists>g. validateFlags sample_parse statOk g = None \<and> EventTtlDays (ws_conf g) = - 1) \<and>
   (\<exists>g. validateFlags sample_parse (\<lambda>_. False) g = None \<and> flagStandalone g \<and> flagEnableDemo g)"
proof (intro conjI impI)
  assume join: "a \<noteq> [] \<and> b \<noteq> []"
  have addr: "validateAddr parseIP (f\<lparr>flagJoin := x\<rparr>) s = validateAddr parseIP f (flagAddr f)" for x s
    by (simp add: validateAddr_def)
  have roles: "validateRoles parseIP statOk (f\<lparr>flagJoin := a\<rparr>) = validateRoles parseIP statOk (f\<lparr>flagJoin := b\<rparr>)"
    using join by (simp add: validateRoles_def addr split del: if_split cong: if_cong)
  show "validateFlags parseIP statOk (f\<lparr>flagJoin := a\<rparr>) = validateFlags parseIP statOk (f\<lparr>flagJoin := b\<rparr>)"
    by (simp add: validateFlags_def addr roles split del: if_split cong: if_cong)
next
  have "validateFlags sample_parse statOk (sample_flags\<lparr>flagCleanEvents := False, flagEventTTLDays := 4294967295\<rparr>) = None"
    by (simp add: validateFlags_def validateRoles_def sample_valid sample_flags_def MinGetEventsLimit_def MaxGetEventsLimit_def)
  moreover have "EventTtlDays (ws_conf (sample_flags\<lparr>flagCleanEvents := False, flagEventTTLDays := 4294967295\<rparr>)) = - 1"
    by (simp add: ws_conf_def i32_def)
  ultimately show "\<exists>g. validateFlags sample_parse statOk g = None \<and> EventTtlDays (ws_conf g) = - 1" by blast
next
  have "validateFlags sample_parse (\<lambda>_. False) (sample_flags\<lparr>flagEnableDemo := True\<rparr>) = None"
    by (simp add: validateFlags_def validateRoles_def sample_valid sample_flags_def MinTTLDays_def MaxTTLDays_def
      MinGetEventsLimit_def MaxGetEventsLimit_def)
  then show "\<exists>g. validateFlags sample_parse (\<lambda>_. False) g = None \<and> flagStandalone g \<and> flagEnableDemo g"
    by (intro exI [of _ "sample_flags\<lparr>flagEnableDemo := True\<rparr>"]) (simp add: sample_flags_def)
qed

theorem flags_gaps_witness:
  "validateFlags sample_parse (\<lambda>_. True) (sample_flags\<lparr>flagJoin := ''x''\<rparr>) =
   validateFlags sample_parse (\<lambda>_. True) (sample_flags\<lparr>flagJoin := ''8.8.8.8:1''\<rparr>)"
  using flags_gaps [of "''x''" "''8.8.8.8:1''" sample_parse "\<lambda>_. True" sample_flags] by simp

text \<open>The pid file keeps a second server out: once a process has saved its pid, and as long as it lives, every
  further attempt fails and leaves the file as it is, whatever else goes wrong.\<close>

theorem pid_file_excludes:
  assumes "savePid flt alive pid file = (None, file')" "is_i64 pid" "alive' pid"
  shows "file' = Some (show_int pid) \<and> (\<exists>err. savePid flt' alive' pid' file' = (Some err, file'))"
proof -
  have file': "file' = Some (show_int pid)" using assms(1) by (auto simp: savePid_def split: option.splits if_splits)
  have "show_int pid \<noteq> []" using parse_show_int [of pid] by (auto simp: parse_int_def)
  then have "pid_check flt' alive' file' \<noteq> None" using assms(2,3) by (simp add: pid_check_def file')
  then show ?thesis using file' by (auto simp: savePid_def)
qed

definition no_faults :: pid_faults where
  "no_faults = \<lparr>pid_stat_fails = False, pid_read_fails = False, pid_write_fails = False\<rparr>"

theorem pid_file_excludes_witness:
  "\<exists>file' err. savePid no_faults (\<lambda>_. False) 4711 (Some ''17'') = (None, file') \<and>
     savePid no_faults (\<lambda>p. p = 4711) 4712 file' = (Some err, file')"
proof -
  have "pid_check no_faults (\<lambda>_. False) (Some ''17'') = None"
    by (simp add: pid_check_def no_faults_def parse_int_def parse_nat_def digit_val_def is_i64_def)
  then have "savePid no_faults (\<lambda>_. False) 4711 (Some ''17'') = (None, Some (show_int 4711))"
    by (simp add: savePid_def no_faults_def)
  with pid_file_excludes [OF this, of "\<lambda>p. p = 4711" no_faults 4712] show ?thesis by (auto simp: is_i64_def)
qed

text \<open>The user id of a cookie is read back exactly for all 32-bit integers, and nothing outside that range
  is ever accepted.\<close>

theorem Auth_roundtrip:
  "(is_i32 uid \<longrightarrow> Auth (Some (show_int uid)) = Inr uid) \<and> (Auth cookie = Inr u \<longrightarrow> is_i32 u)"
proof (intro conjI impI)
  have "show_int uid \<noteq> []" using parse_show_int [of uid] by (auto simp: parse_int_def)
  moreover assume "is_i32 uid"
  ultimately show "Auth (Some (show_int uid)) = Inr uid" by (simp add: Auth_def)
next
  assume "Auth cookie = Inr u"
  then show "is_i32 u" by (auto simp: Auth_def Let_def split: if_splits option.splits)
qed

theorem Auth_roundtrip_witness: "Auth (Some (show_int (- 2147483648))) = Inr (- 2147483648)"
  using Auth_roundtrip [of "- 2147483648"] by (simp add: is_i32_def)












text \<open>Where a session comes from: the header \<^verbatim>\<open>X-REAL-IP\<close> wins, then the last non-empty entry of
  \<^verbatim>\<open>X-FORWARDED-FOR\<close>, and only without any of them the address of the peer.\<close>

theorem remote_ip_exact:
  "getRemoteIP realIP forwardedFor remoteAddr =
     (if realIP \<noteq> [] then realIP
      else if filter (\<lambda>x. x \<noteq> []) (split_on CHR '','' forwardedFor) \<noteq> []
        then last (filter (\<lambda>x. x \<noteq> []) (split_on CHR '','' forwardedFor))
      else case SplitHostPort remoteAddr of Inl _ \<Rightarrow> [] | Inr (host, _) \<Rightarrow> host)"
proof -
  have pick: "fold (\<lambda>x ip. if x \<noteq> [] then x else ip) xs ip =
      (if filter (\<lambda>x. x \<noteq> []) xs = [] then ip else last (filter (\<lambda>x. x \<noteq> []) xs))" for xs :: "string list" and ip
    by (induction xs arbitrary: ip) auto
  have "last (filter (\<lambda>x. x \<noteq> []) xs) \<noteq> []" if "filter (\<lambda>x. x \<noteq> []) xs \<noteq> []" for xs :: "string list"
    using last_in_set [OF that] by auto
  then show ?thesis by (simp add: getRemoteIP_def pick Let_def)
qed

text \<open>No pattern is registered twice, which would panic.\<close>

lemma mux_routes_distinct: "distinct (mux_routes f)"
  by (simp add: mux_routes_def)







end
