(* ===== verification/Goroutines.thy ===== *)
theory Goroutines
  imports Prelude
begin

text \<open>
  Goroutines and how they wait for each other, as far as the Go language defines it: channels with and
  without a buffer, mutexes, wait groups, the cancellation of a context, and \<^verbatim>\<open>go\<close> statements.

  A goroutine is a control flow graph over program counters. The alternatives at a counter are the cases of a
  \<^verbatim>\<open>select\<close>, the branches of a condition the graph does not look at, or a single statement; a counter
  without alternatives is the end. What is sent, and the closing of channels, are left out. A program is a list of graphs; the state of
  the 'n system holds a counter for each goroutine that was started.

  Shown here: a set of goroutines that wait for each other in a circle waits for ever, whatever
  the other goroutines do; where a goroutine can get to; what a wait group stands at. Schedules are executable.
\<close>

section \<open>Programs\<close>

datatype 'n action =
    Tau
  | Send 'n
  | Recv 'n
  | Go nat
  | WaitCtx 'n
  | Cancel 'n
  | WgAdd 'n
  | WgDone 'n
  | WgWait 'n
  | Lock 'n
  | Unlock 'n

type_synonym 'n graph = "('n action \<times> nat) list list"

definition mentions :: "'n graph \<Rightarrow> 'n action \<Rightarrow> bool" where
  "mentions c a \<longleftrightarrow> a \<in> fst ` set (concat c)"

section \<open>Steps\<close>

record 'n system =
  pcs :: "nat option list"
  bufs :: "'n \<Rightarrow> nat"
  groups :: "'n \<Rightarrow> nat"
  holder :: "'n \<Rightarrow> nat option"
  is_cancelled :: "'n \<Rightarrow> bool"

definition boot :: "nat \<Rightarrow> nat list \<Rightarrow> 'n system" where
  "boot n running = \<lparr>pcs = map (\<lambda>i. if i \<in> set running then Some 0 else None) [0 ..< n],
     bufs = (\<lambda>_. 0), groups = (\<lambda>_. 0), holder = (\<lambda>_. None), is_cancelled = (\<lambda>_. False)\<rparr>"

text \<open>
  An action of goroutine \<open>i\<close> alone; \<open>None\<close> if it has to wait. \<open>cap\<close> gives the room of each channel. A mutex is
  released by the goroutine that holds it. A graph of the list is started at most once. A wait group that falls below zero
  would panic; \<open>account_reach\<close> below excludes that for programs that keep books.
\<close>

definition perform :: "('n \<Rightarrow> nat) \<Rightarrow> nat \<Rightarrow> 'n action \<Rightarrow> 'n system \<Rightarrow> 'n system option" where
  "perform cap i a s =
     (case a of
        Tau \<Rightarrow> Some s
      | Send c \<Rightarrow> if bufs s c < cap c then Some (s\<lparr>bufs := (bufs s)(c := bufs s c + 1)\<rparr>) else None
      | Recv c \<Rightarrow> if 0 < bufs s c then Some (s\<lparr>bufs := (bufs s)(c := bufs s c - 1)\<rparr>) else None
      | Go j \<Rightarrow> if j < length (pcs s) \<and> pcs s ! j = None then Some (s\<lparr>pcs := (pcs s)[j := Some 0]\<rparr>) else None
      | WaitCtx c \<Rightarrow> if is_cancelled s c then Some s else None
      | Cancel c \<Rightarrow> Some (s\<lparr>is_cancelled := (is_cancelled s)(c := True)\<rparr>)
      | WgAdd g \<Rightarrow> Some (s\<lparr>groups := (groups s)(g := groups s g + 1)\<rparr>)
      | WgDone g \<Rightarrow> if 0 < groups s g then Some (s\<lparr>groups := (groups s)(g := groups s g - 1)\<rparr>) else None
      | WgWait g \<Rightarrow> if groups s g = 0 then Some s else None
      | Lock l \<Rightarrow> if holder s l = None then Some (s\<lparr>holder := (holder s)(l \<mapsto> i)\<rparr>) else None
      | Unlock l \<Rightarrow> if holder s l = Some i then Some (s\<lparr>holder := (holder s)(l := None)\<rparr>) else None)"

definition at :: "'n graph list \<Rightarrow> 'n system \<Rightarrow> nat \<Rightarrow> ('n action \<times> nat) list" where
  "at P s i = (if i < length P \<and> i < length (pcs s) then
       (case pcs s ! i of None \<Rightarrow> [] | Some p \<Rightarrow> if p < length (P ! i) then P ! i ! p else []) else [])"

definition jump :: "nat \<Rightarrow> nat \<Rightarrow> 'n system \<Rightarrow> 'n system" where
  "jump i q s = s\<lparr>pcs := (pcs s)[i := Some q]\<rparr>"

inductive go_step :: "'n graph list \<Rightarrow> ('n \<Rightarrow> nat) \<Rightarrow> 'n system \<Rightarrow> 'n system \<Rightarrow> bool" for P cap where
  alone: "(a, q) \<in> set (at P s i) \<Longrightarrow> perform cap i a s = Some s' \<Longrightarrow> go_step P cap s (jump i q s')"
| meet: "cap c = 0 \<Longrightarrow> i \<noteq> j \<Longrightarrow> (Send c, q) \<in> set (at P s i) \<Longrightarrow> (Recv c, q') \<in> set (at P s j) \<Longrightarrow>
    go_step P cap s (jump j q' (jump i q s))"

abbreviation go_reach :: "'n graph list \<Rightarrow> ('n \<Rightarrow> nat) \<Rightarrow> 'n system \<Rightarrow> 'n system \<Rightarrow> bool" where
  "go_reach P cap \<equiv> (go_step P cap)\<^sup>*\<^sup>*"

lemma jump_sel [simp]:
  "bufs (jump i q s) = bufs s" "groups (jump i q s) = groups s" "holder (jump i q s) = holder s"
  "is_cancelled (jump i q s) = is_cancelled s" "length (pcs (jump i q s)) = length (pcs s)"
  "pcs (jump i q s) = (pcs s)[i := Some q]"
  by (simp_all add: jump_def)

lemma at_pc:
  assumes "(a, q) \<in> set (at P s i)"
  obtains p where "i < length P" "i < length (pcs s)" "pcs s ! i = Some p" "p < length (P ! i)" "(a, q) \<in> set (P ! i ! p)"
proof (cases "i < length P \<and> i < length (pcs s)")
  case True
  then show ?thesis using assms that
    by (cases "pcs s ! i"; cases "the (pcs s ! i) < length (P ! i)") (simp_all add: at_def)
next
  case False
  then have "at P s i = []" unfolding at_def by (rule if_not_P)
  then show ?thesis using assms by simp
qed

lemma at_mentions: "(a, q) \<in> set (at P s i) \<Longrightarrow> i < length P \<and> mentions (P ! i) a"
  by (erule at_pc) (force simp: mentions_def in_set_conv_nth)

lemma perform_pcs:
  "perform cap k a s = Some s' \<Longrightarrow> length (pcs s') = length (pcs s) \<and> (pcs s ! j \<noteq> None \<or> a \<noteq> Go j \<longrightarrow> pcs s' ! j = pcs s ! j)"
  by (auto simp: perform_def nth_list_update split: action.splits if_splits)

lemma perform_holder: "perform cap k a s = Some s' \<Longrightarrow> holder s l = Some j \<Longrightarrow> j \<noteq> k \<Longrightarrow> holder s' l = Some j"
  by (auto simp: perform_def split: action.splits if_splits)

lemma perform_groups: "perform cap k a s = Some s' \<Longrightarrow> 0 < groups s g \<Longrightarrow> a \<noteq> WgDone g \<Longrightarrow> 0 < groups s' g"
  by (auto simp: perform_def split: action.splits if_splits)

lemma perform_bufs:
  "perform cap k a s = Some s' \<Longrightarrow> cap c \<le> bufs s c \<Longrightarrow> a \<noteq> Recv c \<Longrightarrow> cap c \<le> bufs s' c"
  "perform cap k a s = Some s' \<Longrightarrow> bufs s c = 0 \<Longrightarrow> a \<noteq> Send c \<Longrightarrow> bufs s' c = 0"
  by (auto simp: perform_def split: action.splits if_splits)

section \<open>Runs of a given schedule\<close>

text \<open>A schedule names the goroutine that acts next, or the two that meet, and the alternatives they take.\<close>

datatype move = Do nat nat | Meet nat nat nat nat

definition pick :: "'n graph list \<Rightarrow> 'n system \<Rightarrow> nat \<Rightarrow> nat \<Rightarrow> ('n action \<times> nat) option" where
  "pick P s i n = (if n < length (at P s i) then Some (at P s i ! n) else None)"

fun play1 :: "'n graph list \<Rightarrow> ('n \<Rightarrow> nat) \<Rightarrow> move \<Rightarrow> 'n system \<Rightarrow> 'n system option" where
  "play1 P cap (Do i n) s =
     (case pick P s i n of None \<Rightarrow> None | Some (a, q) \<Rightarrow> map_option (jump i q) (perform cap i a s))"
| "play1 P cap (Meet i n j m) s =
     (case (pick P s i n, pick P s j m) of
        (Some (Send c, q), Some (Recv d, q')) \<Rightarrow>
          if c = d \<and> cap c = 0 \<and> i \<noteq> j then Some (jump j q' (jump i q s)) else None
      | _ \<Rightarrow> None)"

fun play :: "'n graph list \<Rightarrow> ('n \<Rightarrow> nat) \<Rightarrow> move list \<Rightarrow> 'n system \<Rightarrow> 'n system option" where
  "play P cap [] s = Some s"
| "play P cap (m # ms) s = (case play1 P cap m s of None \<Rightarrow> None | Some s' \<Rightarrow> play P cap ms s')"

lemma pick_at: "pick P s i n = Some x \<Longrightarrow> x \<in> set (at P s i)"
  by (auto simp: pick_def split: if_splits)

lemma play1_step: "play1 P cap m s = Some s' \<Longrightarrow> go_step P cap s s'"
  by (cases m) (auto split: option.splits action.splits if_splits dest!: pick_at intro: go_step.alone, metis go_step.meet)

lemma play_reach: "play P cap ms s = Some s' \<Longrightarrow> go_reach P cap s s'"
  by (induction ms arbitrary: s) (auto split: option.splits dest!: play1_step intro: converse_rtranclp_into_rtranclp)

section \<open>Circles of waiting goroutines\<close>

text \<open>
  A goroutine of \<open>B\<close> waits for \<open>B\<close> at an action if only goroutines of \<open>B\<close> could let it go on, and none of them is
  about to.
\<close>

definition waits :: "'n graph list \<Rightarrow> ('n \<Rightarrow> nat) \<Rightarrow> 'n system \<Rightarrow> nat set \<Rightarrow> 'n action \<Rightarrow> bool" where
  "waits P cap s B a =
     (case a of
        Send c \<Rightarrow> cap c \<le> bufs s c \<and> (\<forall>j < length P. mentions (P ! j) (Recv c) \<longrightarrow> j \<in> B) \<and>
          (\<forall>j \<in> B. Recv c \<notin> fst ` set (at P s j))
      | Recv c \<Rightarrow> bufs s c = 0 \<and> (\<forall>j < length P. mentions (P ! j) (Send c) \<longrightarrow> j \<in> B) \<and>
          (\<forall>j \<in> B. Send c \<notin> fst ` set (at P s j))
      | WgWait g \<Rightarrow> 0 < groups s g \<and> (\<forall>j < length P. mentions (P ! j) (WgDone g) \<longrightarrow> j \<in> B)
      | Lock l \<Rightarrow> (\<exists>j \<in> B. holder s l = Some j)
      | _ \<Rightarrow> False)"

text \<open>A goroutine that has ended, or that only the circle could start, may belong to it.\<close>

definition circle :: "'n graph list \<Rightarrow> ('n \<Rightarrow> nat) \<Rightarrow> nat set \<Rightarrow> 'n system \<Rightarrow> bool" where
  "circle P cap B s \<longleftrightarrow>
     (\<forall>i \<in> B. (pcs s ! i = None \<longrightarrow> (\<forall>j < length P. mentions (P ! j) (Go i) \<longrightarrow> j \<in> B)) \<and>
        (\<forall>(a, q) \<in> set (at P s i). waits P cap s B a))"

lemma circle_waits: "circle P cap B s \<Longrightarrow> i \<in> B \<Longrightarrow> (a, q) \<in> set (at P s i) \<Longrightarrow> waits P cap s B a"
  unfolding circle_def by fast

lemma circle_alone:
  assumes "circle P cap B s" "(a, q) \<in> set (at P s k)" "perform cap k a s = Some s'"
  shows "k \<notin> B"
  using circle_waits [OF assms(1) _ assms(2)] assms(3) by (cases a) (auto simp: waits_def perform_def)

lemma circle_meet:
  assumes "circle P cap B s" "(Send c, q) \<in> set (at P s i)" "(Recv c, q') \<in> set (at P s j)"
  shows "i \<notin> B \<and> j \<notin> B"
proof -
  have r: "Recv c \<in> fst ` set (at P s j)" "Send c \<in> fst ` set (at P s i)" using assms(2,3) by force+
  have m: "i < length P" "mentions (P ! i) (Send c)" "j < length P" "mentions (P ! j) (Recv c)"
    using assms(2,3) by (auto dest: at_mentions)
  have "\<not> waits P cap s B (Send c)" if "i \<in> B" using r m unfolding waits_def action.case by blast
  moreover have "\<not> waits P cap s B (Recv c)" if "j \<in> B" using r m unfolding waits_def action.case by blast
  ultimately show ?thesis using circle_waits [OF assms(1) _ assms(2)] circle_waits [OF assms(1) _ assms(3)] by blast
qed

text \<open>What the circle rests on is out of the reach of the others.\<close>

lemma circle_frame:
  assumes c: "circle P cap B s" and pcs: "length (pcs s') = length (pcs s)" "\<And>j. j \<in> B \<Longrightarrow> pcs s' ! j = pcs s ! j"
    and holder: "\<And>l j. j \<in> B \<Longrightarrow> holder s l = Some j \<Longrightarrow> holder s' l = Some j"
    and groups: "\<And>g. 0 < groups s g \<Longrightarrow> \<forall>j < length P. mentions (P ! j) (WgDone g) \<longrightarrow> j \<in> B \<Longrightarrow> 0 < groups s' g"
    and full: "\<And>c. cap c \<le> bufs s c \<Longrightarrow> \<forall>j < length P. mentions (P ! j) (Recv c) \<longrightarrow> j \<in> B \<Longrightarrow> cap c \<le> bufs s' c"
    and empty: "\<And>c. bufs s c = 0 \<Longrightarrow> \<forall>j < length P. mentions (P ! j) (Send c) \<longrightarrow> j \<in> B \<Longrightarrow> bufs s' c = 0"
  shows "circle P cap B s'"
proof -
  have at: "at P s' j = at P s j" if "j \<in> B" for j using pcs(2) [OF that] pcs(1) by (simp add: at_def)
  have w: "waits P cap s' B a" if "waits P cap s B a" for a
    using that at holder groups full empty by (cases a) (auto simp: waits_def)
  show ?thesis unfolding circle_def
  proof (intro ballI conjI)
    fix i assume i: "i \<in> B"
    show "pcs s' ! i = None \<longrightarrow> (\<forall>j < length P. mentions (P ! j) (Go i) \<longrightarrow> j \<in> B)"
      using c i pcs(2) [OF i] unfolding circle_def by simp
    show "case x of (a, q) \<Rightarrow> waits P cap s' B a" if "x \<in> set (at P s' i)" for x
    proof (cases x)
      case (Pair a q)
      then have "(a, q) \<in> set (at P s i)" using that at [OF i] by simp
      then show ?thesis using w circle_waits [OF c i] Pair by simp
    qed
  qed
qed

lemma circle_pcs:
  assumes "circle P cap B s" "(a, q) \<in> set (at P s k)" "perform cap k a s = Some s'" "j \<in> B"
  shows "pcs (jump k q s') ! j = pcs s ! j"
proof -
  have k: "k \<notin> B" using circle_alone assms by blast
  have m: "k < length P \<and> mentions (P ! k) a" using at_mentions assms(2) by blast
  have "pcs s ! j \<noteq> None \<or> a \<noteq> Go j" using assms(1,4) k m unfolding circle_def by blast
  moreover have "k \<noteq> j" using k assms(4) by blast
  ultimately show ?thesis using perform_pcs [OF assms(3), of j] by simp
qed

lemma circle_step:
  assumes "go_step P cap s s'" "circle P cap B s"
  shows "circle P cap B s' \<and> (\<forall>i \<in> B. pcs s' ! i = pcs s ! i)"
  using assms
proof (induction rule: go_step.induct)
  case (alone a q s k s')
  have k: "k \<notin> B" using circle_alone alone by blast
  have m: "k < length P" "mentions (P ! k) a" using at_mentions alone.hyps(1) by blast+
  have pcs: "pcs (jump k q s') ! j = pcs s ! j" if "j \<in> B" for j using circle_pcs alone that by blast
  have "circle P cap B (jump k q s')"
  proof (rule circle_frame [OF alone.prems])
    show "length (pcs (jump k q s')) = length (pcs s)" using perform_pcs [OF alone.hyps(2)] by simp
    show "pcs (jump k q s') ! j = pcs s ! j" if "j \<in> B" for j using pcs that .
    show "holder (jump k q s') l = Some j" if "j \<in> B" "holder s l = Some j" for l j
      using perform_holder [OF alone.hyps(2) that(2)] that k by auto
    show "0 < groups (jump k q s') g" if "0 < groups s g" "\<forall>j < length P. mentions (P ! j) (WgDone g) \<longrightarrow> j \<in> B" for g
      using perform_groups [OF alone.hyps(2) that(1)] that(2) m k unfolding jump_sel by blast
    show "cap c \<le> bufs (jump k q s') c" if "cap c \<le> bufs s c" "\<forall>j < length P. mentions (P ! j) (Recv c) \<longrightarrow> j \<in> B" for c
      using perform_bufs(1) [OF alone.hyps(2) that(1)] that(2) m k unfolding jump_sel by blast
    show "bufs (jump k q s') c = 0" if "bufs s c = 0" "\<forall>j < length P. mentions (P ! j) (Send c) \<longrightarrow> j \<in> B" for c
      using perform_bufs(2) [OF alone.hyps(2) that(1)] that(2) m k unfolding jump_sel by blast
  qed
  then show ?case using pcs by blast
next
  case (meet c i j q s q')
  have "i \<notin> B" "j \<notin> B" using circle_meet [OF meet.prems meet.hyps(3,4)] by simp_all
  then have pcs: "pcs (jump j q' (jump i q s)) ! k = pcs s ! k" if "k \<in> B" for k
    using that by (metis jump_sel(6) nth_list_update_neq)
  have "circle P cap B (jump j q' (jump i q s))" by (rule circle_frame [OF meet.prems _ pcs]) (simp_all only: jump_sel length_list_update)
  then show ?case using pcs by blast
qed

text \<open>Whatever happens, the goroutines of a circle stay where they are.\<close>

lemma circle_forever:
  assumes "go_reach P cap s s'" "circle P cap B s"
  shows "circle P cap B s' \<and> (\<forall>i \<in> B. pcs s' ! i = pcs s ! i)"
  using assms
proof (induction rule: rtranclp_induct)
  case (step t u)
  then show ?case using circle_step [of P cap t u B] by auto
qed simp

text \<open>A schedule that ends in a circle, with the counters \<open>ps\<close>.\<close>

definition stuck_at :: "'n graph list \<Rightarrow> ('n \<Rightarrow> nat) \<Rightarrow> nat set \<Rightarrow> nat option list \<Rightarrow> 'n system option \<Rightarrow> bool" where
  "stuck_at P cap B ps r \<longleftrightarrow> (case r of None \<Rightarrow> False | Some s \<Rightarrow> pcs s = ps \<and> circle P cap B s)"

lemma stuck_at_forever:
  assumes "stuck_at P cap B ps (play P cap ms s0)"
  shows "\<exists>s. go_reach P cap s0 s \<and> pcs s = ps \<and> (\<nexists>t i. go_reach P cap s t \<and> i \<in> B \<and> pcs t ! i \<noteq> ps ! i)"
proof -
  obtain s where s: "play P cap ms s0 = Some s" "pcs s = ps" "circle P cap B s"
    using assms by (auto simp: stuck_at_def split: option.splits)
  then have "\<nexists>t i. go_reach P cap s t \<and> i \<in> B \<and> pcs t ! i \<noteq> ps ! i" using circle_forever by blast
  then show ?thesis using play_reach [OF s(1)] s(2) by blast
qed

section \<open>Where a goroutine can get to\<close>

text \<open>How a step can move a goroutine: it is started, acts alone, or meets a partner.\<close>

definition may_pass :: "'n graph list \<Rightarrow> ('n \<Rightarrow> nat) \<Rightarrow> 'n system \<Rightarrow> nat \<Rightarrow> 'n action \<Rightarrow> bool" where
  "may_pass P cap s i a \<longleftrightarrow> perform cap i a s \<noteq> None \<or>
     (\<exists>c j. j \<noteq> i \<and> (a = Send c \<and> Recv c \<in> fst ` set (at P s j) \<or> a = Recv c \<and> Send c \<in> fst ` set (at P s j)))"

lemma may_pass_meet:
  "j \<noteq> i \<Longrightarrow> Recv c \<in> fst ` set (at P s j) \<Longrightarrow> may_pass P cap s i (Send c)"
  "j \<noteq> i \<Longrightarrow> Send c \<in> fst ` set (at P s j) \<Longrightarrow> may_pass P cap s i (Recv c)"
  unfolding may_pass_def by (intro disjI2 exI [of _ c] exI [of _ j], simp)+

lemma pc_step:
  assumes "go_step P cap s s'"
  shows "pcs s' ! i = pcs s ! i \<or> pcs s ! i = None \<and> pcs s' ! i = Some 0 \<or>
    (\<exists>a q. (a, q) \<in> set (at P s i) \<and> pcs s' ! i = Some q \<and> may_pass P cap s i a)"
  using assms
proof (induction rule: go_step.induct)
  case (alone a q s k s')
  show ?case
  proof (cases "i = k")
    case True
    obtain p where "k < length (pcs s)" using at_pc [OF alone.hyps(1)] by blast
    then have "pcs (jump k q s') ! i = Some q" using True perform_pcs [OF alone.hyps(2)] by simp
    then show ?thesis using alone.hyps True unfolding may_pass_def by blast
  next
    case False
    then have "pcs (jump k q s') ! i = pcs s' ! i" by simp
    moreover have "pcs s' ! i = pcs s ! i \<or> pcs s ! i = None \<and> pcs s' ! i = Some 0"
      using alone.hyps(2) by (cases a) (auto simp: perform_def nth_list_update split: if_splits)
    ultimately show ?thesis by (elim disjE) simp_all
  qed
next
  case (meet c k j q s q')
  have l: "k < length (pcs s)" "j < length (pcs s)" using at_pc [OF meet.hyps(3)] at_pc [OF meet.hyps(4)] by blast+
  have r: "Recv c \<in> fst ` set (at P s j)" "Send c \<in> fst ` set (at P s k)" using meet.hyps(3,4) by force+
  consider "i = k" | "i = j" "i \<noteq> k" | "i \<noteq> k" "i \<noteq> j" by blast
  then show ?case
  proof cases
    case 1
    then have "pcs (jump j q' (jump k q s)) ! i = Some q" using l meet.hyps(2) by simp
    moreover have "may_pass P cap s i (Send c)" using may_pass_meet(1) [OF _ r(1), of i] 1 meet.hyps(2) by simp
    ultimately show ?thesis using meet.hyps(3) 1 by blast
  next
    case 2
    then have "pcs (jump j q' (jump k q s)) ! i = Some q'" using l by simp
    moreover have "may_pass P cap s i (Recv c)" using may_pass_meet(2) [OF _ r(2), of i] 2 by simp
    ultimately show ?thesis using meet.hyps(4) 2 by blast
  qed simp
qed

definition within :: "nat set \<Rightarrow> nat \<Rightarrow> 'n system \<Rightarrow> bool" where
  "within S i s \<longleftrightarrow> (case pcs s ! i of None \<Rightarrow> True | Some p \<Rightarrow> p \<in> S)"

lemma within_step:
  assumes "go_step P cap s s'" "within S i s" "0 \<in> S \<or> pcs s ! i \<noteq> None"
    and "\<And>p a q. p \<in> S \<Longrightarrow> pcs s ! i = Some p \<Longrightarrow> p < length (P ! i) \<Longrightarrow> (a, q) \<in> set (P ! i ! p) \<Longrightarrow>
      may_pass P cap s i a \<Longrightarrow> q \<in> S"
  shows "within S i s'"
  using pc_step [OF assms(1), of i]
proof (elim disjE exE conjE)
  fix a q assume *: "(a, q) \<in> set (at P s i)" "pcs s' ! i = Some q" "may_pass P cap s i a"
  obtain p where "pcs s ! i = Some p" "p < length (P ! i)" "(a, q) \<in> set (P ! i ! p)" using at_pc [OF *(1)] by blast
  then show ?thesis using assms(2,4) * by (simp add: within_def)
qed (use assms(2,3) in \<open>simp_all add: within_def\<close>)

lemma pc_stays: "go_reach P cap s s' \<Longrightarrow> pcs s ! i \<noteq> None \<Longrightarrow> pcs s' ! i \<noteq> None"
proof (induction rule: rtranclp_induct)
  case (step t u)
  then show ?case using pc_step [OF step.hyps(2), of i] by auto
qed

lemma bufs_reach: "go_reach P cap s s' \<Longrightarrow> bufs s c \<le> cap c \<Longrightarrow> bufs s' c \<le> cap c"
proof (induction rule: rtranclp_induct)
  case (step t u)
  from step.hyps(2) step.IH [OF step.prems] show ?case
  proof (induction rule: go_step.induct)
    case (alone a q s i s')
    then show ?case by (cases a) (auto simp: perform_def split: if_splits)
  qed simp
qed

text \<open>A send without room for which the goroutine itself is the only receiver never happens.\<close>

definition self_send :: "'n graph list \<Rightarrow> ('n \<Rightarrow> nat) \<Rightarrow> nat \<Rightarrow> 'n action \<Rightarrow> bool" where
  "self_send P cap i a =
     (case a of Send c \<Rightarrow> cap c = 0 \<and> (\<forall>j < length P. mentions (P ! j) (Recv c) \<longrightarrow> j = i) | _ \<Rightarrow> False)"

lemma self_send_stuck:
  assumes "self_send P cap i a"
  shows "\<not> may_pass P cap s i a"
proof (cases a)
  case (Send c)
  have "Recv c \<notin> fst ` set (at P s j)" if "j \<noteq> i" for j
    using assms that Send at_mentions [of "Recv c" _ P s j] by (auto simp: self_send_def)
  then show ?thesis using assms Send by (auto simp: may_pass_def perform_def self_send_def)
qed (use assms in \<open>simp_all add: self_send_def\<close>)

definition confined :: "'n graph list \<Rightarrow> ('n \<Rightarrow> nat) \<Rightarrow> nat \<Rightarrow> nat set \<Rightarrow> bool" where
  "confined P cap i S \<longleftrightarrow>
     (\<forall>p \<in> S. p < length (P ! i) \<longrightarrow> (\<forall>(a, q) \<in> set (P ! i ! p). q \<in> S \<or> self_send P cap i a))"

lemma confined_reach:
  assumes "go_reach P cap s s'" "confined P cap i S" "within S i s" "0 \<in> S \<or> pcs s ! i \<noteq> None"
  shows "within S i s'"
  using assms
proof (induction rule: rtranclp_induct)
  case (step t u)
  have "within S i t" using step by blast
  then show ?case
  proof (rule within_step [OF step.hyps(2)])
    show "0 \<in> S \<or> pcs t ! i \<noteq> None" using step.prems(3) pc_stays [OF step.hyps(1)] by blast
    show "q \<in> S" if "p \<in> S" "p < length (P ! i)" "(a, q) \<in> set (P ! i ! p)" "may_pass P cap t i a" for p a q
      using that step.prems(1) self_send_stuck unfolding confined_def by fast
  qed
qed

section \<open>Wait groups\<close>

text \<open>
  What a wait group stands at is what the goroutines have added and not taken back, which their
  counters tell if every graph keeps books: \<open>w i p\<close> is what goroutine \<open>i\<close> has in the group at counter \<open>p\<close>.
\<close>

definition balanced :: "'n graph list \<Rightarrow> 'n \<Rightarrow> (nat \<Rightarrow> nat \<Rightarrow> nat) \<Rightarrow> bool" where
  "balanced P g w \<longleftrightarrow> (\<forall>i < length P. w i 0 = 0 \<and>
     (\<forall>p < length (P ! i). \<forall>(a, q) \<in> set (P ! i ! p). w i q + of_bool (a = WgDone g) = w i p + of_bool (a = WgAdd g)))"

definition share :: "(nat \<Rightarrow> nat \<Rightarrow> nat) \<Rightarrow> 'n system \<Rightarrow> nat \<Rightarrow> nat" where
  "share w s i = (case pcs s ! i of None \<Rightarrow> 0 | Some p \<Rightarrow> w i p)"

definition account :: "'n graph list \<Rightarrow> 'n \<Rightarrow> (nat \<Rightarrow> nat \<Rightarrow> nat) \<Rightarrow> 'n system \<Rightarrow> bool" where
  "account P g w s \<longleftrightarrow> length (pcs s) = length P \<and> groups s g = (\<Sum>i < length P. share w s i)"

lemma sum_change:
  fixes f f' :: "nat \<Rightarrow> nat"
  assumes "i < n" "\<And>j. j \<noteq> i \<Longrightarrow> f' j = f j"
  shows "(\<Sum>j < n. f' j) + f i = (\<Sum>j < n. f j) + f' i"
proof -
  have "(\<Sum>j < n. h j) = h i + (\<Sum>j \<in> {..< n} - {i}. h j)" for h :: "nat \<Rightarrow> nat"
    using assms(1) by (intro sum.remove) auto
  moreover have "(\<Sum>j \<in> {..< n} - {i}. f' j) = (\<Sum>j \<in> {..< n} - {i}. f j)"
    by (intro sum.cong) (simp_all add: assms(2))
  ultimately show ?thesis by simp
qed

lemma account_jump:
  assumes "account P g w s" "balanced P g w" "(a, q) \<in> set (at P s i)"
  shows "(\<Sum>j < length P. share w (jump i q s) j) + of_bool (a = WgDone g) = groups s g + of_bool (a = WgAdd g)"
proof -
  obtain p where p: "i < length P" "i < length (pcs s)" "pcs s ! i = Some p" "p < length (P ! i)" "(a, q) \<in> set (P ! i ! p)"
    using at_pc [OF assms(3)] by blast
  have "(\<Sum>j < length P. share w (jump i q s) j) + share w s i = (\<Sum>j < length P. share w s j) + share w (jump i q s) i"
    by (rule sum_change) (use p in \<open>simp_all add: share_def\<close>)
  moreover have "w i q + of_bool (a = WgDone g) = w i p + of_bool (a = WgAdd g)"
    using assms(2) p unfolding balanced_def by blast
  ultimately show ?thesis using assms(1) p by (simp add: share_def account_def)
qed

lemma perform_share:
  assumes "perform cap k a s = Some s'" "\<And>i. i < length (pcs s) \<Longrightarrow> w i 0 = 0" "pcs s ! k \<noteq> None" "j < length (pcs s)"
  shows "share w (jump k q s') j = share w (jump k q s) j"
proof (cases a)
  case (Go x)
  then have "s' = s\<lparr>pcs := (pcs s)[x := Some 0]\<rparr>" "x < length (pcs s)" "pcs s ! x = None"
    using assms(1) by (simp_all add: perform_def split: if_splits)
  then show ?thesis using assms(2-4) by (cases "j = k"; cases "j = x") (simp_all add: share_def)
qed (use assms in \<open>auto simp: perform_def share_def split: if_splits\<close>)

lemma perform_group:
  "perform cap k a s = Some s' \<Longrightarrow> groups s' g + of_bool (a = WgDone g) = groups s g + of_bool (a = WgAdd g)"
  by (cases a) (auto simp: perform_def split: if_splits)

lemma account_step:
  assumes "go_step P cap s s'" "account P g w s" "balanced P g w"
  shows "account P g w s'"
  using assms
proof (induction rule: go_step.induct)
  case (alone a q s k s')
  have len: "length (pcs s) = length P" using alone.prems(1) by (simp add: account_def)
  have w0: "w i 0 = 0" if "i < length (pcs s)" for i using alone.prems(2) that len by (simp add: balanced_def)
  have k: "pcs s ! k \<noteq> None" using at_pc [OF alone.hyps(1)] by (metis option.distinct(1))
  have "(\<Sum>j < length P. share w (jump k q s') j) = (\<Sum>j < length P. share w (jump k q s) j)"
    by (intro sum.cong refl perform_share [OF alone.hyps(2), where w = w]) (simp_all add: w0 k len)
  then have "groups s' g = (\<Sum>j < length P. share w (jump k q s') j)"
    using account_jump [OF alone.prems alone.hyps(1)] perform_group [OF alone.hyps(2), of g] by simp
  then show ?case using len perform_pcs [OF alone.hyps(2)] by (simp add: account_def)
next
  case (meet c i j q s q')
  let ?t = "jump i q s"
  have t: "account P g w ?t"
    using account_jump [OF meet.prems meet.hyps(3)] meet.prems(1) by (simp add: account_def)
  have "at P ?t j = at P s j" unfolding at_def using meet.hyps(2) by simp
  then have "(Recv c, q') \<in> set (at P ?t j)" using meet.hyps(4) by simp
  from account_jump [OF t meet.prems(2) this] t show ?case by (simp add: account_def)
qed

lemma account_reach:
  "go_reach P cap s s' \<Longrightarrow> account P g w s \<Longrightarrow> balanced P g w \<Longrightarrow> account P g w s'"
  by (induction rule: rtranclp_induct) (auto intro: account_step)

lemma account_boot: "length P = n \<Longrightarrow> balanced P g w \<Longrightarrow> account P g w (boot n bs)"
  by (simp add: account_def boot_def share_def balanced_def)

text \<open>A goroutine that has a share keeps every waiter of the group waiting.\<close>

lemma share_blocks:
  assumes "account P g w s" "i < length P" "0 < share w s i"
  shows "\<not> may_pass P cap s j (WgWait g)"
proof -
  have "share w s i \<le> (\<Sum>j < length P. share w s j)" by (intro member_le_sum) (use assms(2) in auto)
  then have "0 < groups s g" using assms by (simp add: account_def)
  then show ?thesis by (simp add: may_pass_def perform_def)
qed

end
