(* ===== verification/Shutdown.thy ===== *)
theory Shutdown
  imports Goroutines Cluster
begin

text \<open>
  How the goroutines of a node start and stop: \<^verbatim>\<open>Run\<close>, \<^verbatim>\<open>runLeader\<close> and \<^verbatim>\<open>runClient\<close> of
  \<^verbatim>\<open>cluster/cluster.go\<close>, \<^verbatim>\<open>start\<close>, \<^verbatim>\<open>stop\<close> and \<^verbatim>\<open>sendLoop\<close> of \<^verbatim>\<open>cluster/client.go\<close>, \<^verbatim>\<open>run\<close> and the loops of
  \<^verbatim>\<open>cluster/eventstore.go\<close> and \<^verbatim>\<open>cluster/server.go\<close>, \<^verbatim>\<open>Run\<close> of \<^verbatim>\<open>cluster/standalone.go\<close> and \<^verbatim>\<open>ws/hub.go\<close>,
  as graphs. What the loops do with data is modelled in the theories of the components; here a branch
  on data is a choice. That \<^verbatim>\<open>Online\<close> can find a session is the lemma \<open>reach_one\<close> of the hub. A statement of the graph is a send, a receive, a \<^verbatim>\<open>go\<close>, an operation of
  a wait group, a mutex or a context; everything between two of them is one \<open>Tau\<close> or no step at all.
  The closing of channels at the end of \<^verbatim>\<open>Run\<close> and \<^verbatim>\<open>runLeader\<close> is left out.
\<close>

datatype name =
    StorageStopDoneC | ServerStopDoneC | HubStopDoneC | StopNotifyCh | SendMsgChan | RecvMsgChan
  | ClusterWg | StorageWg | ServerWg | ClientWg
  | RunCtx | ClientCtx
  | HandlerMutex | HStoreMutex

type_synonym code = "name graph"

section \<open>Parts of both modes\<close>

text \<open>The goroutine that \<^verbatim>\<open>run\<close> of \<^verbatim>\<open>main.go\<close> starts for the first stop signal.\<close>

definition stop_code :: code where
  "stop_code = [[(Cancel RunCtx, 1)], [(Recv StopNotifyCh, 2)], []]"

text \<open>\<^verbatim>\<open>storage.run\<close>, placed at counter \<open>b\<close>; its loops are the goroutines \<open>i\<close>, \<open>i + 1\<close> and \<open>i + 2\<close>.\<close>

definition storage_run_at :: "nat \<Rightarrow> nat \<Rightarrow> bool \<Rightarrow> code" where
  "storage_run_at b i clean =
     [[(Go i, b + 1)],
      [(Go (i + 1), b + 2)],
      [(if clean then Go (i + 2) else Tau, b + 3)],
      [(WaitCtx RunCtx, b + 4)],
      [(WgWait StorageWg, b + 5)],
      [(Send StorageStopDoneC, b + 6)]]"

text \<open>The fetch, save and commit of a message return when the context is cancelled.\<close>

definition consumeLoop_code :: code where
  "consumeLoop_code = [[(WgAdd StorageWg, 1)], [(WaitCtx RunCtx, 2), (Tau, 1)], [(WgDone StorageWg, 3)], []]"

text \<open>\<^verbatim>\<open>check\<close> sends only if there is something to announce.\<close>

definition sendLoop_code :: code where
  "sendLoop_code = [[(WgAdd StorageWg, 1)], [(WaitCtx RunCtx, 4), (Tau, 2)], [(Tau, 1), (Tau, 3)],
     [(Send SendMsgChan, 1)], [(WgDone StorageWg, 5)], []]"

definition deleteLoop_code :: code where
  "deleteLoop_code = [[(WgAdd StorageWg, 1)], [(WaitCtx RunCtx, 2), (Tau, 1)], [(WgDone StorageWg, 3)], []]"

text \<open>
  \<^verbatim>\<open>Hub.Run\<close>, seen from one connection: at 2 \<^verbatim>\<open>hstore.close\<close> closes the handler, if it is in the table, with
  the table locked; at 5 a message is appended to the channel of the handler, or concerns others.
\<close>

definition hub_Run_code :: code where
  "hub_Run_code =
     [[(WaitCtx RunCtx, 1), (Recv SendMsgChan, 5)],
      [(Lock HStoreMutex, 2)],
      [(Lock HandlerMutex, 3), (Tau, 4)],
      [(Unlock HandlerMutex, 4)],
      [(Unlock HStoreMutex, 8)],
      [(Tau, 0), (Tau, 6)],
      [(Lock HandlerMutex, 7)],
      [(Unlock HandlerMutex, 0)],
      [(Send HubStopDoneC, 9)],
      []]"

section \<open>A cluster node\<close>

text \<open>
  Goroutines: 0 the stop goroutine, 1 \<^verbatim>\<open>Run\<close>, 2 \<^verbatim>\<open>runLeader\<close>, 3 \<^verbatim>\<open>pushServer.run\<close>, 4 to 6 the loops of the
  storage, 7 \<^verbatim>\<open>cleanSessionLoop\<close>, 8 \<^verbatim>\<open>runClient\<close>, 9 \<^verbatim>\<open>Hub.Run\<close>, 10 the send loop of the client, 11 its \<^verbatim>\<open>stop\<close>.
\<close>

definition Run_code :: "ClusterCfg \<Rightarrow> code" where
  "Run_code conf =
     [[(if RunLeader conf then Go 2 else Tau, 1)],
      [(if RunFollower conf then Go 8 else Tau, 2)],
      [(WgWait ClusterWg, 3)],
      [(Send StopNotifyCh, 4)],
      []]"

text \<open>From counter 8 on the deferred function, with the stop of the gRPC server at 11 and of the HTTP server at 12.\<close>

definition runLeader_code :: "ClusterCfg \<Rightarrow> code" where
  "runLeader_code conf =
     [[(WgAdd ClusterWg, 1)],
      [(Go 3, 2)]] @
     storage_run_at 2 4 (cfg_CleanEvents conf) @
     [[(Send SendMsgChan, 9)],
      [(Recv StorageStopDoneC, 10)],
      [(Recv ServerStopDoneC, 11)],
      [(Tau, 12)],
      [(Tau, 13)],
      [(WgDone ClusterWg, 14)],
      []]"

definition pushServer_run_code :: code where
  "pushServer_run_code = [[(Go 7, 1)], [(Recv SendMsgChan, 1), (WaitCtx RunCtx, 2)], [(WgWait ServerWg, 3)],
     [(Send ServerStopDoneC, 4)], []]"

definition cleanSessionLoop_code :: code where
  "cleanSessionLoop_code = [[(WgAdd ServerWg, 1)], [(WaitCtx RunCtx, 2), (Tau, 1)], [(WgDone ServerWg, 3)], []]"

text \<open>
  At 2 \<^verbatim>\<open>newClient\<close> succeeds, 3 to 5 are \<^verbatim>\<open>Online\<close>, 6 to 10 \<^verbatim>\<open>client.start\<close>, from 11 on the deferred function, which
  begins with \<^verbatim>\<open>client.stop\<close>.
\<close>

definition runClient_code :: code where
  "runClient_code =
     [[(WgAdd ClusterWg, 1)],
      [(Go 9, 2)],
      [(Tau, 3)],
      [(Tau, 6), (Tau, 4)],
      [(Send RecvMsgChan, 5)],
      [(Tau, 4), (Tau, 6)],
      [(WgAdd ClientWg, 7)],
      [(Go 10, 8)],
      [(Tau, 8), (Tau, 9), (Tau, 10), (Go 11, 10)],
      [(Send SendMsgChan, 8)],
      [(WgDone ClientWg, 11)],
      [(Cancel ClientCtx, 12)],
      [(WgWait ClientWg, 13)],
      [(Recv HubStopDoneC, 14)],
      [(WgDone ClusterWg, 15)],
      []]"

text \<open>The context of the client is derived from that of the node.\<close>

definition client_sendLoop_code :: code where
  "client_sendLoop_code =
     [[(WgAdd ClientWg, 1)], [(WaitCtx RunCtx, 2), (WaitCtx ClientCtx, 2), (Recv RecvMsgChan, 1)], [(WgDone ClientWg, 3)], []]"

definition client_stop_code :: code where
  "client_stop_code = [[(Cancel ClientCtx, 1)], [(WgWait ClientWg, 2)], []]"

definition cluster_program :: "ClusterCfg \<Rightarrow> code list" where
  "cluster_program conf =
     [stop_code, Run_code conf, runLeader_code conf, pushServer_run_code, consumeLoop_code, sendLoop_code,
      deleteLoop_code, cleanSessionLoop_code, runClient_code, hub_Run_code, client_sendLoop_code, client_stop_code]"

definition cluster_room :: "name \<Rightarrow> nat" where
  "cluster_room c = (if c = SendMsgChan \<or> c = RecvMsgChan then node_cap else 0)"

definition cluster_boot :: "name system" where
  "cluster_boot = boot 12 [0, 1]"

section \<open>A standalone node\<close>

text \<open>
  Goroutines: 0 the stop goroutine, 1 \<^verbatim>\<open>Run\<close>, 2 \<^verbatim>\<open>storage.run\<close>, 3 \<^verbatim>\<open>Hub.Run\<close>, 4 to 6 the loops of the storage, 7 the
  send loop of a connection at its \<^verbatim>\<open>close\<close>, 8 \<^verbatim>\<open>ServeHTTP\<close> of a new connection.
\<close>

text \<open>At 2 to 4 \<^verbatim>\<open>Online\<close>, at 5 to 7 the loop, from 8 on the deferred function, which stops the HTTP server first.\<close>

definition sa_Run_code :: code where
  "sa_Run_code =
     [[(Go 2, 1)],
      [(Go 3, 2)],
      [(Tau, 5), (Tau, 3)],
      [(Send RecvMsgChan, 4)],
      [(Tau, 3), (Tau, 5)],
      [(WaitCtx RunCtx, 8), (Recv RecvMsgChan, 6), (Tau, 6)],
      [(Tau, 5), (Tau, 7), (Tau, 8)],
      [(Send SendMsgChan, 5)],
      [(Tau, 9)],
      [(Recv StorageStopDoneC, 10)],
      [(Recv HubStopDoneC, 11)],
      [(Send StopNotifyCh, 12)],
      []]"

definition handler_close_code :: code where
  "handler_close_code =
     [[(Lock HandlerMutex, 1)], [(Lock HStoreMutex, 2)], [(Unlock HStoreMutex, 3)], [(Send RecvMsgChan, 4)],
      [(Unlock HandlerMutex, 5)], []]"

definition addHandler_code :: code where
  "addHandler_code = [[(Lock HStoreMutex, 1)], [(Unlock HStoreMutex, 2)], [(Send RecvMsgChan, 3)], []]"

definition sa_program :: "bool \<Rightarrow> code list" where
  "sa_program clean =
     [stop_code, sa_Run_code, storage_run_at 0 4 clean @ [[]], hub_Run_code, consumeLoop_code, sendLoop_code,
      deleteLoop_code, handler_close_code, addHandler_code]"

definition sa_room :: "name \<Rightarrow> nat" where
  "sa_room c = 0"

definition sa_boot :: "name system" where
  "sa_boot = boot 9 [0, 1, 7, 8]"

section \<open>Where a node is\<close>

definition notified :: "name system \<Rightarrow> bool" where
  "notified s \<longleftrightarrow> pcs s ! 0 = Some 2"

definition leader_registered :: "name system \<Rightarrow> bool" where
  "leader_registered s \<longleftrightarrow> (case pcs s ! 2 of None \<Rightarrow> False | Some p \<Rightarrow> 1 \<le> p)"

definition leader_ended :: "name system \<Rightarrow> bool" where
  "leader_ended s \<longleftrightarrow> pcs s ! 2 = Some 14"


section \<open>Schedules\<close>

definition afterwards :: "'n system option \<Rightarrow> ('n system \<Rightarrow> bool) \<Rightarrow> bool" where
  "afterwards r Q \<longleftrightarrow> (case r of None \<Rightarrow> False | Some s \<Rightarrow> Q s)"

lemma afterwards_reach: "afterwards (play P cap ms s0) Q \<Longrightarrow> \<exists>s. go_reach P cap s0 s \<and> Q s"
  by (auto simp: afterwards_def split: option.splits dest: play_reach)


text \<open>Up to the loop of a standalone node, with all goroutines registered.\<close>

definition sa_start :: "move list" where
  "sa_start = [Do 1 0, Do 1 0, Do 1 0, Do 2 0, Do 2 0, Do 2 0, Do 4 0, Do 5 0]"





definition sa_goes_online :: "move list" where
  "sa_goes_online = [Do 1 0, Do 1 0, Do 1 1]"

lemma sa_goes_online_stuck:
  "stuck_at (sa_program clean) sa_room {1} [Some 0, Some 3, Some 0, Some 0, None, None, None, Some 0, Some 0]
     (play (sa_program clean) sa_room sa_goes_online sa_boot)"
  by (cases clean) (simp only:, code_simp)+

definition sa_traffic :: "move list" where
  "sa_traffic = sa_start @ [Do 7 0, Do 7 0, Do 7 0, Do 8 0, Do 8 0, Meet 8 0 1 1, Do 1 1, Do 5 1, Do 5 1, Meet 5 0 3 1, Do 3 1]"

lemma sa_traffic_stuck:
  "stuck_at (sa_program clean) sa_room {1, 3, 7}
     [Some 0, Some 7, Some 3, Some 6, Some 1, Some 1, if clean then Some 0 else None, Some 3, Some 3]
     (play (sa_program clean) sa_room sa_traffic sa_boot)"
  by (cases clean) (simp only: if_True if_False, code_simp)+

section \<open>Properties\<close>

text \<open>The program of a node depends on three flags of its configuration.\<close>

definition node_conf :: "bool \<Rightarrow> bool \<Rightarrow> bool \<Rightarrow> ClusterCfg" where
  "node_conf l f c = both_roles\<lparr>RunLeader := l, RunFollower := f, cfg_CleanEvents := c\<rparr>"

lemma cluster_program_conf:
  "cluster_program conf = cluster_program (node_conf (RunLeader conf) (RunFollower conf) (cfg_CleanEvents conf))"
  by (simp add: cluster_program_def Run_code_def runLeader_code_def node_conf_def)



















text \<open>The only way to a notice is the other mistake: the goroutines join the wait group only when they get to run, so
  \<^verbatim>\<open>Run\<close> can find it empty. Then the end of the node is reported while its leader is just starting.\<close>

definition leader_late :: "move list" where
  "leader_late = [Do 1 0, Do 1 0, Do 1 0, Do 2 0, Do 0 0, Meet 1 0 0 0]"

lemma leader_late_notified:
  "l \<Longrightarrow> afterwards (play (cluster_program (node_conf l f c)) cluster_room leader_late cluster_boot)
     (\<lambda>s. notified s \<and> leader_registered s \<and> \<not> leader_ended s)"
  by (cases f; cases c; simp only:; code_simp)

theorem early_notice:
  assumes "RunLeader conf"
  shows "\<exists>s. go_reach (cluster_program conf) cluster_room cluster_boot s \<and> notified s \<and> leader_registered s \<and> \<not> leader_ended s"
  using afterwards_reach [OF leader_late_notified [OF assms]] unfolding cluster_program_conf [of conf] by blast

theorem early_notice_witness:
  "\<exists>s. go_reach (cluster_program both_roles) cluster_room cluster_boot s \<and> notified s \<and> \<not> leader_ended s"
  using early_notice [of both_roles] by (auto simp: both_roles_def)











text \<open>C16. A standalone node can stand still without any signal. If sessions are there when the hub goes online, it sends them
  to the loop that begins only afterwards. In operation the loop that kicks a session off, the hub that
  delivers to a connection, and the connection that reports its end wait for each other.\<close>

theorem standalone_deadlocks:
  "(\<exists>s. go_reach (sa_program clean) sa_room sa_boot s \<and> pcs s ! 0 = Some 0 \<and>
      (\<nexists>t. go_reach (sa_program clean) sa_room s t \<and> pcs t ! 1 \<noteq> Some 3)) \<and>
   (\<exists>s. go_reach (sa_program clean) sa_room sa_boot s \<and> pcs s ! 0 = Some 0 \<and>
      (\<nexists>t. go_reach (sa_program clean) sa_room s t \<and> [pcs t ! 1, pcs t ! 3, pcs t ! 7] \<noteq> [Some 7, Some 6, Some 3]))"
proof
  obtain s where s: "go_reach (sa_program clean) sa_room sa_boot s" "pcs s ! 0 = Some 0"
      "\<nexists>t i. go_reach (sa_program clean) sa_room s t \<and> i \<in> {1} \<and>
         pcs t ! i \<noteq> [Some 0, Some 3, Some 0, Some 0, None, None, None, Some 0, Some 0] ! i"
    using stuck_at_forever [OF sa_goes_online_stuck] by (metis nth_Cons_0)
  then have "\<nexists>t. go_reach (sa_program clean) sa_room s t \<and> pcs t ! 1 \<noteq> Some 3" by simp
  then show "\<exists>s. go_reach (sa_program clean) sa_room sa_boot s \<and> pcs s ! 0 = Some 0 \<and>
      (\<nexists>t. go_reach (sa_program clean) sa_room s t \<and> pcs t ! 1 \<noteq> Some 3)" using s(1,2) by blast
next
  let ?ps = "[Some 0, Some 7, Some 3, Some 6, Some 1, Some 1, if clean then Some 0 else None, Some 3, Some 3]"
  obtain s where s: "go_reach (sa_program clean) sa_room sa_boot s" "pcs s ! 0 = Some 0"
      "\<nexists>t i. go_reach (sa_program clean) sa_room s t \<and> i \<in> {1, 3, 7} \<and> pcs t ! i \<noteq> ?ps ! i"
    using stuck_at_forever [OF sa_traffic_stuck] by (metis nth_Cons_0)
  have "pcs t ! i = ?ps ! i" if "go_reach (sa_program clean) sa_room s t" "i \<in> {1, 3, 7}" for t i using s(3) that by blast
  from this [of _ 1] this [of _ 3] this [of _ 7]
  have "\<nexists>t. go_reach (sa_program clean) sa_room s t \<and> [pcs t ! 1, pcs t ! 3, pcs t ! 7] \<noteq> [Some 7, Some 6, Some 3]" by auto
  then show "\<exists>s. go_reach (sa_program clean) sa_room sa_boot s \<and> pcs s ! 0 = Some 0 \<and>
      (\<nexists>t. go_reach (sa_program clean) sa_room s t \<and> [pcs t ! 1, pcs t ! 3, pcs t ! 7] \<noteq> [Some 7, Some 6, Some 3])"
    using s(1,2) by blast
qed

end
