(* ===== verification/Demo.thy ===== *)
theory Demo
  imports Storage
begin

text \<open>
  \<^verbatim>\<open>dev/demo/main.go\<close>: a producer that writes the same message for two users on every tick, with the number
  of the tick as key. Shown here: the storage of a server decodes what it writes. The encoder and
  the broker are arguments; that the encoder is inverted by the decoder is a hypothesis.
\<close>

definition demo_uids :: "int list" where
  "demo_uids = map (\<lambda>i. i32 (int i + 1)) [0 ..< 2]"

definition demo_evt :: E2EMsg where
  "demo_evt = \<lparr>e2e_Type = ''a/b/c'', e2e_From = 3, e2e_To = demo_uids, e2e_Props = [(''mime'', ''text/plain'')], e2e_Body = ''hello''\<rparr>"

text \<open>
  The loop over \<open>n\<close> ticks from number \<open>i\<close> on: the keys and values written so far, and the panic of the first failure.
\<close>

fun demo_loop ::
    "(E2EMsg \<Rightarrow> string + string) \<Rightarrow> (string \<times> string \<Rightarrow> string option) \<Rightarrow> int \<Rightarrow> nat \<Rightarrow> (string \<times> string) list \<times> string option" where
  "demo_loop marshal write i 0 = ([], None)"
| "demo_loop marshal write i (Suc n) =
     (case marshal demo_evt of
        Inl err \<Rightarrow> ([], Some err)
      | Inr v \<Rightarrow>
          let msg = (show_int i, v) in
          case write msg of
            Some err \<Rightarrow> ([], Some err)
          | None \<Rightarrow> let (out, e) = demo_loop marshal write (i64 (i + 1)) n in (msg # out, e))"

lemma demo_loop_written: "m \<in> set (fst (demo_loop marshal write i n)) \<Longrightarrow> marshal demo_evt = Inr (snd m)"
proof (induction n arbitrary: i)
  case (Suc n)
  then show ?case by (auto simp: Let_def split: sum.splits option.splits prod.splits) (metis fst_conv)
qed simp

text \<open>Every message that the producer has written is, if it is short enough and fresh, decoded by the storage to an
  event for the users 1 and 2.\<close>

theorem demo_decoded:
  assumes "m \<in> set (fst (demo_loop marshal write i n))"
    and "\<And>v. marshal demo_evt = Inr v \<Longrightarrow> unmarshal v = Some demo_evt"
    and "km_Value msg = snd m" "int (length (snd m)) \<le> valueMaxBytes s" "\<not> shouldDiscard s now msg"
  shows "\<exists>v. decodeKafkaMsg unmarshal s now msg = Some v \<and> se_To (to_event msg v) = [1, 2] \<and> se_Payload (to_event msg v) = snd m"
proof -
  have "unmarshal (snd m) = Some demo_evt" using assms(2) demo_loop_written [OF assms(1)] by blast
  moreover have "demo_uids = [1, 2]" by (simp add: demo_uids_def upt_rec i32_def)
  ultimately show ?thesis
    using assms(3-5) by (intro exI [of _ demo_evt]) (simp add: decodeKafkaMsg_def to_event_def demo_evt_def)
qed

end
