(* ===== verification/Spec2Isabelle.thy ===== *)
theory Spec2Isabelle
  imports Storage Standalone Launcher Shutdown Demo
begin

text \<open>
  This development models \<^emph>\<open>minipush\<close>, a push server written in Go, and proves what makes it
  correct. Business servers write events to Kafka. A leader consumes them, stores them in MySQL with a
  sequence number per user, and announces new numbers to the nodes that hold the users' websocket
  sessions. Clients fetch events, mark them read and ask for statistics over the websocket.

  \<^bold>\<open>Parts and theories.\<close> Each theory models the files named in it, one definition per Go function or
  loop body, with the names of the source where Isabelle allows them.

  \<^item> \<open>Prelude\<close>: fixed-width integers, panics, maps with the order of their range loops, decimal numbers.
  \<^item> \<open>Messages\<close>: the message structs of \<^verbatim>\<open>proto/api.pb.go\<close> as records.
  \<^item> \<open>ReadStates\<close>: \<^verbatim>\<open>store/util.go\<close>, the bit blocks of read states, and their decoder in the browser.
  \<^item> \<open>EventStore\<close>: \<^verbatim>\<open>store/event.go\<close>. State: the tables of \<^verbatim>\<open>docs/mysql.sql\<close>. Every operation is a
    transaction; faults of each statement, of begin and of commit are input.
  \<^item> \<open>Storage\<close>: \<^verbatim>\<open>cluster/eventstore.go\<close>. The consume loop is a machine over program points, the
    cache of head sequences a record; consume, send and delete loop interleave in \<open>storage_step\<close>. It
    uses the store through the locale \<open>event_store\<close>, interpreted on the MySQL store.
  \<^item> \<open>Sessions\<close>: \<^verbatim>\<open>cluster/sessionstore.go\<close>, with an explicit heap of sessions because the code shares
    pointers. The locale \<open>session_table\<close> is the contract of a session table; it is interpreted here and
    in \<open>Standalone\<close>.
  \<^item> \<open>PushServer\<close>: \<^verbatim>\<open>cluster/server.go\<close> and \<^verbatim>\<open>cluster/util.go\<close>, the gRPC server of the leader.
  \<^item> \<open>Standalone\<close>: \<^verbatim>\<open>cluster/standalone.go\<close>, leader and follower in one process.
  \<^item> \<open>EventApi\<close>: \<^verbatim>\<open>ws/eventapi.go\<close> and the requests in \<^verbatim>\<open>recvLoop\<close> of \<^verbatim>\<open>ws/handler.go\<close>.
  \<^item> \<open>WsHub\<close>: \<^verbatim>\<open>ws/handler.go\<close>, \<^verbatim>\<open>ws/hstore.go\<close>, \<^verbatim>\<open>ws/hub.go\<close>. Both goroutines of every session and
    \<^verbatim>\<open>Hub.Run\<close> have program counters; mutexes and the channel of each session are part of the state.
  \<^item> \<open>Cluster\<close>: \<^verbatim>\<open>cluster/cluster.go\<close> and \<^verbatim>\<open>cluster/client.go\<close>, the wiring of a node.
  \<^item> \<open>Goroutines\<close>: what Go promises of channels, mutexes, wait groups, contexts and \<^verbatim>\<open>go\<close> statements, as steps of
    programs given by control flow graphs.
  \<^item> \<open>Shutdown\<close>: the goroutines of a cluster node and of a standalone node as such programs, from
    \<^verbatim>\<open>Run\<close> to the answer to a stop signal.
  \<^item> \<open>Profiler\<close>: \<^verbatim>\<open>profile.go\<close>.
  \<^item> \<open>Launcher\<close>: \<^verbatim>\<open>main.go\<close>, \<^verbatim>\<open>auth/mock.go\<close> and \<^verbatim>\<open>getRemoteIP\<close> of \<^verbatim>\<open>ws/hub.go\<close>.
  \<^item> \<open>Demo\<close>: \<^verbatim>\<open>dev/demo/main.go\<close>, the producer for development.
  \<^item> This theory: a property across flags, hub and standalone server.

  \<^bold>\<open>What the theorems show.\<close>

  \<^item> Events: numbers of a user have no gaps, saving is atomic and idempotent, a Kafka message is acknowledged only
    after its event is stored, announced numbers grow and never run ahead of the store, queries return
    exactly the stored rows, the tables stay consistent.
  \<^item> Sessions: both session tables refine a map from keys to sessions; exactly the oldest sessions over the quota are
    chosen; standalone server and leader with one hub agree; the invariant of the leader under all interleavings.
  \<^item> Websockets: the invariant of a node under all interleavings of its goroutines; the leader knows every
    registered session; closed sessions wind down; every request is answered and no text of a database error
    reaches a client.
  \<^item> Node and process: a node with one role is a queue, hub ids tell nodes apart, accepted flags give values in range, the
    pid file excludes a second server and every way out of the process leaves the files in order, signals stop
    the server once and leave the runtime's settings alone.
  \<^item> Goroutines: those that wait for each other in a circle wait for ever; a wait group stands at what its members have added.
    Idle standalone nodes and followers can stop.

  \<^bold>\<open>What they show to be wrong.\<close> Some theorems describe defects, each with a concrete reachable state:
  a commit whose answer is lost leaves users unannounced; the leader never deletes sessions it
  kicks off; a broken result set passes for a short one; blocks of read states in descending order; the limit on ranges
  limits nothing; a failed write leaves a session open for ever, and with a full channel blocks the whole node; closing
  and stopping deadlock; a late synchronisation revives a closed session at the leader; a node that is leader and
  follower loses or repeats announcements; a leader never stops, and its end may be reported before it has begun;
  followers and standalone nodes may hang when they stop, and standalone nodes when they start or kick a session off;
  unchecked flags; a trace file left open.

  \<^bold>\<open>Bounds.\<close> Loops are structural recursion over their input, or \<open>function\<close> with a measure (the batches of
  \<^verbatim>\<open>Online\<close>), or steps of a relation; nothing runs on fuel. Integers of 32 and 64 bits are integers with the
  wrap-around written out. Channels have the capacity of the source: 16 values per session, 8 messages per node.
  The channel from a hub to its cluster is taken to accept every message in \<open>WsHub\<close>; in \<open>Shutdown\<close> it has the capacity
  of the source, and what is sent is left out instead. The runs that end in a hang are schedules, which are evaluated.

  \<^bold>\<open>Parameters.\<close> MySQL's treatment of time values, Kafka, JSON, gRPC streams, the clock, the parser of IP
  addresses and the file system are arguments of the definitions; the orders of range loops over maps are arbitrary.

  \<^bold>\<open>Not modelled.\<close> Generated protobuf and gRPC code beyond the structs, and the mocks, because they are
  generated; Go interfaces and \<^verbatim>\<open>chatstore/api.go\<close>, which hold no code; logging; the HTTP and gRPC servers, the network under
  dialling and the HTTP upgrade, which are calls of libraries; the closing of channels at the end of a process; timeouts as durations; the files that profiling writes.
\<close>

section \<open>The standalone server from flags to sessions\<close>








end
